(* ===== verification/Prelude.thy ===== *)
theory Prelude
  imports Main "HOL-Library.Word"
begin

text \<open>
  Shared vocabulary of the development: octet strings, Go slices, the big- and little-endian
  readers and writers of \<^verbatim>\<open>encoding/binary\<close>, and the generic list and word lemmas
  the components rely on.  A Go \<^verbatim>\<open>[]byte\<close> is a list of octets, an unsigned machine
  integer is a word of its width, a length is a natural number.
\<close>

unbundle bit_operations_syntax

type_synonym byte = "8 word"
type_synonym bytes = "8 word list"
type_synonym u16 = "16 word"
type_synonym u32 = "32 word"
type_synonym u64 = "64 word"

abbreviation Err :: "'e \<Rightarrow> 'e + 'a" where
  "Err \<equiv> Inl"

abbreviation Ok :: "'a \<Rightarrow> 'e + 'a" where
  "Ok \<equiv> Inr"

named_theorems wire_simps
  \<open>evaluation rules for octet readers, writers and slices\<close>

named_theorems eval_simps
  \<open>rules that evaluate octet readers and writers on concrete data\<close>

section \<open>Slices\<close>

text \<open>\<open>slice a b xs\<close> is Go's \<open>xs[a:b]\<close>; the code models its bounds check where one can fail.\<close>

definition slice :: "nat \<Rightarrow> nat \<Rightarrow> 'a list \<Rightarrow> 'a list" where
  "slice a b xs = take (b - a) (drop a xs)"

text \<open>\<open>put_at a ys xs\<close> is \<open>copy(xs[a:], ys)\<close> for a source that fits.\<close>

definition put_at :: "nat \<Rightarrow> 'a list \<Rightarrow> 'a list \<Rightarrow> 'a list" where
  "put_at a ys xs = take a xs @ ys @ drop (a + length ys) xs"

lemma length_slice [simp]: "length (slice a b xs) = min (b - a) (length xs - a)"
  by (simp add: slice_def)

lemma slice_whole [simp]: "slice 0 (length xs) xs = xs"
  by (simp add: slice_def)

lemma slice_append_left: "b \<le> length xs \<Longrightarrow> slice a b (xs @ ys) = slice a b xs"
  by (cases "a \<le> b") (simp_all add: slice_def)

lemma slice_append_right:
  "length xs \<le> a \<Longrightarrow> slice a b (xs @ ys) = slice (a - length xs) (b - length xs) ys"
  by (simp add: slice_def)

lemma nth_slice: "i < b - a \<Longrightarrow> i < length xs - a \<Longrightarrow> slice a b xs ! i = xs ! (a + i)"
  by (simp add: slice_def)

lemma length_put_at [simp]:
  "a + length ys \<le> length xs \<Longrightarrow> length (put_at a ys xs) = length xs"
  by (simp add: put_at_def)

lemma nth_put_at:
  assumes "a + length ys \<le> length xs" and "i < length xs"
  shows "put_at a ys xs ! i = (if a \<le> i \<and> i < a + length ys then ys ! (i - a) else xs ! i)"
  using assms by (auto simp: put_at_def nth_append min_def)

lemma slice_put_at_same:
  "a + length ys \<le> length xs \<Longrightarrow> slice a (a + length ys) (put_at a ys xs) = ys"
  by (simp add: slice_def put_at_def min_def)

lemma slice_put_at_other:
  assumes "a + length ys \<le> length xs" and "d \<le> a \<or> a + length ys \<le> c"
  shows "slice c d (put_at a ys xs) = slice c d xs"
proof (rule nth_equalityI)
  show "length (slice c d (put_at a ys xs)) = length (slice c d xs)"
    using assms(1) by simp
next
  fix i assume "i < length (slice c d (put_at a ys xs))"
  then have i: "i < d - c" "i < length xs - c"
    using assms(1) by simp_all
  then have "slice c d (put_at a ys xs) ! i = put_at a ys xs ! (c + i)"
    using assms(1) by (simp add: nth_slice)
  also have "\<dots> = xs ! (c + i)"
    using assms i by (subst nth_put_at) auto
  also have "\<dots> = slice c d xs ! i"
    using i by (simp add: nth_slice)
  finally show "slice c d (put_at a ys xs) ! i = slice c d xs ! i" .
qed

lemma slice_parts:
  assumes "a \<le> b"
  shows "take a xs @ slice a b xs @ drop b xs = xs"
proof -
  have "drop b xs = drop (b - a) (drop a xs)" using assms by simp
  then show ?thesis unfolding slice_def by (simp only: append_take_drop_id)
qed

lemma slice_split: "a \<le> b \<Longrightarrow> b \<le> c \<Longrightarrow> slice a c xs = slice a b xs @ slice b c xs"
proof -
  assume ab: "a \<le> b" and bc: "b \<le> c"
  have "slice a c xs = take ((b - a) + (c - b)) (drop a xs)"
    using ab bc by (simp add: slice_def)
  also have "\<dots> = take (b - a) (drop a xs) @ take (c - b) (drop (b - a) (drop a xs))"
    by (rule take_add)
  also have "drop (b - a) (drop a xs) = drop b xs"
    using ab by simp
  finally show ?thesis by (simp add: slice_def)
qed

lemma put_at_append1: "a + length ys \<le> length xs \<Longrightarrow> put_at a ys (xs @ zs) = put_at a ys xs @ zs"
  by (simp add: put_at_def)

lemma put_at_fill: "length ys = length xs \<Longrightarrow> put_at (length zs) ys (zs @ xs) = zs @ ys"
  by (simp add: put_at_def)

lemma put_at_mid: "length ys = length xs \<Longrightarrow> put_at (length zs) ys (zs @ xs @ ws) = zs @ ys @ ws"
  by (simp add: put_at_def)

lemma list_of_2: "length xs = 2 \<Longrightarrow> \<exists>a b. xs = [a, b]"
  by (cases xs; cases "tl xs") auto

lemma list_of_4: "length xs = 4 \<Longrightarrow> \<exists>a b c d. xs = [a, b, c, d]"
proof -
  assume l: "length xs = 4"
  then have "length (take 2 xs) = 2" "length (drop 2 xs) = 2" by simp_all
  then obtain a b c d where "take 2 xs = [a, b]" "drop 2 xs = [c, d]" using list_of_2 by metis
  then have "xs = [a, b] @ [c, d]" by (metis append_take_drop_id)
  then show ?thesis by simp
qed

section \<open>Big- and little-endian integers\<close>

fun be_acc :: "nat \<Rightarrow> bytes \<Rightarrow> nat" where
  "be_acc acc [] = acc"
| "be_acc acc (b # bs) = be_acc (acc * 256 + unat b) bs"

definition be_val :: "bytes \<Rightarrow> nat" where
  "be_val bs = be_acc 0 bs"

fun be_bytes :: "nat \<Rightarrow> nat \<Rightarrow> bytes" where
  "be_bytes 0 v = []"
| "be_bytes (Suc n) v = be_bytes n (v div 256) @ [of_nat (v mod 256)]"

definition le_val :: "bytes \<Rightarrow> nat" where
  "le_val bs = be_val (rev bs)"

definition le_bytes :: "nat \<Rightarrow> nat \<Rightarrow> bytes" where
  "le_bytes n v = rev (be_bytes n v)"

text \<open>\<^verbatim>\<open>binary.BigEndian.Uint16/32/64\<close> at an offset, and the matching writers.\<close>

definition get16 :: "nat \<Rightarrow> bytes \<Rightarrow> u16" where
  "get16 i xs = of_nat (be_val (slice i (i + 2) xs))"

definition get32 :: "nat \<Rightarrow> bytes \<Rightarrow> u32" where
  "get32 i xs = of_nat (be_val (slice i (i + 4) xs))"

definition get64 :: "nat \<Rightarrow> bytes \<Rightarrow> u64" where
  "get64 i xs = of_nat (be_val (slice i (i + 8) xs))"

definition be16 :: "u16 \<Rightarrow> bytes" where
  "be16 w = be_bytes 2 (unat w)"

definition be32 :: "u32 \<Rightarrow> bytes" where
  "be32 w = be_bytes 4 (unat w)"

definition be64 :: "u64 \<Rightarrow> bytes" where
  "be64 w = be_bytes 8 (unat w)"

lemma be_acc_append: "be_acc acc (xs @ ys) = be_acc (be_acc acc xs) ys"
  by (induction xs arbitrary: acc) auto

lemma be_acc_linear: "be_acc acc bs = acc * 256 ^ length bs + be_acc 0 bs"
proof (induction bs arbitrary: acc)
  case Nil
  then show ?case by simp
next
  case (Cons b bs)
  have "be_acc acc (b # bs) = (acc * 256 + unat b) * 256 ^ length bs + be_acc 0 bs"
    using Cons.IH [of "acc * 256 + unat b"] by simp
  moreover have "be_acc 0 (b # bs) = unat b * 256 ^ length bs + be_acc 0 bs"
    using Cons.IH [of "unat b"] by simp
  ultimately show ?case by (simp add: algebra_simps del: be_acc.simps)
qed

lemma be_val_Nil [simp]: "be_val [] = 0"
  by (simp add: be_val_def)

lemma be_val_Cons: "be_val (b # bs) = unat b * 256 ^ length bs + be_val bs"
  by (simp add: be_val_def be_acc_linear [of "unat b"])

lemma be_val_append: "be_val (xs @ ys) = be_val xs * 256 ^ length ys + be_val ys"
  by (simp add: be_val_def be_acc_append be_acc_linear [of "be_acc 0 xs"])

lemma unat_byte_lt [simp]: "unat (b :: byte) < 256"
  using unsigned_less [of b, where ?'a = nat] by simp

lemma unat_byte_le: "unat (b :: byte) \<le> 255"
  using unat_byte_lt [of b] by linarith

lemma be_val_bound: "be_val bs < 256 ^ length bs"
proof (induction bs)
  case Nil
  then show ?case by (simp only: be_val_Nil list.size power_0)
next
  case (Cons b bs)
  have "unat b * 256 ^ length bs + be_val bs < (unat b + 1) * 256 ^ length bs"
    using Cons.IH by simp
  also have "\<dots> \<le> 256 * 256 ^ length bs"
    using unat_byte_lt [of b] by (intro mult_le_mono1) linarith
  finally show ?case by (simp only: be_val_Cons list.size add_Suc_right add_0_right power_Suc)
qed

lemma length_be_bytes [simp]: "length (be_bytes n v) = n"
  by (induction n arbitrary: v) auto

lemma be_val_be_bytes: "be_val (be_bytes n v) = v mod 256 ^ n"
proof (induction n arbitrary: v)
  case 0
  then show ?case by simp
next
  case (Suc n)
  have "be_val (be_bytes (Suc n) v) = (v div 256 mod 256 ^ n) * 256 + v mod 256"
    using Suc.IH [of "v div 256"] by (simp add: be_val_append be_val_Cons unat_of_nat del: power_Suc)
  also have "\<dots> = v mod (256 * 256 ^ n)"
    using mod_mult2_eq [of v 256 "256 ^ n"] by linarith
  also have "256 * 256 ^ n = (256 :: nat) ^ Suc n"
    by (rule power_Suc [symmetric])
  finally show ?case .
qed

lemma be_bytes_be_val: "be_bytes (length bs) (be_val bs) = bs"
proof (induction bs rule: rev_induct)
  case Nil
  then show ?case by simp
next
  case (snoc b bs)
  have "be_val (bs @ [b]) = be_val bs * 256 + unat b"
    by (simp add: be_val_append be_val_Cons)
  then show ?case using snoc.IH by simp
qed

lemma length_le_bytes [simp]: "length (le_bytes n v) = n"
  by (simp add: le_bytes_def)

lemma le_val_le_bytes: "le_val (le_bytes n v) = v mod 256 ^ n"
  by (simp add: le_val_def le_bytes_def be_val_be_bytes)

lemma le_bytes_le_val: "le_bytes (length bs) (le_val bs) = bs"
  using be_bytes_be_val [of "rev bs"] by (simp add: le_val_def le_bytes_def)

lemma le_val_bound: "le_val bs < 256 ^ length bs"
  using be_val_bound [of "rev bs"] by (simp add: le_val_def)

lemma length_be16 [simp]: "length (be16 w) = 2"
  and length_be32 [simp]: "length (be32 v) = 4"
  and length_be64 [simp]: "length (be64 u) = 8"
  by (simp_all add: be16_def be32_def be64_def)

lemma be_val_be16 [simp]: "be_val (be16 w) = unat w"
  using unsigned_less [of w, where ?'a = nat] by (simp add: be16_def be_val_be_bytes)

lemma be_val_be32 [simp]: "be_val (be32 w) = unat w"
  using unsigned_less [of w, where ?'a = nat] by (simp add: be32_def be_val_be_bytes)

lemma be_val_be64 [simp]: "be_val (be64 w) = unat w"
  using unsigned_less [of w, where ?'a = nat] by (simp add: be64_def be_val_be_bytes)

lemma be16_get16: "i + 2 \<le> length xs \<Longrightarrow> be16 (get16 i xs) = slice i (i + 2) xs"
  using be_bytes_be_val [of "slice i (i + 2) xs"] be_val_bound [of "slice i (i + 2) xs"]
  by (simp add: be16_def get16_def unat_of_nat)

lemma be32_get32: "i + 4 \<le> length xs \<Longrightarrow> be32 (get32 i xs) = slice i (i + 4) xs"
  using be_bytes_be_val [of "slice i (i + 4) xs"] be_val_bound [of "slice i (i + 4) xs"]
  by (simp add: be32_def get32_def unat_of_nat)

lemma be64_get64: "i + 8 \<le> length xs \<Longrightarrow> be64 (get64 i xs) = slice i (i + 8) xs"
  using be_bytes_be_val [of "slice i (i + 8) xs"] be_val_bound [of "slice i (i + 8) xs"]
  by (simp add: be64_def get64_def unat_of_nat)

text \<open>A reader past a known prefix, and a reader over the field it was written to.\<close>

lemma slice_shift:
  "length xs \<le> i \<Longrightarrow> slice i (i + n) (xs @ ys) = slice (i - length xs) (i - length xs + n) ys"
  by (simp add: slice_def)

lemma slice_shift_left: "i + n \<le> length xs \<Longrightarrow> slice i (i + n) (xs @ ys) = slice i (i + n) xs"
  by (rule slice_append_left)

lemma get16_append [wire_simps]:
  "length xs \<le> i \<Longrightarrow> get16 i (xs @ ys) = get16 (i - length xs) ys"
  "i + 2 \<le> length xs \<Longrightarrow> get16 i (xs @ ys) = get16 i xs"
  unfolding get16_def by (simp_all only: slice_shift slice_shift_left)

lemma get32_append [wire_simps]:
  "length xs \<le> i \<Longrightarrow> get32 i (xs @ ys) = get32 (i - length xs) ys"
  "i + 4 \<le> length xs \<Longrightarrow> get32 i (xs @ ys) = get32 i xs"
  unfolding get32_def by (simp_all only: slice_shift slice_shift_left)

lemma get64_append [wire_simps]:
  "length xs \<le> i \<Longrightarrow> get64 i (xs @ ys) = get64 (i - length xs) ys"
  "i + 8 \<le> length xs \<Longrightarrow> get64 i (xs @ ys) = get64 i xs"
  unfolding get64_def by (simp_all only: slice_shift slice_shift_left)

lemma get_Cons [wire_simps]:
  "0 < i \<Longrightarrow> get16 i (x # xs) = get16 (i - 1) xs"
  "0 < i \<Longrightarrow> get32 i (x # xs) = get32 (i - 1) xs"
  "0 < i \<Longrightarrow> get64 i (x # xs) = get64 (i - 1) xs"
  using get16_append(1) [of "[x]" i xs] get32_append(1) [of "[x]" i xs] get64_append(1) [of "[x]" i xs] by simp_all

lemma get16_be16 [simp]: "get16 0 (be16 w) = w" "get16 0 (be16 w @ r) = w"
  by (simp_all add: get16_def slice_def)

lemma get32_be32 [simp]: "get32 0 (be32 w) = w" "get32 0 (be32 w @ r) = w"
  by (simp_all add: get32_def slice_def)

lemma get64_be64 [simp]: "get64 0 (be64 w) = w" "get64 0 (be64 w @ r) = w"
  by (simp_all add: get64_def slice_def)

text \<open>The octets of a string constant.\<close>

definition ascii :: "string \<Rightarrow> bytes" where
  "ascii s = map of_char s"

section \<open>Maps\<close>

lemma inj_on_map_upd:
  assumes "inj_on m (dom m)" and "v \<notin> ran m"
  shows "inj_on (m(k \<mapsto> v)) (dom (m(k \<mapsto> v)))"
  using assms by (auto simp: inj_on_def ran_def dom_def)

section \<open>Words\<close>

lemma unat_of_nat_small: "n < 2 ^ LENGTH('a) \<Longrightarrow> unat (of_nat n :: 'a :: len word) = n"
  by (simp add: unat_of_nat)

lemma unat_diff: "(b :: 'a :: len word) \<le> a \<Longrightarrow> unat (a - b) = unat a - unat b"
  by (rule unat_sub)

lemma unat_inc: "x < (- 1 :: 'l::len word) \<Longrightarrow> unat (x + 1) = unat x + 1"
  by (metis Suc_eq_plus1 add.commute add_eq_0_iff less_irrefl unatSuc)

lemma word_inc_le_iff: "x < (- 1 :: 'l::len word) \<Longrightarrow> x + 1 \<le> y \<longleftrightarrow> x < y"
  by (simp add: word_le_nat_alt word_less_nat_alt unat_inc Suc_le_eq)


lemma unat_drop_bit_div: "unat (drop_bit k (x :: 'a::len word)) = unat x div 2 ^ k"
  by (subst unat_drop_bit_eq) (rule drop_bit_eq_div)

lemma unat_take_bit_mod: "unat (take_bit k (x :: 'a::len word)) = unat x mod 2 ^ k"
  by (subst unsigned_take_bit_eq) (rule take_bit_eq_mod)

lemma unat_and_low:
  "m = mask k \<Longrightarrow> unat (x AND (m :: 'a::len word)) = unat x mod 2 ^ k"
  by (simp only: unat_take_bit_mod flip: take_bit_eq_mask)

lemma unat_NOT: "unat (NOT (w :: 'a::len word)) = 2 ^ LENGTH('a) - 1 - unat w"
proof -
  have "NOT w = - 1 - w" by (simp add: not_eq_complement)
  moreover have "unat (- 1 - w) = unat (- 1 :: 'a word) - unat w" by (rule unat_sub) simp
  ultimately show ?thesis by (simp add: unsigned_minus_1_eq_mask mask_eq_exp_minus_1)
qed

section \<open>Evaluation on concrete octets\<close>

lemma be_bytes_numeral [eval_simps]:
  "be_bytes (numeral k) v = be_bytes (pred_numeral k) (v div 256) @ [of_nat (v mod 256)]"
  by (simp only: numeral_eq_Suc be_bytes.simps)

lemmas octet_evals [eval_simps] =
  slice_def put_at_def be_val_def le_val_def le_bytes_def get16_def get32_def get64_def
  be16_def be32_def be64_def take_Cons' drop_Cons'

end
