(* ===== verification/Netip.thy ===== *)
theory Netip
  imports Prelude
begin

text \<open>
  The part of Go's \<^verbatim>\<open>net\<close> and \<^verbatim>\<open>net/netip\<close> packages the data plane uses:
  addresses of both families, their order and successor, masked prefixes and containment.  Zones
  are left out: no address of the data plane carries one.
\<close>

section \<open>Addresses\<close>

type_synonym u128 = "128 word"

text \<open>\<^verbatim>\<open>netip.Addr\<close>; its zero value, which is no address, is \<open>NoAddr\<close>.\<close>

datatype Addr = NoAddr | Addr4 u32 | Addr6 u128

fun Is4 :: "Addr \<Rightarrow> bool" where
  "Is4 (Addr4 _) = True"
| "Is4 _ = False"

fun Is6 :: "Addr \<Rightarrow> bool" where
  "Is6 (Addr6 _) = True"
| "Is6 _ = False"

fun Is4In6 :: "Addr \<Rightarrow> bool" where
  "Is4In6 (Addr6 a) = (drop_bit 32 a = 0xffff)"
| "Is4In6 _ = False"

fun IsValid :: "Addr \<Rightarrow> bool" where
  "IsValid NoAddr = False"
| "IsValid _ = True"

fun BitLen :: "Addr \<Rightarrow> nat" where
  "BitLen NoAddr = 0"
| "BitLen (Addr4 _) = 32"
| "BitLen (Addr6 _) = 128"

definition Unmap :: "Addr \<Rightarrow> Addr" where
  "Unmap a = (case a of Addr6 w \<Rightarrow> (if Is4In6 a then Addr4 (ucast w) else a) | _ \<Rightarrow> a)"

definition AddrFrom4 :: "bytes \<Rightarrow> Addr" where
  "AddrFrom4 b = Addr4 (of_nat (be_val b))"

definition AddrFrom16 :: "bytes \<Rightarrow> Addr" where
  "AddrFrom16 b = Addr6 (of_nat (be_val b))"

definition AddrFromSlice :: "bytes \<Rightarrow> Addr option" where
  "AddrFromSlice b = (if length b = 4 then Some (AddrFrom4 b)
     else if length b = 16 then Some (AddrFrom16 b) else None)"

text \<open>The successor of the last address of a family is the zero value.\<close>

fun NextAddr :: "Addr \<Rightarrow> Addr" where
  "NextAddr NoAddr = NoAddr"
| "NextAddr (Addr4 a) = (if a + 1 = 0 then NoAddr else Addr4 (a + 1))"
| "NextAddr (Addr6 a) = (if a + 1 = 0 then NoAddr else Addr6 (a + 1))"

text \<open>\<^verbatim>\<open>Addr.Less\<close> orders by family first, the zero value below every address.\<close>

fun addr_num :: "Addr \<Rightarrow> nat" where
  "addr_num NoAddr = 0"
| "addr_num (Addr4 a) = unat a"
| "addr_num (Addr6 a) = unat a"

definition Less :: "Addr \<Rightarrow> Addr \<Rightarrow> bool" where
  "Less a b = (BitLen a < BitLen b \<or> (BitLen a = BitLen b \<and> addr_num a < addr_num b))"

section \<open>Prefixes\<close>

text \<open>
  A \<^verbatim>\<open>netip.Prefix\<close> that parsed: its length is at most the width of the family.
  \<open>Masked\<close> clears the bits behind the length.
\<close>

record Prefix =
  pfx_addr :: Addr
  pfx_bits :: nat

definition pfx_valid :: "Prefix \<Rightarrow> bool" where
  "pfx_valid p = (IsValid (pfx_addr p) \<and> pfx_bits p \<le> BitLen (pfx_addr p))"

definition clear_low :: "nat \<Rightarrow> 'a::len word \<Rightarrow> 'a word" where
  "clear_low k a = push_bit k (drop_bit k a)"

definition Masked :: "Prefix \<Rightarrow> Prefix" where
  "Masked p = (case pfx_addr p of
     NoAddr \<Rightarrow> p
   | Addr4 a \<Rightarrow> p\<lparr>pfx_addr := Addr4 (clear_low (32 - pfx_bits p) a)\<rparr>
   | Addr6 a \<Rightarrow> p\<lparr>pfx_addr := Addr6 (clear_low (128 - pfx_bits p) a)\<rparr>)"

definition Contains :: "Prefix \<Rightarrow> Addr \<Rightarrow> bool" where
  "Contains p a = (case (pfx_addr p, a) of
     (Addr4 n, Addr4 x) \<Rightarrow> drop_bit (32 - pfx_bits p) (x XOR n) = 0
   | (Addr6 n, Addr6 x) \<Rightarrow> drop_bit (128 - pfx_bits p) (x XOR n) = 0
   | _ \<Rightarrow> False)"

lemma Contains_NoAddr [simp]: "\<not> Contains p NoAddr"
  by (simp add: Contains_def split: Addr.split)

section \<open>Addresses as bit strings\<close>

text \<open>Bit 0 is the most significant one, as in a longest-prefix match.\<close>

definition msb_bits :: "nat \<Rightarrow> 'a::len word \<Rightarrow> bool list" where
  "msb_bits w a = map (\<lambda>i. bit a (w - 1 - i)) [0..<w]"

fun addr_bits :: "Addr \<Rightarrow> bool list" where
  "addr_bits NoAddr = []"
| "addr_bits (Addr4 a) = msb_bits 32 a"
| "addr_bits (Addr6 a) = msb_bits 128 a"

definition pfx_path :: "Prefix \<Rightarrow> bool list" where
  "pfx_path p = take (pfx_bits p) (addr_bits (pfx_addr p))"

lemma length_msb_bits [simp]: "length (msb_bits w a) = w"
  by (simp add: msb_bits_def)

lemma length_addr_bits [simp]: "length (addr_bits a) = BitLen a"
  by (cases a) auto

lemma drop_bit_zero_iff:
  "drop_bit k (x :: 'a::len word) = 0 \<longleftrightarrow> (\<forall>n. k \<le> n \<longrightarrow> n < LENGTH('a) \<longrightarrow> \<not> bit x n)"
proof
  assume "drop_bit k x = 0"
  then have "\<not> bit (drop_bit k x) (n - k)" for n by simp
  then show "\<forall>n. k \<le> n \<longrightarrow> n < LENGTH('a) \<longrightarrow> \<not> bit x n"
    by (simp add: bit_drop_bit_eq) (metis le_add_diff_inverse)
next
  assume a: "\<forall>n. k \<le> n \<longrightarrow> n < LENGTH('a) \<longrightarrow> \<not> bit x n"
  show "drop_bit k x = 0"
  proof (rule bit_word_eqI)
    fix n
    show "bit (drop_bit k x) n = bit 0 n"
      using a bit_imp_le_length [of x "k + n"] by (auto simp: bit_drop_bit_eq)
  qed
qed

lemma msb_prefix_iff:
  fixes x n :: "'a::len word"
  assumes "b \<le> LENGTH('a)"
  shows "drop_bit (LENGTH('a) - b) (x XOR n) = 0
    \<longleftrightarrow> take b (msb_bits (LENGTH('a)) x) = take b (msb_bits (LENGTH('a)) n)"
proof
  assume "drop_bit (LENGTH('a) - b) (x XOR n) = 0"
  then have "\<not> bit (x XOR n) i" if "LENGTH('a) - b \<le> i" "i < LENGTH('a)" for i
    using that unfolding drop_bit_zero_iff by blast
  then have "bit x i = bit n i" if "LENGTH('a) - b \<le> i" "i < LENGTH('a)" for i
    using that by (auto simp: bit_xor_iff)
  then show "take b (msb_bits (LENGTH('a)) x) = take b (msb_bits (LENGTH('a)) n)"
    using assms by (auto simp: msb_bits_def take_map)
next
  assume e: "take b (msb_bits (LENGTH('a)) x) = take b (msb_bits (LENGTH('a)) n)"
  have "bit x i = bit n i" if i: "LENGTH('a) - b \<le> i" "i < LENGTH('a)" for i
  proof -
    have "take b (msb_bits (LENGTH('a)) x) ! (LENGTH('a) - 1 - i)
        = take b (msb_bits (LENGTH('a)) n) ! (LENGTH('a) - 1 - i)" using e by simp
    then show ?thesis using i assms by (simp add: msb_bits_def)
  qed
  then show "drop_bit (LENGTH('a) - b) (x XOR n) = 0"
    unfolding drop_bit_zero_iff by (simp add: bit_xor_iff)
qed

lemma Contains_iff_path:
  assumes "pfx_valid p"
  shows "Contains p a \<longleftrightarrow> BitLen a = BitLen (pfx_addr p) \<and> take (pfx_bits p) (addr_bits a) = pfx_path p"
  using assms msb_prefix_iff [where ?'a = 32, of "pfx_bits p"] msb_prefix_iff [where ?'a = 128, of "pfx_bits p"]
  by (cases a; cases "pfx_addr p") (auto simp: Contains_def pfx_valid_def pfx_path_def)

lemma bit_clear_low: "bit (clear_low k (a :: 'a::len word)) i \<longleftrightarrow> k \<le> i \<and> bit a i"
  by (auto simp: clear_low_def bit_push_bit_iff bit_drop_bit_eq dest: bit_imp_le_length)

lemma pfx_path_Masked:
  assumes "pfx_valid p"
  shows "pfx_path (Masked p) = pfx_path p"
  using assms
  by (cases "pfx_addr p") (auto simp: Masked_def pfx_path_def pfx_valid_def msb_bits_def take_map bit_clear_low)

lemma Masked_simps [simp]:
  "pfx_bits (Masked p) = pfx_bits p"
  "BitLen (pfx_addr (Masked p)) = BitLen (pfx_addr p)"
  "Is4 (pfx_addr (Masked p)) = Is4 (pfx_addr p)"
  by (cases "pfx_addr p"; simp add: Masked_def)+

lemma pfx_valid_Masked [simp]: "pfx_valid (Masked p) = pfx_valid p"
  by (cases "pfx_addr p") (simp_all add: Masked_def pfx_valid_def)


lemma masked_bits_eqI:
  fixes n m :: "'a::len word"
  assumes "drop_bit k (n XOR m) = 0" and "clear_low k n = n" and "clear_low k m = m"
  shows "n = m"
proof (rule bit_word_eqI)
  fix i
  have "bit n i \<longleftrightarrow> k \<le> i \<and> bit n i" "bit m i \<longleftrightarrow> k \<le> i \<and> bit m i"
    using bit_clear_low [of k n i] bit_clear_low [of k m i] assms(2,3) by simp_all
  moreover assume "i < LENGTH('a)"
  then have "k \<le> i \<Longrightarrow> \<not> bit (n XOR m) i" using assms(1) unfolding drop_bit_zero_iff by blast
  ultimately show "bit n i = bit m i" by (auto simp: bit_xor_iff)
qed

lemma Masked_fixed:
  "pfx_addr p = Addr4 n \<Longrightarrow> Masked p = p \<longleftrightarrow> clear_low (32 - pfx_bits p) n = n"
  "pfx_addr p = Addr6 m \<Longrightarrow> Masked p = p \<longleftrightarrow> clear_low (128 - pfx_bits p) m = m"
  by (cases p; simp add: Masked_def)+

lemma clear_low_idem [simp]: "clear_low k (clear_low k a) = clear_low k a"
  by (rule bit_word_eqI) (simp add: bit_clear_low)

lemma word_lens: "LENGTH(32) = 32" "LENGTH(128) = 128"
  by simp_all

lemma pfx_path_inj:
  assumes "pfx_valid p" "pfx_valid q" "Masked p = p" "Masked q = q"
    and "BitLen (pfx_addr p) = BitLen (pfx_addr q)" and "pfx_path p = pfx_path q"
  shows "p = q"
proof -
  have "length (pfx_path p) = length (pfx_path q)" using assms(6) by simp
  then have b: "pfx_bits p = pfx_bits q" using assms(1,2) by (simp add: pfx_path_def pfx_valid_def)
  have "pfx_addr p = pfx_addr q"
  proof (cases "pfx_addr p")
    case NoAddr
    then show ?thesis using assms(1) by (simp add: pfx_valid_def)
  next
    case (Addr4 n)
    then obtain m where m: "pfx_addr q = Addr4 m" using assms(5) by (cases "pfx_addr q") auto
    have "take (pfx_bits p) (msb_bits 32 n) = take (pfx_bits p) (msb_bits 32 m)" and "pfx_bits p \<le> 32"
      using assms(1,6) Addr4 m b by (simp_all add: pfx_path_def pfx_valid_def)
    then have "drop_bit (32 - pfx_bits p) (n XOR m) = 0"
      using msb_prefix_iff [of "pfx_bits p" n m] by (simp only: word_lens)
    moreover have "clear_low (32 - pfx_bits p) n = n" "clear_low (32 - pfx_bits p) m = m"
      using assms(3,4) Addr4 m b by (simp_all add: Masked_fixed)
    ultimately have "n = m" by (rule masked_bits_eqI)
    then show ?thesis using Addr4 m by simp
  next
    case (Addr6 n)
    then obtain m where m: "pfx_addr q = Addr6 m" using assms(5) by (cases "pfx_addr q") auto
    have "take (pfx_bits p) (msb_bits 128 n) = take (pfx_bits p) (msb_bits 128 m)" and "pfx_bits p \<le> 128"
      using assms(1,6) Addr6 m b by (simp_all add: pfx_path_def pfx_valid_def)
    then have "drop_bit (128 - pfx_bits p) (n XOR m) = 0"
      using msb_prefix_iff [of "pfx_bits p" n m] by (simp only: word_lens)
    moreover have "clear_low (128 - pfx_bits p) n = n" "clear_low (128 - pfx_bits p) m = m"
      using assms(3,4) Addr6 m b by (simp_all add: Masked_fixed)
    ultimately have "n = m" by (rule masked_bits_eqI)
    then show ?thesis using Addr6 m by simp
  qed
  then show ?thesis using b by (cases p; cases q) simp
qed

lemma Masked_Masked [simp]: "Masked (Masked p) = Masked p"
  by (cases "pfx_addr p") (simp_all add: Masked_def)

end
