(* ===== verification/Addr_Pool.thy ===== *)
theory Addr_Pool
  imports Netip
begin

text \<open>
  The address pools of \<^verbatim>\<open>dataplane/pool.go\<close> and \<^verbatim>\<open>dataplane/pool6.go\<close>, which lend inner
  addresses to connecting clients.  The locale \<open>address_pool\<close> is the contract a server relies on;
  both pools interpret it.  \<^verbatim>\<open>net.ParseCIDR\<close> and \<^verbatim>\<open>netip.ParsePrefix\<close> parse the
  configured text: the constructors here take the network they return, already masked.
\<close>

section \<open>The contract\<close>

text \<open>
  \<open>lend p\<close> is \<open>Some (a, p')\<close> for an address lent and \<open>None\<close> for an exhausted pool.
  Exhaustion is promised to be real only where \<open>exact\<close> holds of the pool.
\<close>

text \<open>
  A server's view: sessions take an address when they connect and give it back when they end.
  \<open>served lend ret p0 p l\<close>: from the fresh pool \<open>p0\<close> some sequence of connections and
  departures reached the pool \<open>p\<close>, with \<open>l\<close> telling which session holds which address.
\<close>

inductive served :: "('p \<Rightarrow> ('a \<times> 'p) option) \<Rightarrow> ('a \<Rightarrow> 'p \<Rightarrow> 'p) \<Rightarrow> 'p \<Rightarrow> 'p \<Rightarrow> ('s \<rightharpoonup> 'a) \<Rightarrow> bool"
  for lend :: "'p \<Rightarrow> ('a \<times> 'p) option" and ret :: "'a \<Rightarrow> 'p \<Rightarrow> 'p" and p0 :: "'p" where
  start: "served lend ret p0 p0 Map.empty"
| connect: "served lend ret p0 p l \<Longrightarrow> l s = None \<Longrightarrow> lend p = Some (a, p') \<Longrightarrow>
     served lend ret p0 p' (l(s \<mapsto> a))"
| leave: "served lend ret p0 p l \<Longrightarrow> l s = Some a \<Longrightarrow> served lend ret p0 (ret a p) (l(s := None))"

locale address_pool =
  fixes inv :: "'p \<Rightarrow> bool"
    and usable :: "'p \<Rightarrow> 'a set"
    and held :: "'p \<Rightarrow> 'a set"
    and lend :: "'p \<Rightarrow> ('a \<times> 'p) option"
    and give_back :: "'a \<Rightarrow> 'p \<Rightarrow> 'p"
    and exact :: "'p \<Rightarrow> bool"
  assumes lend_fresh: "inv p \<Longrightarrow> lend p = Some (a, p') \<Longrightarrow> a \<in> usable p - held p"
    and lend_held: "inv p \<Longrightarrow> lend p = Some (a, p') \<Longrightarrow> held p' = insert a (held p)"
    and lend_inv: "inv p \<Longrightarrow> lend p = Some (a, p') \<Longrightarrow> inv p' \<and> usable p' = usable p \<and> exact p' = exact p"
    and lend_none: "inv p \<Longrightarrow> exact p \<Longrightarrow> lend p = None \<Longrightarrow> usable p \<subseteq> held p"
    and back_held: "inv p \<Longrightarrow> a \<in> held p \<Longrightarrow> held (give_back a p) = held p - {a}"
    and back_inv: "inv p \<Longrightarrow> inv (give_back a p) \<and> usable (give_back a p) = usable p \<and> exact (give_back a p) = exact p"
    and held_usable: "inv p \<Longrightarrow> held p \<subseteq> usable p"
begin

lemma served_inv:
  assumes "served lend give_back p0 p l" and "inv p0" and "held p0 = {}"
  shows "inv p \<and> usable p = usable p0 \<and> ran l = held p \<and> inj_on l (dom l)"
  using assms
proof (induction rule: served.induct)
  case start
  then show ?case by simp
next
  case (connect p l s a p')
  then have i: "inv p" "usable p = usable p0" "ran l = held p" "inj_on l (dom l)" by auto
  have "a \<notin> ran l" using lend_fresh [OF i(1) connect.hyps(3)] i(3) by simp
  then have "inj_on (l(s \<mapsto> a)) (dom (l(s \<mapsto> a)))" by (rule inj_on_map_upd [OF i(4)])
  moreover have "ran (l(s \<mapsto> a)) = insert a (ran l)" using connect.hyps(2) by (rule ran_map_upd)
  ultimately show ?case
    using lend_inv [OF i(1) connect.hyps(3)] lend_held [OF i(1) connect.hyps(3)] i by (metis (no_types))
next
  case (leave p l s a)
  then have i: "inv p" "usable p = usable p0" "ran l = held p" "inj_on l (dom l)" by auto
  have "ran (l(s := None)) = ran l - {a}"
    using i(4) leave.hyps(2) by (force simp: ran_def inj_on_def dom_def)
  moreover have "inj_on (l(s := None)) (dom (l(s := None)))"
    using i(4) by (auto simp: inj_on_def dom_def)
  moreover have "a \<in> held p" using i(3) leave.hyps(2) by (auto simp: ran_def)
  ultimately show ?case
    using back_held [OF i(1), of a] back_inv [OF i(1)] i by (metis (no_types))
qed

lemma no_shared_address:
  assumes "served lend give_back p0 p l" and "inv p0" and "held p0 = {}" and "l s = Some a"
  shows "a \<in> usable p0 \<and> (l t = Some a \<longrightarrow> s = t)"
proof -
  have "inv p" "usable p = usable p0" "ran l = held p" "inj_on l (dom l)"
    using served_inv [OF assms(1-3)] by auto
  then show ?thesis
    using assms(4) held_usable [of p] by (auto simp: inj_on_def dom_def ran_def)
qed

text \<open>An exact pool refuses a client only when every usable address is leased.\<close>

lemma exhausted_all_leased:
  assumes "served lend give_back p0 p l" and "inv p0" and "held p0 = {}" and "exact p" and "lend p = None"
  shows "ran l = usable p0"
proof -
  have "inv p" "usable p = usable p0" "ran l = held p"
    using served_inv [OF assms(1-3)] by auto
  then show ?thesis using lend_none [of p] held_usable [of p] assms(4,5) by auto
qed

end

section \<open>IPv4: dataplane/pool.go\<close>

text \<open>\<^verbatim>\<open>net.IP.To4\<close>: a four-octet address, or the tail of an IPv4-mapped one.\<close>

definition To4 :: "bytes \<Rightarrow> bytes option" where
  "To4 ip = (if length ip = 4 then Some ip
     else if length ip = 16 \<and> take 12 ip = replicate 10 0 @ [255, 255] then Some (drop 12 ip)
     else None)"

datatype pool_error = OnlyIPv4 | PoolTooSmall | Exhausted | NotIPv6 | BadCIDR

text \<open>The \<^verbatim>\<open>*net.IPNet\<close> of \<^verbatim>\<open>ParseCIDR\<close>: the masked address and the mask's size.\<close>

record IPNet =
  net_ip :: bytes
  net_ones :: nat
  net_bits :: nat

record AddrPool =
  network :: IPNet
  gateway :: u32
  base :: u32
  last_host :: u32
  used :: "u32 set"

definition u32IP :: "u32 \<Rightarrow> bytes" where
  "u32IP v = be32 v"

definition NewAddrPool :: "IPNet option \<Rightarrow> pool_error + (AddrPool \<times> bytes)" where
  "NewAddrPool parsed =
     (case parsed of
        None \<Rightarrow> Err BadCIDR
      | Some ipnet \<Rightarrow>
          (case To4 (net_ip ipnet) of
             None \<Rightarrow> Err OnlyIPv4
           | Some v4 \<Rightarrow>
               let netStart = get32 0 v4;
                   size = push_bit (net_bits ipnet - net_ones ipnet) (1 :: u32)
               in if size < 4 then Err PoolTooSmall
                  else Ok (\<lparr>network = ipnet, gateway = netStart + 1, base = netStart + 2,
                            last_host = netStart + size - 2, used = {}\<rparr>, u32IP (netStart + 1))))"

text \<open>\<open>Allocate\<close> scans a 32-bit candidate from \<open>base\<close> to \<open>last\<close>; \<open>None\<close> is a scan that never ends.\<close>

partial_function (option) scan_free :: "u32 \<Rightarrow> u32 \<Rightarrow> u32 set \<Rightarrow> u32 option option" where
  "scan_free cand lst us =
     (if cand \<le> lst then (if cand \<notin> us then Some (Some cand) else scan_free (cand + 1) lst us)
      else Some None)"

definition Allocate :: "AddrPool \<Rightarrow> (pool_error + (bytes \<times> AddrPool)) option" where
  "Allocate p =
     map_option (\<lambda>r. case r of
        Some cand \<Rightarrow> Ok (u32IP cand, p\<lparr>used := insert cand (used p)\<rparr>)
      | None \<Rightarrow> Err Exhausted) (scan_free (base p) (last_host p) (used p))"

definition Release :: "bytes \<Rightarrow> AddrPool \<Rightarrow> AddrPool" where
  "Release ip p =
     (case To4 ip of None \<Rightarrow> p | Some v4 \<Rightarrow> p\<lparr>used := used p - {get32 0 v4}\<rparr>)"

subsection \<open>The scan\<close>

lemma scan_free_lowest:
  assumes "lst < - 1" and "unat cand \<le> unat lst + 1"
  shows "(\<exists>c. scan_free cand lst us = Some (Some c) \<and> cand \<le> c \<and> c \<le> lst \<and> c \<notin> us
      \<and> (\<forall>d. cand \<le> d \<and> d < c \<longrightarrow> d \<in> us))
    \<or> (scan_free cand lst us = Some None \<and> (\<forall>d. cand \<le> d \<and> d \<le> lst \<longrightarrow> d \<in> us))"
  using assms
proof (induction "unat lst + 1 - unat cand" arbitrary: cand)
  case 0
  then have "\<not> cand \<le> lst" by (simp add: word_le_nat_alt)
  moreover from this have "\<forall>d. \<not> (cand \<le> d \<and> d \<le> lst)" by (meson order_trans)
  ultimately show ?case by (auto simp: scan_free.simps)
next
  case (Suc m)
  then have le: "cand \<le> lst" by (simp add: word_le_nat_alt)
  show ?case
  proof (cases "cand \<in> us")
    case False
    then show ?thesis using le by (auto simp: scan_free.simps)
  next
    case True
    have lt: "cand < - 1" using le Suc.prems(1) by (rule le_less_trans)
    have split: "cand \<le> d \<longleftrightarrow> d = cand \<or> cand + 1 \<le> d" for d
      using word_inc_le_iff [OF lt] by (auto simp: order_le_less)
    have "m = unat lst + 1 - unat (cand + 1)" "unat (cand + 1) \<le> unat lst + 1"
      using Suc.hyps(2) le unat_inc [OF lt] by (simp_all add: word_le_nat_alt)
    from Suc.hyps(1) [OF this(1) Suc.prems(1) this(2)] show ?thesis
      using True le by (subst (1 2) scan_free.simps) (auto simp: split)
  qed
qed

subsection \<open>The pool meets the contract\<close>

text \<open>
  What \<^verbatim>\<open>ParseCIDR\<close> promises of a network: its address is masked, and an IPv4-mapped one keeps
  at most 32 host bits.
\<close>

definition masked_net :: "IPNet \<Rightarrow> bool" where
  "masked_net n = (case To4 (net_ip n) of
     None \<Rightarrow> True
   | Some v4 \<Rightarrow> net_bits n - net_ones n \<le> 32 \<and> be_val v4 mod 2 ^ (net_bits n - net_ones n) = 0)"

definition pool_inv :: "AddrPool \<Rightarrow> bool" where
  "pool_inv p \<longleftrightarrow> last_host p < - 1 \<and> unat (base p) \<le> unat (last_host p) + 1
     \<and> used p \<subseteq> {base p..last_host p}"

definition pool_usable :: "AddrPool \<Rightarrow> bytes set" where
  "pool_usable p = u32IP ` {base p..last_host p}"

definition pool_held :: "AddrPool \<Rightarrow> bytes set" where
  "pool_held p = u32IP ` used p"

definition pool_lend :: "AddrPool \<Rightarrow> (bytes \<times> AddrPool) option" where
  "pool_lend p = (case Allocate p of Some (Inr r) \<Rightarrow> Some r | _ \<Rightarrow> None)"

lemma To4_u32IP [simp]: "To4 (u32IP v) = Some (u32IP v)"
  by (simp add: To4_def u32IP_def)

lemma get32_u32IP [simp]: "get32 0 (u32IP v) = v"
  by (simp add: u32IP_def)

lemma inj_u32IP: "inj u32IP"
  by (metis get32_u32IP injI)

lemma Allocate_cases:
  assumes "pool_inv p"
  obtains (free) c where "Allocate p = Some (Ok (u32IP c, p\<lparr>used := insert c (used p)\<rparr>))"
      "base p \<le> c" "c \<le> last_host p" "c \<notin> used p" "\<forall>d. base p \<le> d \<and> d < c \<longrightarrow> d \<in> used p"
    | (full) "Allocate p = Some (Err Exhausted)" "used p = {base p..last_host p}"
  using scan_free_lowest [of "last_host p" "base p" "used p"] assms
  by (fastforce simp: pool_inv_def Allocate_def)

interpretation v4: address_pool pool_inv pool_usable pool_held pool_lend Release "\<lambda>_. True"
proof
  fix p a p'
  assume inv: "pool_inv p" and lend: "pool_lend p = Some (a, p')"
  from inv lend obtain c where c: "a = u32IP c" "p' = p\<lparr>used := insert c (used p)\<rparr>"
      "base p \<le> c" "c \<le> last_host p" "c \<notin> used p"
    by (cases rule: Allocate_cases) (auto simp: pool_lend_def)
  then show "a \<in> pool_usable p - pool_held p"
    using inj_u32IP by (auto simp: pool_usable_def pool_held_def dest: injD)
  show "pool_held p' = insert a (pool_held p)" using c by (simp add: pool_held_def)
  show "pool_inv p' \<and> pool_usable p' = pool_usable p \<and> True = True"
    using c inv by (simp add: pool_inv_def pool_usable_def)
next
  fix p a
  assume "pool_inv p" and "a \<in> pool_held p"
  then show "pool_held (Release a p) = pool_held p - {a}"
    using inj_u32IP by (auto simp: pool_held_def Release_def dest: injD)
next
  fix p a
  assume "pool_inv p"
  then show "pool_inv (Release a p) \<and> pool_usable (Release a p) = pool_usable p \<and> True = True"
    by (auto simp: Release_def pool_inv_def pool_usable_def split: option.split)
next
  fix p
  assume "pool_inv p" and "pool_lend p = None"
  then show "pool_usable p \<subseteq> pool_held p"
    by (cases rule: Allocate_cases) (auto simp: pool_lend_def pool_usable_def pool_held_def)
next
  fix p
  assume "pool_inv p"
  then show "pool_held p \<subseteq> pool_usable p"
    by (auto simp: pool_inv_def pool_usable_def pool_held_def)
qed


subsection \<open>The constructed pool\<close>

lemma word32_len: "LENGTH(32) = 32"
  by simp

lemma pool_size_pow:
  assumes "k \<le> 32" and "\<not> push_bit k (1 :: u32) < 4"
  shows "2 \<le> k \<and> k < 32 \<and> push_bit k (1 :: u32) = of_nat (2 ^ k)"
proof -
  have "k \<noteq> 0" using assms(2) by (intro notI) simp
  moreover have "k \<noteq> 1" using assms(2) by (intro notI) simp
  moreover have "k \<noteq> 32" using assms(2) by (intro notI) (simp add: push_bit_eq_mult)
  ultimately show ?thesis using assms(1) by (simp add: push_bit_eq_mult)
qed

lemma aligned_room:
  fixes s :: nat
  assumes "k < w" and "s mod 2 ^ k = 0" and "s < 2 ^ w"
  shows "s + 2 ^ k \<le> 2 ^ w"
proof -
  obtain q where q: "s = 2 ^ k * q" using assms(2) by (metis mod_0_imp_dvd dvdE)
  have e: "(2 :: nat) ^ w = 2 ^ k * 2 ^ (w - k)" using assms(1) by (simp flip: power_add)
  then have "q < 2 ^ (w - k)" using assms(3) q by simp
  then have "2 ^ k * (q + 1) \<le> (2 :: nat) ^ k * 2 ^ (w - k)" by (intro mult_le_mono2) simp
  then show ?thesis using q e by (simp add: algebra_simps)
qed

lemma To4_length: "To4 ip = Some v4 \<Longrightarrow> length v4 = 4"
  by (auto simp: To4_def split: if_splits)

lemma NewAddrPool_fields:
  assumes new: "NewAddrPool (Some n) = Ok (p, gw)" and m: "masked_net n"
  obtains v4 k where "To4 (net_ip n) = Some v4" "k = net_bits n - net_ones n" "2 \<le> k"
    "unat (base p) = be_val v4 + 2" "unat (last_host p) = be_val v4 + 2 ^ k - 2"
    "be_val v4 + 2 ^ k \<le> 2 ^ 32" "gw = u32IP (of_nat (be_val v4 + 1))" "used p = {}"
proof -
  define k where "k = net_bits n - net_ones n"
  from new obtain v4 where v4: "To4 (net_ip n) = Some v4"
    by (auto simp: NewAddrPool_def split: option.splits)
  have l: "be_val v4 < 2 ^ 32" using be_val_bound [of v4] To4_length [OF v4] by simp
  from new v4 have sz: "\<not> push_bit k (1 :: u32) < 4"
    and p: "base p = get32 0 v4 + 2" "last_host p = get32 0 v4 + push_bit k 1 - 2"
      "gw = u32IP (get32 0 v4 + 1)" "used p = {}"
    by (auto simp: NewAddrPool_def Let_def k_def split: if_splits)
  from m v4 have "k \<le> 32" and al: "be_val v4 mod 2 ^ k = 0" by (simp_all add: masked_net_def k_def)
  with sz have k: "2 \<le> k" "k < 32" and pk: "push_bit k (1 :: u32) = of_nat (2 ^ k)"
    using pool_size_pow by blast+
  have room: "be_val v4 + 2 ^ k \<le> 2 ^ 32" using aligned_room [OF k(2) al l] .
  have four: "(2 :: nat) ^ 2 \<le> 2 ^ k" using k(1) by (rule power_increasing) simp
  have g: "get32 0 v4 = of_nat (be_val v4)"
    using To4_length [OF v4] by (simp add: get32_def slice_def)
  have "base p = of_nat (be_val v4 + 2)" using p(1) g by simp
  moreover have "be_val v4 + 2 < 2 ^ 32" using room four by simp
  ultimately have b: "unat (base p) = be_val v4 + 2" by (simp only: unat_of_nat_small word32_len)
  have "last_host p = of_nat (be_val v4 + 2 ^ k - 2)"
    using p(2) g pk four by (simp add: of_nat_diff)
  moreover have "be_val v4 + 2 ^ k - 2 < 2 ^ 32" using room by simp
  ultimately have t: "unat (last_host p) = be_val v4 + 2 ^ k - 2"
    by (simp only: unat_of_nat_small word32_len)
  show thesis by (rule that [OF v4 k_def k(1) b t room _ p(4)]) (simp add: p(3) g add.commute)
qed

lemma NewAddrPool_inv:
  assumes "NewAddrPool (Some n) = Ok (p, gw)" and "masked_net n"
  shows "pool_inv p \<and> pool_held p = {}"
proof -
  obtain v4 k where f: "2 \<le> k" "unat (base p) = be_val v4 + 2"
    "unat (last_host p) = be_val v4 + 2 ^ k - 2" "be_val v4 + 2 ^ k \<le> 2 ^ 32" "used p = {}"
    using NewAddrPool_fields [OF assms] by metis
  have "(2 :: nat) ^ 2 \<le> 2 ^ k" using f(1) by (rule power_increasing) simp
  then have "4 \<le> (2 :: nat) ^ k" "be_val v4 + 2 ^ k \<le> 4294967296" using f(4) by simp_all
  then have "be_val v4 + 2 ^ k - 2 < 4294967295" "Suc (be_val v4) \<le> be_val v4 + 2 ^ k - 2"
    by linarith+
  then show ?thesis using f
    by (simp add: pool_inv_def pool_held_def word_less_nat_alt unsigned_minus_1_eq_mask mask_eq_exp_minus_1)
qed

lemma pool_usable_range:
  "a \<in> pool_usable p \<longleftrightarrow> length a = 4 \<and> unat (base p) \<le> be_val a \<and> be_val a \<le> unat (last_host p)"
proof -
  have "u32IP (of_nat (be_val a)) = a \<and> unat (of_nat (be_val a) :: u32) = be_val a" if "length a = 4"
    using be_bytes_be_val [of a] be_val_bound [of a] that by (simp add: u32IP_def be32_def unat_of_nat_small)
  then show ?thesis
    by (auto simp: pool_usable_def word_le_nat_alt u32IP_def image_iff) (metis word_le_nat_alt atLeastAtMost_iff)
qed

text \<open>
  C4: The IPv4 pool of a parsed network: whatever sessions came and went, an address that is
  leased is a host of the network other than its network, gateway and broadcast address, no two
  sessions hold the same one, the search always returns, and it reports exhaustion exactly when
  every such host is leased.
\<close>

theorem AddrPool_leases:
  assumes "NewAddrPool (Some n) = Ok (p0, gw)" and "masked_net n" and "To4 (net_ip n) = Some v4"
    and "served pool_lend Release p0 p l"
  shows "(\<forall>s a. l s = Some a \<longrightarrow> length a = 4 \<and> be_val v4 + 2 \<le> be_val a
           \<and> be_val a \<le> be_val v4 + 2 ^ (net_bits n - net_ones n) - 2
           \<and> a \<noteq> gw \<and> (\<forall>t. l t = Some a \<longrightarrow> s = t))
    \<and> Allocate p \<noteq> None
    \<and> (Allocate p = Some (Err Exhausted) \<longleftrightarrow> ran l = {a. length a = 4 \<and> be_val v4 + 2 \<le> be_val a
           \<and> be_val a \<le> be_val v4 + 2 ^ (net_bits n - net_ones n) - 2})"
proof -
  have i0: "pool_inv p0" "pool_held p0 = {}" using NewAddrPool_inv [OF assms(1,2)] by auto
  obtain v4' k where f: "To4 (net_ip n) = Some v4'" "k = net_bits n - net_ones n"
    "unat (base p0) = be_val v4' + 2" "unat (last_host p0) = be_val v4' + 2 ^ k - 2"
    "gw = u32IP (of_nat (be_val v4' + 1))" "be_val v4' + 2 ^ k \<le> 2 ^ 32" "2 \<le> k"
    using NewAddrPool_fields [OF assms(1,2)] by metis
  have "(2 :: nat) ^ 2 \<le> 2 ^ k" using f(7) by (rule power_increasing) simp
  then have "be_val v4' + 1 < 2 ^ 32" using f(6) by simp
  then have gw: "be_val gw = be_val v4 + 1"
    using f(1,5) assms(3) by (simp only: u32IP_def be_val_be32 unat_of_nat_small word32_len option.inject)
  have u: "pool_usable p0 = {a. length a = 4 \<and> be_val v4 + 2 \<le> be_val a
      \<and> be_val a \<le> be_val v4 + 2 ^ (net_bits n - net_ones n) - 2}"
    using f(1-4) assms(3) by (auto simp: pool_usable_range)
  have i: "pool_inv p" "pool_usable p = pool_usable p0" "ran l = pool_held p"
    using v4.served_inv [OF assms(4) i0] by auto
  have "Allocate p = Some (Err Exhausted) \<longleftrightarrow> pool_lend p = None" and nn: "Allocate p \<noteq> None"
    using i(1) by (cases rule: Allocate_cases; simp add: pool_lend_def)+
  moreover have "pool_lend p = None \<longleftrightarrow> ran l = pool_usable p0"
    using v4.lend_none [OF i(1)] v4.held_usable [OF i(1)] v4.lend_fresh [OF i(1)] i(2,3)
    by (cases "pool_lend p") auto
  moreover have "a \<in> pool_usable p0 \<and> (\<forall>t. l t = Some a \<longrightarrow> s = t)" if "l s = Some a" for s a
    using v4.no_shared_address [OF assms(4) i0 that] by blast
  ultimately show ?thesis unfolding u using nn gw by fastforce
qed


definition example_net :: IPNet where
  "example_net = \<lparr>net_ip = [10, 10, 10, 0], net_ones = 29, net_bits = 32\<rparr>"

definition example_pool :: AddrPool where
  "example_pool = \<lparr>network = example_net, gateway = 0x0a0a0a01, base = 0x0a0a0a02, last_host = 0x0a0a0a06, used = {}\<rparr>"

lemma example_pool_new: "NewAddrPool (Some example_net) = Ok (example_pool, [10, 10, 10, 1])"
  by (simp add: NewAddrPool_def example_net_def example_pool_def To4_def u32IP_def eval_simps)

lemma example_address: "u32IP 0x0a0a0a02 = [10, 10, 10, 2]"
  by (simp add: u32IP_def eval_simps)

lemma example_pool_lease:
  "served pool_lend Release example_pool (example_pool\<lparr>used := {0x0a0a0a02}\<rparr>) [0 :: nat \<mapsto> [10, 10, 10, 2]]"
proof -
  have lend: "pool_lend example_pool = Some ([10, 10, 10, 2], example_pool\<lparr>used := {0x0a0a0a02}\<rparr>)"
    using example_address by (simp add: pool_lend_def Allocate_def example_pool_def scan_free.simps)
  show ?thesis
    by (rule served.connect [where p = example_pool and l = Map.empty]) (simp_all add: served.start lend)
qed

theorem AddrPool_leases_witness:
  "Allocate (example_pool\<lparr>used := {0x0a0a0a02}\<rparr>) \<noteq> None \<and> [10, 10, 10, 2] \<noteq> ([10, 10, 10, 1] :: bytes)"
proof -
  have "masked_net example_net" "To4 (net_ip example_net) = Some [10, 10, 10, 0]"
    by (simp_all add: masked_net_def To4_def example_net_def eval_simps)
  from AddrPool_leases [OF example_pool_new this example_pool_lease] show ?thesis by auto
qed


section \<open>IPv6: dataplane/pool6.go\<close>

record AddrPool6 =
  prefix6 :: Prefix
  gateway6 :: Addr
  next6 :: Addr
  used6 :: "Addr set"

definition NewAddrPool6 :: "Prefix option \<Rightarrow> pool_error + (AddrPool6 \<times> Addr)" where
  "NewAddrPool6 parsed =
     (case parsed of
        None \<Rightarrow> Err BadCIDR
      | Some p0 \<Rightarrow>
          let prefix = Masked p0 in
          if \<not> Is6 (pfx_addr prefix) \<or> Is4In6 (pfx_addr prefix) then Err NotIPv6
          else if pfx_bits prefix > 126 then Err PoolTooSmall
          else let gateway = NextAddr (pfx_addr prefix); base = NextAddr gateway
               in Ok (\<lparr>prefix6 = prefix, gateway6 = gateway, next6 = base, used6 = {}\<rparr>, gateway))"

partial_function (option) scan_free6 :: "Prefix \<Rightarrow> Addr set \<Rightarrow> Addr \<Rightarrow> Addr option option" where
  "scan_free6 pfx us cand =
     (if Contains pfx cand then (if cand \<notin> us then Some (Some cand) else scan_free6 pfx us (NextAddr cand))
      else Some None)"

definition Allocate6 :: "AddrPool6 \<Rightarrow> (pool_error + (Addr \<times> AddrPool6)) option" where
  "Allocate6 p =
     map_option (\<lambda>r. case r of
        Some cand \<Rightarrow> Ok (cand, p\<lparr>used6 := insert cand (used6 p), next6 := NextAddr cand\<rparr>)
      | None \<Rightarrow> Err Exhausted) (scan_free6 (prefix6 p) (used6 p) (next6 p))"

definition Release6 :: "Addr \<Rightarrow> AddrPool6 \<Rightarrow> AddrPool6" where
  "Release6 ip p =
     (if \<not> IsValid ip then p
      else if ip \<notin> used6 p then p
      else let q = p\<lparr>used6 := used6 p - {ip}\<rparr>
           in if Less ip (next6 q) then q\<lparr>next6 := ip\<rparr> else q)"

subsection \<open>The hosts of a prefix\<close>

lemma Contains_range:
  assumes "unat n mod 2 ^ k = 0" and "k \<le> 128"
  shows "Contains \<lparr>pfx_addr = Addr6 n, pfx_bits = 128 - k\<rparr> (Addr6 a)
    \<longleftrightarrow> unat n \<le> unat a \<and> unat a < unat n + 2 ^ k"
proof -
  have "drop_bit k (a XOR n) = 0 \<longleftrightarrow> drop_bit k a = drop_bit k n"
    by (simp add: bit_eq_iff bit_xor_iff bit_drop_bit_eq)
  also have "\<dots> \<longleftrightarrow> unat a div 2 ^ k = unat n div 2 ^ k"
    by (simp only: word_unat_eq_iff unat_drop_bit_div)
  also have "\<dots> \<longleftrightarrow> unat n \<le> unat a \<and> unat a < unat n + 2 ^ k"
  proof -
    obtain q where "unat n = 2 ^ k * q" using assms(1) by (metis mod_0_imp_dvd dvdE)
    moreover have "unat a div 2 ^ k = q \<longleftrightarrow> 2 ^ k * q \<le> unat a \<and> unat a < 2 ^ k * q + 2 ^ k"
      by (metis (no_types) add.commute div_nat_eqI dividend_less_times_div less_mult_imp_div_less
          mult.commute mult_Suc_right times_div_less_eq_dividend zero_less_numeral zero_less_power)
    ultimately show ?thesis by simp
  qed
  finally show ?thesis using assms(2) by (simp add: Contains_def)
qed

definition hosts6 :: "Prefix \<Rightarrow> Addr set" where
  "hosts6 pfx = (case pfx_addr pfx of
     Addr6 n \<Rightarrow> {Addr6 a | a. unat n + 2 \<le> unat a \<and> unat a < unat n + 2 ^ (128 - pfx_bits pfx)}
   | _ \<Rightarrow> {})"

text \<open>The last address of the family lies in the prefix: \<open>next\<close> can then run off the end.\<close>

definition reaches_end :: "Prefix \<Rightarrow> bool" where
  "reaches_end pfx = Contains pfx (Addr6 (- 1))"

text \<open>The mark \<open>next\<close> never passes a free host, unless it ran off the end of the address space.\<close>

definition low_water :: "u128 \<Rightarrow> nat \<Rightarrow> AddrPool6 \<Rightarrow> bool" where
  "low_water n k p = (case next6 p of
     NoAddr \<Rightarrow> reaches_end (prefix6 p)
   | Addr4 _ \<Rightarrow> False
   | Addr6 m \<Rightarrow> unat n + 2 \<le> unat m \<and> unat m \<le> unat n + 2 ^ k
       \<and> (\<forall>a. unat n + 2 \<le> unat a \<and> unat a < unat m \<longrightarrow> Addr6 a \<in> used6 p))"

definition pool6_inv :: "AddrPool6 \<Rightarrow> bool" where
  "pool6_inv p \<longleftrightarrow> (\<exists>n k. prefix6 p = \<lparr>pfx_addr = Addr6 n, pfx_bits = 128 - k\<rparr> \<and> 2 \<le> k \<and> k \<le> 128
     \<and> unat n mod 2 ^ k = 0 \<and> used6 p \<subseteq> hosts6 (prefix6 p) \<and> low_water n k p)"

lemma pool6_invE:
  assumes "pool6_inv p"
  obtains n k where "prefix6 p = \<lparr>pfx_addr = Addr6 n, pfx_bits = 128 - k\<rparr>" "2 \<le> k" "k \<le> 128"
    "unat n mod 2 ^ k = 0" "used6 p \<subseteq> hosts6 (prefix6 p)" "low_water n k p"
  using assms that unfolding pool6_inv_def by metis

definition pool6_lend :: "AddrPool6 \<Rightarrow> (Addr \<times> AddrPool6) option" where
  "pool6_lend p = (case Allocate6 p of Some (Inr r) \<Rightarrow> Some r | _ \<Rightarrow> None)"

lemma unat_Next6: "m + 1 \<noteq> (0 :: u128) \<Longrightarrow> unat (m + 1) = unat m + 1"
  by (simp add: unatSuc add.commute)

lemma unat_wrap6: "m + 1 = (0 :: u128) \<Longrightarrow> unat m = 2 ^ 128 - 1"
  using add_eq_0_iff2 [of m 1] by (simp add: unsigned_minus_1_eq_mask mask_eq_exp_minus_1)

lemma scan_free6_lowest:
  assumes pfx: "pfx = \<lparr>pfx_addr = Addr6 n, pfx_bits = 128 - k\<rparr>" and al: "unat n mod 2 ^ k = 0" "k \<le> 128"
    and "unat n \<le> unat m"
  shows "(\<exists>c. scan_free6 pfx us (Addr6 m) = Some (Some (Addr6 c)) \<and> m \<le> c \<and> unat c < unat n + 2 ^ k
        \<and> Addr6 c \<notin> us \<and> (\<forall>d. m \<le> d \<and> d < c \<longrightarrow> Addr6 d \<in> us))
    \<or> (scan_free6 pfx us (Addr6 m) = Some None \<and> (\<forall>d. m \<le> d \<and> unat d < unat n + 2 ^ k \<longrightarrow> Addr6 d \<in> us))"
  using assms(4)
proof (induction "2 ^ 128 - unat m" arbitrary: m rule: less_induct)
  case less
  note C = Contains_range [OF al, of m, folded pfx]
  show ?case
  proof (cases "Contains pfx (Addr6 m)")
    case False
    then show ?thesis
      using C less.prems by (auto simp: scan_free6.simps word_le_nat_alt)
  next
    case c: True
    show ?thesis
    proof (cases "Addr6 m \<in> us")
      case False
      then show ?thesis using c C by (auto simp: scan_free6.simps)
    next
      case u: True
      then have s: "scan_free6 pfx us (Addr6 m) = scan_free6 pfx us (NextAddr (Addr6 m))"
        using c by (simp add: scan_free6.simps)
      show ?thesis
      proof (cases "m + 1 = 0")
        case True
        then have "scan_free6 pfx us (Addr6 m) = Some None" by (simp add: s scan_free6.simps [of pfx us NoAddr])
        moreover have "m = - 1" using True by (simp add: add_eq_0_iff2)
        ultimately show ?thesis using u by (auto simp: word_order.extremum_unique)
      next
        case False
        then have lt: "m < - 1" by (simp add: add_eq_0_iff2 word_order.not_eq_extremum)
        have split: "m \<le> d \<longleftrightarrow> d = m \<or> m + 1 \<le> d" for d
          using word_inc_le_iff [OF lt] by (auto simp: order_le_less)
        have "2 ^ 128 - unat (m + 1) < 2 ^ 128 - unat m" "unat n \<le> unat (m + 1)"
          using unat_Next6 [OF False] unsigned_less [of m, where ?'a = nat] less.prems by simp_all
        from less.hyps [OF this] show ?thesis using s False u by (auto simp: split)
      qed
    qed
  qed
qed


lemma reaches_end_iff:
  assumes "unat n mod 2 ^ k = 0" and "k \<le> 128"
  shows "reaches_end \<lparr>pfx_addr = Addr6 n, pfx_bits = 128 - k\<rparr> \<longleftrightarrow> 2 ^ 128 - 1 < unat n + 2 ^ k"
  using Contains_range [OF assms, of "- 1"] unsigned_less [of n, where ?'a = nat]
  by (auto simp: reaches_end_def unsigned_minus_1_eq_mask mask_eq_exp_minus_1)

lemma Allocate6_cases:
  assumes "pool6_inv p"
  obtains (free) n k c where "prefix6 p = \<lparr>pfx_addr = Addr6 n, pfx_bits = 128 - k\<rparr>" "2 \<le> k" "k \<le> 128"
      "unat n mod 2 ^ k = 0"
      "Allocate6 p = Some (Ok (Addr6 c, p\<lparr>used6 := insert (Addr6 c) (used6 p), next6 := NextAddr (Addr6 c)\<rparr>))"
      "unat n + 2 \<le> unat c" "unat c < unat n + 2 ^ k" "Addr6 c \<notin> used6 p"
      "\<forall>a. unat n + 2 \<le> unat a \<and> unat a < unat c \<longrightarrow> Addr6 a \<in> used6 p"
    | (full) "Allocate6 p = Some (Err Exhausted)" "\<not> reaches_end (prefix6 p) \<Longrightarrow> used6 p = hosts6 (prefix6 p)"
proof -
  from assms obtain n k where nk: "prefix6 p = \<lparr>pfx_addr = Addr6 n, pfx_bits = 128 - k\<rparr>" "2 \<le> k" "k \<le> 128"
    "unat n mod 2 ^ k = 0" and us: "used6 p \<subseteq> hosts6 (prefix6 p)" and lw: "low_water n k p"
    by (rule pool6_invE)
  show thesis
  proof (cases "next6 p")
    case NoAddr
    then have "Allocate6 p = Some (Err Exhausted)" "reaches_end (prefix6 p)"
      using lw by (auto simp: Allocate6_def scan_free6.simps low_water_def)
    then show thesis using full by blast
  next
    case (Addr4 x)
    then show thesis using lw by (simp add: low_water_def)
  next
    case (Addr6 m)
    then have m: "unat n + 2 \<le> unat m" "unat m \<le> unat n + 2 ^ k"
      and low: "\<forall>a. unat n + 2 \<le> unat a \<and> unat a < unat m \<longrightarrow> Addr6 a \<in> used6 p"
      using lw by (auto simp: low_water_def)
    from m(1) have "unat n \<le> unat m" by simp
    from scan_free6_lowest [OF nk(1,4,3) this, of "used6 p"] show thesis
    proof (elim disjE exE conjE)
      fix c
      assume c: "scan_free6 (prefix6 p) (used6 p) (Addr6 m) = Some (Some (Addr6 c))" "m \<le> c"
        "unat c < unat n + 2 ^ k" "Addr6 c \<notin> used6 p" "\<forall>d. m \<le> d \<and> d < c \<longrightarrow> Addr6 d \<in> used6 p"
      have "\<forall>a. unat n + 2 \<le> unat a \<and> unat a < unat c \<longrightarrow> Addr6 a \<in> used6 p"
        using low c(5) unfolding word_le_nat_alt word_less_nat_alt by (metis not_less)
      then show thesis
        using free [OF nk] c m(1) Addr6 by (simp add: Allocate6_def word_le_nat_alt)
    next
      assume f: "scan_free6 (prefix6 p) (used6 p) (Addr6 m) = Some None"
        "\<forall>d. m \<le> d \<and> unat d < unat n + 2 ^ k \<longrightarrow> Addr6 d \<in> used6 p"
      have "hosts6 (prefix6 p) \<subseteq> used6 p"
        using low f(2) nk unfolding hosts6_def word_le_nat_alt by (auto, metis not_less)
      then show thesis using full f(1) us Addr6 by (simp add: Allocate6_def)
    qed
  qed
qed

lemma pool6_lend_cases:
  assumes "pool6_inv p" and "pool6_lend p = Some (a, p')"
  obtains n k c where "prefix6 p = \<lparr>pfx_addr = Addr6 n, pfx_bits = 128 - k\<rparr>" "2 \<le> k" "k \<le> 128"
    "unat n mod 2 ^ k = 0" "a = Addr6 c"
    "p' = p\<lparr>used6 := insert (Addr6 c) (used6 p), next6 := NextAddr (Addr6 c)\<rparr>"
    "unat n + 2 \<le> unat c" "unat c < unat n + 2 ^ k" "Addr6 c \<notin> used6 p"
    "\<forall>a. unat n + 2 \<le> unat a \<and> unat a < unat c \<longrightarrow> Addr6 a \<in> used6 p"
  using assms(1)
proof (cases rule: Allocate6_cases)
  case (free n k c)
  then have "a = Addr6 c" "p' = p\<lparr>used6 := insert (Addr6 c) (used6 p), next6 := NextAddr (Addr6 c)\<rparr>"
    using assms(2) by (auto simp: pool6_lend_def simp del: NextAddr.simps)
  from that [OF free(1-4) this free(6-9)] show ?thesis .
next
  case full
  then show ?thesis using assms(2) by (simp add: pool6_lend_def)
qed

lemma pool6_lend_inv:
  assumes "pool6_inv p" and "pool6_lend p = Some (a, p')"
  shows "pool6_inv p'"
proof -
  obtain n k c where c: "prefix6 p = \<lparr>pfx_addr = Addr6 n, pfx_bits = 128 - k\<rparr>" "2 \<le> k" "k \<le> 128"
    "unat n mod 2 ^ k = 0" "p' = p\<lparr>used6 := insert (Addr6 c) (used6 p), next6 := NextAddr (Addr6 c)\<rparr>"
    "unat n + 2 \<le> unat c" "unat c < unat n + 2 ^ k"
    "\<forall>a. unat n + 2 \<le> unat a \<and> unat a < unat c \<longrightarrow> Addr6 a \<in> used6 p"
    using pool6_lend_cases [OF assms] by metis
  have us: "used6 p \<subseteq> hosts6 (prefix6 p)" using assms(1) by (auto simp: pool6_inv_def)
  have h: "Addr6 c \<in> hosts6 (prefix6 p)" using c by (simp add: hosts6_def)
  have below: "Addr6 a \<in> insert (Addr6 c) (used6 p)" if "unat n + 2 \<le> unat a" "unat a < unat c + 1" for a
    using that c(8) by (cases "unat a < unat c") (auto simp: not_less intro: word_unat_eq_iff [THEN iffD2])
  have "low_water n k p'"
  proof (cases "c + 1 = 0")
    case True
    then have "reaches_end (prefix6 p)"
      using reaches_end_iff [OF c(4,3)] c(1,7) unat_wrap6 by simp
    then show ?thesis using True c(5) by (simp add: low_water_def)
  next
    case False
    then show ?thesis using c(5-7) below by (simp add: low_water_def unat_Next6)
  qed
  then show ?thesis unfolding pool6_inv_def using c(1-5) us h by auto
qed


lemma hosts6_form: "a \<in> hosts6 pfx \<Longrightarrow> \<exists>x. a = Addr6 x"
  by (auto simp: hosts6_def split: Addr.splits)

lemma Release6_fields:
  assumes "a \<in> used6 p" and "used6 p \<subseteq> hosts6 (prefix6 p)"
  shows "used6 (Release6 a p) = used6 p - {a}" "prefix6 (Release6 a p) = prefix6 p"
    "next6 (Release6 a p) = (if Less a (next6 p) then a else next6 p)"
proof -
  obtain x where "a = Addr6 x" using assms hosts6_form by blast
  then show "used6 (Release6 a p) = used6 p - {a}" "prefix6 (Release6 a p) = prefix6 p"
    "next6 (Release6 a p) = (if Less a (next6 p) then a else next6 p)"
    using assms(1) by (simp_all add: Release6_def Let_def)
qed

lemma Release6_inv:
  assumes "pool6_inv p"
  shows "pool6_inv (Release6 a p)"
proof (cases "a \<in> used6 p")
  case False
  then show ?thesis using assms by (simp add: Release6_def)
next
  case True
  from assms obtain n k where nk: "prefix6 p = \<lparr>pfx_addr = Addr6 n, pfx_bits = 128 - k\<rparr>" "2 \<le> k" "k \<le> 128"
    "unat n mod 2 ^ k = 0" "used6 p \<subseteq> hosts6 (prefix6 p)" "low_water n k p" by (rule pool6_invE)
  note f = Release6_fields [OF True nk(5)]
  obtain x where x: "a = Addr6 x" "unat n + 2 \<le> unat x" "unat x < unat n + 2 ^ k"
    using True nk(1,3,5) by (auto simp: hosts6_def)
  have "low_water n k (Release6 a p)"
    using nk(6) unfolding low_water_def f using x by (auto simp: Less_def split: Addr.splits)
  then show ?thesis unfolding pool6_inv_def using nk(1-5) f(1,2) by auto
qed

interpretation v6: address_pool pool6_inv "\<lambda>p. hosts6 (prefix6 p)" used6 pool6_lend Release6
  "\<lambda>p. \<not> reaches_end (prefix6 p)"
proof
  fix p a p'
  assume a: "pool6_inv p" "pool6_lend p = Some (a, p')"
  from a obtain n k c where c: "prefix6 p = \<lparr>pfx_addr = Addr6 n, pfx_bits = 128 - k\<rparr>" "k \<le> 128"
    "a = Addr6 c" "p' = p\<lparr>used6 := insert (Addr6 c) (used6 p), next6 := NextAddr (Addr6 c)\<rparr>"
    "unat n + 2 \<le> unat c" "unat c < unat n + 2 ^ k" "Addr6 c \<notin> used6 p"
    by (rule pool6_lend_cases)
  then show "a \<in> hosts6 (prefix6 p) - used6 p" by (simp add: hosts6_def)
  show "used6 p' = insert a (used6 p)" using c(3,4) by simp
  show "pool6_inv p' \<and> hosts6 (prefix6 p') = hosts6 (prefix6 p)
      \<and> (\<not> reaches_end (prefix6 p')) = (\<not> reaches_end (prefix6 p))"
    using pool6_lend_inv [OF a] c(4) by simp
next
  fix p a
  assume "pool6_inv p" and "a \<in> used6 p"
  then show "used6 (Release6 a p) = used6 p - {a}"
    using Release6_fields by (auto elim: pool6_invE)
next
  fix p a
  assume i: "pool6_inv p"
  moreover have "prefix6 (Release6 a p) = prefix6 p" by (simp add: Release6_def Let_def)
  ultimately show "pool6_inv (Release6 a p) \<and> hosts6 (prefix6 (Release6 a p)) = hosts6 (prefix6 p)
      \<and> (\<not> reaches_end (prefix6 (Release6 a p))) = (\<not> reaches_end (prefix6 p))"
    using Release6_inv by simp
next
  fix p
  assume "pool6_inv p" and "\<not> reaches_end (prefix6 p)" and "pool6_lend p = None"
  then show "hosts6 (prefix6 p) \<subseteq> used6 p"
    by (cases rule: Allocate6_cases) (auto simp: pool6_lend_def)
next
  fix p
  assume "pool6_inv p"
  then show "used6 p \<subseteq> hosts6 (prefix6 p)" by (auto elim: pool6_invE)
qed

lemma mod_clear_low: "unat (clear_low k (a :: 'a::len word)) mod 2 ^ k = 0"
proof -
  have "take_bit k (clear_low k a) = 0" by (simp add: clear_low_def bit_eq_iff bit_take_bit_iff bit_push_bit_iff)
  then have "take_bit k (unat (clear_low k a)) = 0" by (metis unsigned_0 unsigned_take_bit_eq)
  then show ?thesis by (simp add: take_bit_eq_mod)
qed

lemma NewAddrPool6_fields:
  assumes "NewAddrPool6 (Some pfx) = Ok (p, gw)"
  obtains n k where "prefix6 p = \<lparr>pfx_addr = Addr6 n, pfx_bits = 128 - k\<rparr>" "prefix6 p = Masked pfx"
    "2 \<le> k" "k \<le> 128" "unat n mod 2 ^ k = 0" "unat n + 2 ^ k \<le> 2 ^ 128" "gw = Addr6 (n + 1)" "next6 p = Addr6 (n + 2)"
    "used6 p = {}" "unat (n + 1) = unat n + 1" "unat (n + 2) = unat n + 2"
proof -
  define k where "k = 128 - pfx_bits pfx"
  from assms have six: "Is6 (pfx_addr (Masked pfx))" and b: "pfx_bits pfx \<le> 126"
    by (auto simp: NewAddrPool6_def Let_def split: if_splits)
  then obtain a where a: "pfx_addr pfx = Addr6 a"
    by (cases "pfx_addr pfx") (auto simp: Masked_def)
  define n where "n = clear_low k a"
  have m: "Masked pfx = \<lparr>pfx_addr = Addr6 n, pfx_bits = 128 - k\<rparr>"
    using a b by (cases pfx) (simp add: Masked_def k_def n_def)
  have k: "2 \<le> k" "k \<le> 128" using b by (simp_all add: k_def)
  have al: "unat n mod 2 ^ k = 0" by (simp add: n_def mod_clear_low)
  have room: "unat n + 2 ^ k \<le> 2 ^ 128"
  proof (cases "k = 128")
    case True
    then show ?thesis using al unsigned_less [of n, where ?'a = nat] by simp
  next
    case False
    then show ?thesis using aligned_room [of k 128 "unat n"] al k(2) unsigned_less [of n, where ?'a = nat] by simp
  qed
  have four: "(2 :: nat) ^ 2 \<le> 2 ^ k" using k(1) by (rule power_increasing) simp
  then have s: "unat (n + 1) = unat n + 1" "unat (n + 2) = unat n + 2"
    using room by (simp_all add: unat_word_ariths)
  then have nz: "n + 1 \<noteq> 0" "n + 1 + 1 \<noteq> 0" by (metis add_is_0 one_neq_zero unsigned_0, metis (no_types) add.assoc add_is_0 one_add_one unsigned_0 zero_neq_numeral)
  have "p = \<lparr>prefix6 = Masked pfx, gateway6 = Addr6 (n + 1), next6 = Addr6 (n + 2), used6 = {}\<rparr>"
    "gw = Addr6 (n + 1)"
    using assms nz m by (auto simp: NewAddrPool6_def Let_def add.assoc split: if_splits)
  then show thesis using that [OF _ _ k al room _ _ _ s] m by simp
qed

lemma NewAddrPool6_inv:
  assumes "NewAddrPool6 (Some pfx) = Ok (p, gw)"
  shows "pool6_inv p \<and> used6 p = {}"
proof -
  obtain n k where f: "prefix6 p = \<lparr>pfx_addr = Addr6 n, pfx_bits = 128 - k\<rparr>"
    "2 \<le> k" "k \<le> 128" "unat n mod 2 ^ k = 0" "next6 p = Addr6 (n + 2)"
    "used6 p = {}" "unat (n + 2) = unat n + 2"
    using NewAddrPool6_fields [OF assms] by metis
  have "(2 :: nat) ^ 2 \<le> 2 ^ k" using f(2) by (rule power_increasing) simp
  then have "low_water n k p" using f by (simp add: low_water_def)
  then show ?thesis unfolding pool6_inv_def using f by auto
qed


lemma prefix6_lend: "pool6_lend p = Some (a, p') \<Longrightarrow> prefix6 p' = prefix6 p"
  by (cases "scan_free6 (prefix6 p) (used6 p) (next6 p)")
    (auto simp: pool6_lend_def Allocate6_def split: option.splits)

lemma prefix6_Release6: "prefix6 (Release6 a p) = prefix6 p"
  by (simp add: Release6_def Let_def)

text \<open>
  C19: The IPv6 pool: whatever sessions came and went, a leased address lies in the configured
  prefix, is not the gateway, and is held by one session only; the search always returns; and, for
  a prefix that does not contain the all-ones address, exhaustion is reported exactly when every
  address of the prefix behind the gateway is leased.
\<close>

theorem AddrPool6_leases:
  assumes "NewAddrPool6 (Some pfx) = Ok (p0, gw)" and "served pool6_lend Release6 p0 p l"
  shows "(\<forall>s a. l s = Some a \<longrightarrow> Contains (Masked pfx) a \<and> Less gw a \<and> (\<forall>t. l t = Some a \<longrightarrow> s = t))
    \<and> Allocate6 p \<noteq> None
    \<and> (\<not> Contains (Masked pfx) (Addr6 (- 1)) \<longrightarrow>
         (Allocate6 p = Some (Err Exhausted) \<longleftrightarrow> ran l = {a. Contains (Masked pfx) a \<and> Less gw a}))"
proof -
  obtain n k where f: "prefix6 p0 = \<lparr>pfx_addr = Addr6 n, pfx_bits = 128 - k\<rparr>" "prefix6 p0 = Masked pfx"
    "k \<le> 128" "unat n mod 2 ^ k = 0" "gw = Addr6 (n + 1)" "unat (n + 1) = unat n + 1"
    using NewAddrPool6_fields [OF assms(1)] by metis
  have u: "hosts6 (prefix6 p0) = {a. Contains (Masked pfx) a \<and> Less gw a}" (is "_ = ?H")
  proof (rule set_eqI)
    fix a
    have m: "Masked pfx = \<lparr>pfx_addr = Addr6 n, pfx_bits = 128 - k\<rparr>" using f(1,2) by simp
    then have C: "Contains (Masked pfx) (Addr6 x) \<longleftrightarrow> unat n \<le> unat x \<and> unat x < unat n + 2 ^ k" for x
      using Contains_range [OF f(4,3)] by simp
    have N: "\<not> Contains (Masked pfx) (Addr4 x)" for x by (simp add: m Contains_def)
    have L: "Less gw (Addr6 x) \<longleftrightarrow> unat n + 1 < unat x" for x using f(5,6) by (simp add: Less_def)
    have H: "hosts6 (prefix6 p0) = {Addr6 x | x. unat n + 2 \<le> unat x \<and> unat x < unat n + 2 ^ k}"
      using f(1,3) by (simp add: hosts6_def)
    show "a \<in> hosts6 (prefix6 p0) \<longleftrightarrow> a \<in> ?H"
      unfolding H by (cases a) (auto simp: C L N)
  qed
  have i0: "pool6_inv p0" "used6 p0 = {}" using NewAddrPool6_inv [OF assms(1)] by auto
  have i: "pool6_inv p" "hosts6 (prefix6 p) = hosts6 (prefix6 p0)" "ran l = used6 p"
    using v6.served_inv [OF assms(2) i0] by auto
  have pf: "prefix6 p = prefix6 p0" using assms(2)
    by (induction rule: served.induct) (simp_all add: prefix6_lend prefix6_Release6)
  have e: "Allocate6 p = Some (Err Exhausted) \<longleftrightarrow> pool6_lend p = None" and nn: "Allocate6 p \<noteq> None"
    using i(1) by (cases rule: Allocate6_cases; simp add: pool6_lend_def)+
  have "pool6_lend p = None \<longleftrightarrow> ran l = hosts6 (prefix6 p0)" if "\<not> reaches_end (prefix6 p)"
    using v6.lend_none [OF i(1) that] v6.held_usable [OF i(1)] v6.lend_fresh [OF i(1)] i(2,3)
    by (cases "pool6_lend p") auto
  moreover have "a \<in> hosts6 (prefix6 p0) \<and> (\<forall>t. l t = Some a \<longrightarrow> s = t)" if "l s = Some a" for s a
    using v6.no_shared_address [OF assms(2) i0 that] by blast
  ultimately show ?thesis
    using u nn e pf f(2) by (auto simp: reaches_end_def)
qed


definition example_prefix6 :: Prefix where
  "example_prefix6 = \<lparr>pfx_addr = Addr6 (- 4), pfx_bits = 126\<rparr>"

definition example_pool6 :: AddrPool6 where
  "example_pool6 = \<lparr>prefix6 = example_prefix6, gateway6 = Addr6 (- 3), next6 = Addr6 (- 2), used6 = {}\<rparr>"

lemma example_pool6_new: "NewAddrPool6 (Some example_prefix6) = Ok (example_pool6, Addr6 (- 3))"
proof -
  have "Masked example_prefix6 = example_prefix6"
    by (simp add: Masked_def example_prefix6_def clear_low_def)
  then show ?thesis by (simp add: NewAddrPool6_def Let_def example_pool6_def) (simp add: example_prefix6_def)
qed

lemma example_pool6_lend:
  "pool6_lend example_pool6 = Some (Addr6 (- 2), example_pool6\<lparr>used6 := {Addr6 (- 2)}, next6 := Addr6 (- 1)\<rparr>)"
  by (simp add: pool6_lend_def Allocate6_def example_pool6_def example_prefix6_def scan_free6.simps Contains_def)

theorem AddrPool6_leases_witness:
  "Less (Addr6 (- 3)) (Addr6 (- 2)) \<and> Contains (Masked example_prefix6) (Addr6 (- 2))"
proof -
  have "served pool6_lend Release6 example_pool6
      (example_pool6\<lparr>used6 := {Addr6 (- 2)}, next6 := Addr6 (- 1)\<rparr>) [0 :: nat \<mapsto> Addr6 (- 2)]"
    by (rule served.connect [where p = example_pool6 and l = Map.empty])
      (simp_all add: served.start example_pool6_lend)
  from AddrPool6_leases [OF example_pool6_new this, THEN conjunct1, rule_format, of 0] show ?thesis by simp
qed

text \<open>
  C21: A defect of the IPv6 pool: once the all-ones address has been lent, \<open>next\<close> is the zero
  address, which \<^verbatim>\<open>ip.Less(p.next)\<close> never lowers, so the pool refuses every later client
  whatever sessions give their addresses back.
\<close>

theorem AddrPool6_never_reuses:
  assumes "pool6_lend p = Some (Addr6 (- 1), p')"
  shows "Allocate6 (fold Release6 rs p') = Some (Err Exhausted)"
proof -
  have n: "next6 p' = NoAddr"
    using assms by (cases "scan_free6 (prefix6 p) (used6 p) (next6 p)")
      (auto simp: pool6_lend_def Allocate6_def split: option.splits)
  have "next6 (fold Release6 rs p') = NoAddr"
    using n
  proof (induction rs arbitrary: p')
    case (Cons r rs)
    have "next6 (Release6 r p') = NoAddr"
      using Cons.prems by (auto simp: Release6_def Let_def Less_def)
    then show ?case using Cons.IH by simp
  qed simp
  then show ?thesis by (simp add: Allocate6_def scan_free6.simps)
qed

theorem AddrPool6_never_reuses_witness:
  "let p = example_pool6\<lparr>used6 := {Addr6 (- 2)}, next6 := Addr6 (- 1)\<rparr>;
       p' = example_pool6\<lparr>used6 := {Addr6 (- 1), Addr6 (- 2)}, next6 := NoAddr\<rparr>
   in pool6_lend p = Some (Addr6 (- 1), p')
    \<and> Allocate6 (fold Release6 [Addr6 (- 2), Addr6 (- 1)] p') = Some (Err Exhausted)
    \<and> used6 (fold Release6 [Addr6 (- 2), Addr6 (- 1)] p') = {}"
proof -
  let ?p = "example_pool6\<lparr>used6 := {Addr6 (- 2)}, next6 := Addr6 (- 1)\<rparr>"
  let ?q = "example_pool6\<lparr>used6 := {Addr6 (- 1), Addr6 (- 2)}, next6 := NoAddr\<rparr>"
  have l: "pool6_lend ?p = Some (Addr6 (- 1), ?q)"
    by (simp add: pool6_lend_def Allocate6_def example_pool6_def example_prefix6_def scan_free6.simps Contains_def)
  have "used6 (fold Release6 [Addr6 (- 2), Addr6 (- 1)] ?q) = {}"
    by (auto simp: Release6_def Less_def example_pool6_def)
  then show ?thesis using l AddrPool6_never_reuses [OF l, of "[Addr6 (- 2), Addr6 (- 1)]"] by (simp only: Let_def)
qed

end
