(* ===== verification/Route_Table.thy ===== *)
theory Route_Table
  imports Netip "HOL-Library.Monad_Syntax"
begin

text \<open>
  The routing table of \<^verbatim>\<open>dataplane/routes.go\<close>: one persistent binary trie per address
  family, walked by longest-prefix match.  Nodes are values, since no node is modified once it is
  reachable; a nil pointer is \<open>None\<close>, and so is the zero \<^verbatim>\<open>bound{}\<close>.  The locale
  \<open>route_map\<close> is what the pump relies on: a finite map from masked prefixes to tunnels.
\<close>

section \<open>The trie\<close>

datatype 'v routeNode =
  RouteNode (child0: "'v routeNode option") (child1: "'v routeNode option") (rn_val: "'v option") (rn_set: bool)

record 'v routeTable =
  root4 :: "'v routeNode option"
  root6 :: "'v routeNode option"

record addrBits =
  hi :: u64
  lo :: u64

definition bitsOf :: "Addr \<Rightarrow> addrBits" where
  "bitsOf a = (case a of
     Addr4 w \<Rightarrow> \<lparr>hi = push_bit 32 (ucast w), lo = 0\<rparr>
   | Addr6 w \<Rightarrow> \<lparr>hi = ucast (drop_bit 64 w), lo = ucast w\<rparr>
   | NoAddr \<Rightarrow> \<lparr>hi = 0, lo = 0\<rparr>)"

definition bit_of :: "addrBits \<Rightarrow> nat \<Rightarrow> byte" where
  "bit_of b i = (if i < 64 then ucast (drop_bit (63 - i) (hi b)) AND 1
     else ucast (drop_bit (127 - i) (lo b)) AND 1)"

definition rootFor :: "Addr \<Rightarrow> 'v routeTable \<Rightarrow> 'v routeNode option" where
  "rootFor a t = (if Is4 a then root4 t else root6 t)"

definition set_rootFor :: "Addr \<Rightarrow> 'v routeNode option \<Rightarrow> 'v routeTable \<Rightarrow> 'v routeTable" where
  "set_rootFor a n t = (if Is4 a then t\<lparr>root4 := n\<rparr> else t\<lparr>root6 := n\<rparr>)"

definition child :: "'v routeNode \<Rightarrow> byte \<Rightarrow> 'v routeNode option" where
  "child n b = (if b = 0 then child0 n else child1 n)"

lemma size_child [termination_simp]: "size_option size (child n b) < Suc (size n)"
  by (cases n) (simp add: child_def)

definition set_child :: "'v routeNode \<Rightarrow> byte \<Rightarrow> 'v routeNode \<Rightarrow> 'v routeNode" where
  "set_child n b c = (if b = 0 then RouteNode (Some c) (child1 n) (rn_val n) (rn_set n)
     else RouteNode (child0 n) (Some c) (rn_val n) (rn_set n))"

definition blank :: "'v routeNode" where
  "blank = RouteNode None None None False"

text \<open>\<open>withEntry\<close> recurses until \<^verbatim>\<open>depth == bits\<close>; it would not return from beyond it.\<close>

partial_function (option) withEntry ::
  "'v routeNode option \<Rightarrow> addrBits \<Rightarrow> nat \<Rightarrow> nat \<Rightarrow> 'v option \<Rightarrow> bool \<Rightarrow> 'v routeNode option" where
  "withEntry n a depth bits v s =
     (let cp = (case n of None \<Rightarrow> blank | Some m \<Rightarrow> m) in
      if depth = bits then Some (RouteNode (child0 cp) (child1 cp) (if s then v else None) s)
      else let b = bit_of a depth in
        Option.bind (withEntry (child cp b) a (depth + 1) bits v s) (\<lambda>c. Some (set_child cp b c)))"

definition insert_route :: "Prefix \<Rightarrow> 'v \<Rightarrow> 'v routeTable \<Rightarrow> 'v routeTable option" where
  "insert_route p0 v t =
     (let p = Masked p0; a = pfx_addr p in
      Option.bind (withEntry (rootFor a t) (bitsOf a) 0 (pfx_bits p) (Some v) True)
        (\<lambda>n. Some (set_rootFor a (Some n) t)))"

text \<open>\<open>node_walk\<close> is the loop of \<open>node\<close> with \<open>i\<close> its counter.\<close>

fun node_walk :: "'v routeNode option \<Rightarrow> addrBits \<Rightarrow> nat \<Rightarrow> nat \<Rightarrow> 'v routeNode option" where
  "node_walk None a i bits = None"
| "node_walk (Some n) a i bits = (if i < bits then node_walk (child n (bit_of a i)) a (i + 1) bits else Some n)"

definition node :: "'v routeTable \<Rightarrow> Prefix \<Rightarrow> 'v routeNode option" where
  "node t p = node_walk (rootFor (pfx_addr p) t) (bitsOf (pfx_addr p)) 0 (pfx_bits p)"

definition clear_entry :: "Prefix \<Rightarrow> 'v routeTable \<Rightarrow> 'v routeTable option" where
  "clear_entry p t =
     (let a = pfx_addr p in
      Option.bind (withEntry (rootFor a t) (bitsOf a) 0 (pfx_bits p) None False)
        (\<lambda>n. Some (set_rootFor a (Some n) t)))"

definition remove_route :: "Prefix \<Rightarrow> 'v routeTable \<Rightarrow> 'v routeTable option" where
  "remove_route p0 t =
     (let p = Masked p0 in
      case node t p of
        Some n \<Rightarrow> if rn_set n then clear_entry p t else Some t
      | None \<Rightarrow> Some t)"

text \<open>\<open>tun\<close> reads the tunnel of an entry, the field \<^verbatim>\<open>t\<close> of \<^verbatim>\<open>bound\<close>.\<close>

definition removeOwned :: "('v \<Rightarrow> 't) \<Rightarrow> Prefix \<Rightarrow> 't \<Rightarrow> 'v routeTable \<Rightarrow> 'v routeTable option" where
  "removeOwned tun p0 owner t =
     (let p = Masked p0 in
      case node t p of
        Some n \<Rightarrow> if rn_set n \<and> map_option tun (rn_val n) = Some owner then clear_entry p t else Some t
      | None \<Rightarrow> Some t)"

fun lookup_walk :: "'v routeNode option \<Rightarrow> addrBits \<Rightarrow> nat \<Rightarrow> nat \<Rightarrow> 'v option \<Rightarrow> 'v option" where
  "lookup_walk None ab i bits best = best"
| "lookup_walk (Some n) ab i bits best =
     (let best' = (if rn_set n then rn_val n else best) in
      if i = bits then best' else lookup_walk (child n (bit_of ab i)) ab (i + 1) bits best')"

definition lookup_route :: "'v routeTable \<Rightarrow> Addr \<Rightarrow> 'v option" where
  "lookup_route t a = lookup_walk (rootFor a t) (bitsOf a) 0 (BitLen a) None"

definition empty_table :: "'v routeTable \<Rightarrow> bool" where
  "empty_table t = (root4 t = None \<and> root6 t = None)"

section \<open>The machine words hold the address bits\<close>

lemma ucast_and_1: "(ucast (w :: 'a::len word) :: byte) AND 1 = of_bool (bit w 0)"
  by (rule bit_word_eqI) (auto simp: bit_and_iff bit_ucast_iff bit_1_iff bit_of_bool_iff)

lemma bit_of_addr:
  assumes "i < BitLen a"
  shows "bit_of (bitsOf a) i = of_bool (addr_bits a ! i)"
proof (cases a)
  case (Addr4 w)
  then have "bit (push_bit 32 (ucast w) :: u64) (63 - i) = bit w (31 - i)"
    using assms by (auto simp: bit_push_bit_iff bit_ucast_iff)
  then show ?thesis using assms Addr4
    by (simp add: bit_of_def bitsOf_def ucast_and_1 bit_drop_bit_eq msb_bits_def)
next
  case (Addr6 w)
  then show ?thesis using assms
    by (auto simp: bit_of_def bitsOf_def ucast_and_1 bit_drop_bit_eq msb_bits_def bit_ucast_iff)
qed (use assms in simp)

section \<open>A trie as a map from bit strings\<close>

fun entries :: "'v routeNode option \<Rightarrow> bool list \<Rightarrow> 'v option" where
  "entries None _ = None"
| "entries (Some n) [] = (if rn_set n then rn_val n else None)"
| "entries (Some n) (b # bs) = entries (if b then child1 n else child0 n) bs"

text \<open>A set node carries a value.\<close>

inductive node_ok :: "'v routeNode option \<Rightarrow> bool" where
  nil: "node_ok None"
| some: "node_ok l \<Longrightarrow> node_ok r \<Longrightarrow> (s \<longrightarrow> v \<noteq> None) \<Longrightarrow> node_ok (Some (RouteNode l r v s))"

inductive_simps node_ok_simps [simp]: "node_ok None" "node_ok (Some (RouteNode l r v s))"

lemma node_ok_parts:
  assumes "node_ok (Some n)"
  shows "node_ok (child0 n)" "node_ok (child1 n)" "rn_set n \<Longrightarrow> rn_val n \<noteq> None" "node_ok (child n b)"
  using assms by (cases n; simp add: child_def)+

lemma child_bit: "child n (of_bool b) = (if b then child1 n else child0 n)"
  by (simp add: child_def)

lemma set_child_bit:
  "set_child n (of_bool b) c = (if b then RouteNode (child0 n) (Some c) (rn_val n) (rn_set n)
     else RouteNode (Some c) (child1 n) (rn_val n) (rn_set n))"
  by (simp add: set_child_def)

lemma entries_blank [simp]: "entries (Some blank) = Map.empty"
proof
  fix p :: "bool list"
  show "entries (Some blank) p = None" by (cases p) (simp_all add: blank_def)
qed

definition copied :: "'v routeNode option \<Rightarrow> 'v routeNode" where
  "copied n = (case n of None \<Rightarrow> blank | Some m \<Rightarrow> m)"

lemma entries_copied: "entries (Some (copied n)) = entries n"
  by (cases n) (auto simp: copied_def)

lemma node_ok_copied: "node_ok n \<Longrightarrow> node_ok (Some (copied n))"
  by (cases n) (auto simp: copied_def blank_def)

lemma entries_set_child:
  assumes "entries (Some c) = (entries (child n (of_bool b)))(rest := w)"
  shows "entries (Some (set_child n (of_bool b) c)) = (entries (Some n))(b # rest := w)"
proof
  fix p
  show "entries (Some (set_child n (of_bool b) c)) p = ((entries (Some n))(b # rest := w)) p"
    using assms by (cases p; cases b) (auto simp: set_child_def child_def)
qed

lemma withEntry_step:
  "withEntry n a depth bits v s =
     (if depth = bits then Some (RouteNode (child0 (copied n)) (child1 (copied n)) (if s then v else None) s)
      else Option.bind (withEntry (child (copied n) (bit_of a depth)) a (depth + 1) bits v s)
             (\<lambda>c. Some (set_child (copied n) (bit_of a depth) c)))"
  by (subst withEntry.simps) (simp add: Let_def copied_def)

lemma path_step:
  assumes "depth < bits" and "bits \<le> length xs"
  shows "drop depth (take bits xs) = xs ! depth # drop (depth + 1) (take bits xs)"
  using assms by (simp add: Cons_nth_drop_Suc [symmetric])

lemma withEntry_entries:
  assumes "depth \<le> bits" and "bits \<le> BitLen a"
  shows "\<exists>m. withEntry n (bitsOf a) depth bits v s = Some m
     \<and> (node_ok n \<longrightarrow> (s \<longrightarrow> v \<noteq> None) \<longrightarrow> node_ok (Some m))
     \<and> entries (Some m) = (entries n)(drop depth (take bits (addr_bits a)) := if s then v else None)"
  using assms(1)
proof (induction "bits - depth" arbitrary: depth n)
  case 0
  then have d: "depth = bits" by simp
  let ?m = "RouteNode (child0 (copied n)) (child1 (copied n)) (if s then v else None) s"
  have "entries (Some ?m) p = ((entries n)([] := if s then v else None)) p" for p
    by (subst entries_copied [of n, symmetric]) (cases p; simp)
  then have "entries (Some ?m) = (entries n)([] := if s then v else None)" by blast
  moreover have "node_ok n \<longrightarrow> (s \<longrightarrow> v \<noteq> None) \<longrightarrow> node_ok (Some ?m)"
    using node_ok_copied [of n] node_ok_parts [of "copied n"] by auto
  ultimately show ?case using d by (simp add: withEntry_step fun_upd_def)
next
  case (Suc k)
  then have d: "depth < bits" "k = bits - (depth + 1)" by simp_all
  let ?b = "addr_bits a ! depth" and ?rest = "drop (depth + 1) (take bits (addr_bits a))"
  have b: "bit_of (bitsOf a) depth = of_bool ?b" using d(1) assms(2) by (intro bit_of_addr) simp
  from Suc.hyps(1) [OF d(2), of "child (copied n) (of_bool ?b)"] d(1)
  obtain c where c: "withEntry (child (copied n) (of_bool ?b)) (bitsOf a) (depth + 1) bits v s = Some c"
    "node_ok (child (copied n) (of_bool ?b)) \<longrightarrow> (s \<longrightarrow> v \<noteq> None) \<longrightarrow> node_ok (Some c)"
    "entries (Some c) = (entries (child (copied n) (of_bool ?b)))(?rest := if s then v else None)" by auto
  let ?m = "set_child (copied n) (of_bool ?b) c"
  have "entries (Some ?m) = (entries n)(?b # ?rest := if s then v else None)"
    using entries_set_child [OF c(3)] by (simp add: entries_copied)
  moreover have "node_ok n \<longrightarrow> (s \<longrightarrow> v \<noteq> None) \<longrightarrow> node_ok (Some ?m)"
    using c(2) node_ok_copied [of n] node_ok_parts [of "copied n"] by (auto simp: set_child_bit child_bit)
  ultimately show ?case
    using d(1) b c(1) assms(2) by (simp add: withEntry_step [of n] path_step)
qed

lemma node_walk_entries:
  assumes "i \<le> bits" and "bits \<le> BitLen a"
  shows "(case node_walk n (bitsOf a) i bits of Some m \<Rightarrow> (if rn_set m then rn_val m else None) | None \<Rightarrow> None)
    = entries n (drop i (take bits (addr_bits a)))"
  using assms(1)
proof (induction "bits - i" arbitrary: i n)
  case 0
  then show ?case by (cases n) simp_all
next
  case (Suc k)
  then have d: "i < bits" "k = bits - (i + 1)" by simp_all
  have b: "bit_of (bitsOf a) i = of_bool (addr_bits a ! i)" using d(1) assms(2) by (intro bit_of_addr) simp
  show ?case
  proof (cases n)
    case (Some m)
    then show ?thesis
      using Suc.hyps(1) [OF d(2), of "child m (of_bool (addr_bits a ! i))"] d(1) b assms(2)
      by (simp add: path_step child_bit)
  qed simp
qed

text \<open>The walk returns the last value on the path, or the one it came with.\<close>

lemma lookup_walk_longest:
  fixes n :: "'v routeNode option" and best :: "'v option"
  assumes "node_ok n" and "i \<le> BitLen a"
  defines "r \<equiv> lookup_walk n (bitsOf a) i (BitLen a) best"
    and "at j \<equiv> entries n (drop i (take j (addr_bits a)))"
  shows "(\<exists>j. i \<le> j \<and> j \<le> BitLen a \<and> at j = r \<and> r \<noteq> None \<and> (\<forall>k. j < k \<and> k \<le> BitLen a \<longrightarrow> at k = None))
    \<or> (r = best \<and> (\<forall>j. i \<le> j \<and> j \<le> BitLen a \<longrightarrow> at j = None))"
  using assms(1,2) unfolding r_def at_def
proof (induction "BitLen a - i" arbitrary: i n best)
  case 0
  then have "i = BitLen a" by simp
  then show ?case using 0 by (cases n) (auto simp: Let_def dest: node_ok_parts(3))
next
  case (Suc k)
  then have d: "i < BitLen a" "k = BitLen a - (i + 1)" "i + 1 \<le> BitLen a" by simp_all
  show ?case
  proof (cases n)
    case None
    then show ?thesis by simp
  next
    case (Some m)
    let ?xs = "addr_bits a" and ?b = "addr_bits a ! i"
    let ?c = "child m (of_bool ?b)" and ?best = "if rn_set m then rn_val m else best"
    have w: "lookup_walk n (bitsOf a) i (BitLen a) best = lookup_walk ?c (bitsOf a) (i + 1) (BitLen a) ?best"
      using Some d(1) bit_of_addr [OF d(1)] by (simp add: Let_def)
    have deep: "entries n (drop i (take j ?xs)) = entries ?c (drop (i + 1) (take j ?xs))"
      if "i < j" "j \<le> BitLen a" for j
      using that Some by (simp add: path_step child_bit)
    have here: "entries n (drop i (take i ?xs)) = (if rn_set m then rn_val m else None)" using Some by simp
    have ok: "node_ok ?c" "rn_set m \<Longrightarrow> rn_val m \<noteq> None" using Suc.prems(1) Some node_ok_parts by auto
    note IH = Suc.hyps(1) [OF d(2) ok(1) d(3), of ?best, folded w]
    from IH show ?thesis
    proof (elim disjE exE conjE)
      fix j
      assume j: "i + 1 \<le> j" "j \<le> BitLen a"
        "entries ?c (drop (i + 1) (take j ?xs)) = lookup_walk n (bitsOf a) i (BitLen a) best"
        "lookup_walk n (bitsOf a) i (BitLen a) best \<noteq> None"
        "\<forall>k. j < k \<and> k \<le> BitLen a \<longrightarrow> entries ?c (drop (i + 1) (take k ?xs)) = None"
      have "entries n (drop i (take j ?xs)) = lookup_walk n (bitsOf a) i (BitLen a) best"
        using j(1-3) deep [of j] by simp
      moreover have "\<forall>k. j < k \<and> k \<le> BitLen a \<longrightarrow> entries n (drop i (take k ?xs)) = None"
        using j(1,5) deep by auto
      moreover have "i \<le> j" using j(1) by simp
      ultimately show ?thesis using j(2,4) by blast
    next
      assume e: "lookup_walk n (bitsOf a) i (BitLen a) best = ?best"
        and none: "\<forall>j. i + 1 \<le> j \<and> j \<le> BitLen a \<longrightarrow> entries ?c (drop (i + 1) (take j ?xs)) = None"
      have later: "entries n (drop i (take j ?xs)) = None" if "i < j" "j \<le> BitLen a" for j
        using none deep that by simp
      show ?thesis
      proof (cases "rn_set m")
        case True
        then show ?thesis using e ok(2) here later d(1) by (intro disjI1 exI [of _ i]) auto
      next
        case False
        then show ?thesis using e here later by (metis le_eq_less_or_eq)
      qed
    qed
  qed
qed

section \<open>The contract the pump relies on\<close>

text \<open>
  A routing table is a map from masked prefixes to entries; a lookup returns the entry of the
  longest prefix that contains the address.  \<open>longest_match R a p\<close> says that \<open>p\<close> is that prefix.
\<close>

definition longest_match :: "(Prefix \<rightharpoonup> 'v) \<Rightarrow> Addr \<Rightarrow> Prefix \<Rightarrow> bool" where
  "longest_match R a p \<longleftrightarrow> p \<in> dom R \<and> Contains p a
     \<and> (\<forall>q. q \<in> dom R \<and> Contains q a \<longrightarrow> pfx_bits q \<le> pfx_bits p)"

text \<open>A tunnel's routes, inserted and removed one by one, as the pump's loops do.\<close>

fun ins_all :: "(Prefix \<Rightarrow> 'v \<Rightarrow> 't \<Rightarrow> 't option) \<Rightarrow> Prefix list \<Rightarrow> 'v \<Rightarrow> 't \<Rightarrow> 't option" where
  "ins_all ins [] v t = Some t"
| "ins_all ins (p # ps) v t = Option.bind (ins p v t) (ins_all ins ps v)"

fun rem_all :: "(Prefix \<Rightarrow> 'o \<Rightarrow> 't \<Rightarrow> 't option) \<Rightarrow> Prefix list \<Rightarrow> 'o \<Rightarrow> 't \<Rightarrow> 't option" where
  "rem_all rem [] w t = Some t"
| "rem_all rem (p # ps) w t = Option.bind (rem p w t) (rem_all rem ps w)"

locale route_map =
  fixes ok :: "'t \<Rightarrow> bool"
    and abs :: "'t \<Rightarrow> Prefix \<rightharpoonup> 'v"
    and ins :: "Prefix \<Rightarrow> 'v \<Rightarrow> 't \<Rightarrow> 't option"
    and rem_owned :: "('v \<Rightarrow> 'o) \<Rightarrow> Prefix \<Rightarrow> 'o \<Rightarrow> 't \<Rightarrow> 't option"
    and look :: "'t \<Rightarrow> Addr \<Rightarrow> 'v option"
  assumes ins_abs: "ok t \<Longrightarrow> pfx_valid p \<Longrightarrow> \<exists>t'. ins p v t = Some t' \<and> ok t' \<and> abs t' = (abs t)(Masked p \<mapsto> v)"
    and rem_owned_abs: "ok t \<Longrightarrow> pfx_valid p \<Longrightarrow> \<exists>t'. rem_owned tun p w t = Some t' \<and> ok t'
       \<and> abs t' = (if map_option tun (abs t (Masked p)) = Some w then (abs t)(Masked p := None) else abs t)"
    and look_abs: "ok t \<Longrightarrow> IsValid a \<Longrightarrow> look t a = Some v \<longleftrightarrow> (\<exists>p. longest_match (abs t) a p \<and> abs t p = Some v)"
begin

lemma ins_all_abs:
  assumes "ok t" and "\<forall>p \<in> set ps. pfx_valid p"
  shows "\<exists>t'. ins_all ins ps v t = Some t' \<and> ok t'
    \<and> abs t' = (\<lambda>q. if q \<in> Masked ` set ps then Some v else abs t q)"
  using assms
proof (induction ps arbitrary: t)
  case (Cons p ps)
  then obtain t1 where t1: "ins p v t = Some t1" "ok t1" "abs t1 = (abs t)(Masked p \<mapsto> v)"
    using ins_abs [of t p v] by auto
  from Cons.IH [OF t1(2)] Cons.prems(2) show ?case using t1 by (auto simp: fun_eq_iff)
qed auto

lemma rem_all_abs:
  assumes "ok t" and "\<forall>p \<in> set ps. pfx_valid p"
  shows "\<exists>t'. rem_all (rem_owned tun) ps w t = Some t' \<and> ok t'
    \<and> abs t' = (\<lambda>q. if q \<in> Masked ` set ps \<and> map_option tun (abs t q) = Some w then None else abs t q)"
  using assms
proof (induction ps arbitrary: t)
  case (Cons p ps)
  then obtain t1 where t1: "rem_owned tun p w t = Some t1" "ok t1"
    "abs t1 = (if map_option tun (abs t (Masked p)) = Some w then (abs t)(Masked p := None) else abs t)"
    using rem_owned_abs [of t p tun w] by auto
  from Cons.IH [OF t1(2)] Cons.prems(2) show ?case using t1 by (auto simp: fun_eq_iff)
qed auto

text \<open>
  Make before break: the new tunnel's routes go in, then the old tunnel's come out, and what the
  new tunnel took over stays.
\<close>

lemma make_before_break:
  assumes "ok t" and "\<forall>p \<in> set new_ps. pfx_valid p" and "\<forall>p \<in> set old_ps. pfx_valid p" and "tun v \<noteq> w"
    and "ins_all ins new_ps v t = Some t1" and "rem_all (rem_owned tun) old_ps w t1 = Some t2" and "p \<in> set new_ps"
  shows "abs t2 (Masked p) = Some v"
proof -
  obtain t1' where t1: "ins_all ins new_ps v t = Some t1'" "ok t1'"
    "abs t1' = (\<lambda>q. if q \<in> Masked ` set new_ps then Some v else abs t q)"
    using ins_all_abs [OF assms(1,2)] by blast
  obtain t2' where t2: "rem_all (rem_owned tun) old_ps w t1' = Some t2'"
    "abs t2' = (\<lambda>q. if q \<in> Masked ` set old_ps \<and> map_option tun (abs t1' q) = Some w then None else abs t1' q)"
    using rem_all_abs [OF t1(2) assms(3)] by blast
  show ?thesis using t1 t2 assms(4-7) by auto
qed

end

section \<open>The table meets the contract\<close>

definition table_ok :: "'v routeTable \<Rightarrow> bool" where
  "table_ok t \<longleftrightarrow> node_ok (root4 t) \<and> node_ok (root6 t)"

definition table_abs :: "'v routeTable \<Rightarrow> Prefix \<rightharpoonup> 'v" where
  "table_abs t p = (if pfx_valid p \<and> Masked p = p then entries (rootFor (pfx_addr p) t) (pfx_path p) else None)"

lemma pfx_path_bits: "pfx_path p = drop 0 (take (pfx_bits p) (addr_bits (pfx_addr p)))"
  by (simp add: pfx_path_def)

lemma family_iff:
  assumes "IsValid a" "IsValid b"
  shows "Is4 a = Is4 b \<longleftrightarrow> BitLen a = BitLen b"
  using assms by (cases a; cases b) auto

lemma set_rootFor_simps:
  "table_ok t \<Longrightarrow> node_ok n \<Longrightarrow> table_ok (set_rootFor a n t)"
  "rootFor b (set_rootFor a n t) = (if Is4 a = Is4 b then n else rootFor b t)"
  "table_ok t \<Longrightarrow> node_ok (rootFor a t)"
  by (auto simp: table_ok_def set_rootFor_def rootFor_def)

lemma table_update:
  assumes "pfx_valid p" and "Masked p = p"
    and "entries n = (entries (rootFor (pfx_addr p) t))(pfx_path p := w)"
  shows "table_abs (set_rootFor (pfx_addr p) n t) = (table_abs t)(p := w)"
proof
  fix q
  show "table_abs (set_rootFor (pfx_addr p) n t) q = ((table_abs t)(p := w)) q"
  proof (cases "pfx_valid q \<and> Masked q = q")
    case True
    then have f: "Is4 (pfx_addr p) = Is4 (pfx_addr q) \<longleftrightarrow> BitLen (pfx_addr p) = BitLen (pfx_addr q)"
      using assms(1) by (intro family_iff) (simp_all add: pfx_valid_def)
    have r: "rootFor (pfx_addr q) t = rootFor (pfx_addr p) t" if "Is4 (pfx_addr p) = Is4 (pfx_addr q)"
      using that by (simp add: rootFor_def)
    show ?thesis
    proof (cases "p = q")
      case True
      then show ?thesis using assms by (simp add: table_abs_def set_rootFor_simps)
    next
      case False
      then have "BitLen (pfx_addr p) = BitLen (pfx_addr q) \<Longrightarrow> pfx_path p \<noteq> pfx_path q"
        using pfx_path_inj assms(1,2) True by blast
      then show ?thesis using True False assms(3) f r
        by (auto simp: table_abs_def set_rootFor_simps)
    qed
  next
    case False
    then show ?thesis using assms(1,2) by (auto simp: table_abs_def)
  qed
qed

lemma withEntry_table:
  assumes "table_ok t" and "pfx_valid p" and "Masked p = p" and "s \<longrightarrow> v \<noteq> None"
  shows "\<exists>t'. Option.bind (withEntry (rootFor (pfx_addr p) t) (bitsOf (pfx_addr p)) 0 (pfx_bits p) v s)
      (\<lambda>n. Some (set_rootFor (pfx_addr p) (Some n) t)) = Some t'
    \<and> table_ok t' \<and> table_abs t' = (table_abs t)(p := if s then v else None)"
proof -
  have "pfx_bits p \<le> BitLen (pfx_addr p)" using assms(2) by (simp add: pfx_valid_def)
  from withEntry_entries [OF _ this, of 0 "rootFor (pfx_addr p) t" v s]
  obtain m where "withEntry (rootFor (pfx_addr p) t) (bitsOf (pfx_addr p)) 0 (pfx_bits p) v s = Some m"
    "node_ok (Some m)" "entries (Some m) = (entries (rootFor (pfx_addr p) t))(pfx_path p := if s then v else None)"
    using assms(1,4) set_rootFor_simps(3) by (auto simp: pfx_path_def)
  then show ?thesis using assms(1) set_rootFor_simps(1) table_update [OF assms(2,3)] by fastforce
qed

lemma node_abs:
  assumes "pfx_valid p"  and "Masked p = p"
  shows "(case node t p of Some m \<Rightarrow> (if rn_set m then rn_val m else None) | None \<Rightarrow> None) = table_abs t p"
  using node_walk_entries [of 0 "pfx_bits p" "pfx_addr p"] assms
  by (simp add: node_def table_abs_def pfx_path_def pfx_valid_def)

lemma insert_route_abs:
  assumes "table_ok t" and "pfx_valid p"
  shows "\<exists>t'. insert_route p v t = Some t' \<and> table_ok t' \<and> table_abs t' = (table_abs t)(Masked p \<mapsto> v)"
  using withEntry_table [OF assms(1), of "Masked p" True "Some v"] assms(2)
  by (simp add: insert_route_def Let_def)

lemma clear_entry_abs:
  assumes "table_ok t" and "pfx_valid p" and "Masked p = p"
  shows "\<exists>t'. clear_entry p t = Some t' \<and> table_ok t' \<and> table_abs t' = (table_abs t)(p := None)"
  using withEntry_table [OF assms, of False None] by (simp add: clear_entry_def Let_def)

lemma removeOwned_abs:
  assumes "table_ok t" and "pfx_valid p"
  shows "\<exists>t'. removeOwned tun p w t = Some t' \<and> table_ok t'
    \<and> table_abs t' = (if map_option tun (table_abs t (Masked p)) = Some w then (table_abs t)(Masked p := None) else table_abs t)"
proof -
  have a: "(case node t (Masked p) of Some m \<Rightarrow> (if rn_set m then rn_val m else None) | None \<Rightarrow> None) = table_abs t (Masked p)"
    using assms(2) by (intro node_abs) simp_all
  obtain t' where "clear_entry (Masked p) t = Some t'" "table_ok t'" "table_abs t' = (table_abs t)(Masked p := None)"
    using clear_entry_abs [of t "Masked p"] assms by auto
  then show ?thesis using assms(1) unfolding a [symmetric]
    by (cases "node t (Masked p)"; cases "rn_set (the (node t (Masked p)))") (auto simp: removeOwned_def Let_def)
qed

lemma remove_route_abs:
  assumes "table_ok t" and "pfx_valid p"
  shows "\<exists>t'. remove_route p t = Some t' \<and> table_ok t' \<and> table_abs t' = (table_abs t)(Masked p := None)"
proof -
  have a: "(case node t (Masked p) of Some m \<Rightarrow> (if rn_set m then rn_val m else None) | None \<Rightarrow> None) = table_abs t (Masked p)"
    using assms(2) by (intro node_abs) simp_all
  obtain t' where "clear_entry (Masked p) t = Some t'" "table_ok t'" "table_abs t' = (table_abs t)(Masked p := None)"
    using clear_entry_abs [of t "Masked p"] assms by auto
  then show ?thesis using assms(1) a
    by (cases "node t (Masked p)"; cases "rn_set (the (node t (Masked p)))") (simp_all add: remove_route_def Let_def fun_upd_idem)
qed

lemma take_Contains:
  assumes "IsValid a" and "j \<le> BitLen a"
  obtains p where "pfx_valid p" "Masked p = p" "Contains p a" "pfx_bits p = j" "pfx_path p = take j (addr_bits a)"
    "Is4 (pfx_addr p) = Is4 a"
proof
  define p where "p = Masked \<lparr>pfx_addr = a, pfx_bits = j\<rparr>"
  have v: "pfx_valid \<lparr>pfx_addr = a, pfx_bits = j\<rparr>" using assms by (simp add: pfx_valid_def)
  then show "pfx_valid p" "Masked p = p" "pfx_bits p = j" "Is4 (pfx_addr p) = Is4 a" by (simp_all add: p_def)
  show path: "pfx_path p = take j (addr_bits a)"
    using pfx_path_Masked [OF v] by (simp add: p_def pfx_path_def)
  show "Contains p a" using Contains_iff_path [of p a] v path by (simp add: p_def)
qed

lemma table_abs_at:
  assumes "IsValid a" and "table_abs t p = Some v" and "Contains p a"
  shows "entries (rootFor a t) (take (pfx_bits p) (addr_bits a)) = Some v" "pfx_bits p \<le> BitLen a"
proof -
  have v: "pfx_valid p" using assms(2) by (auto simp: table_abs_def split: if_splits)
  have "BitLen a = BitLen (pfx_addr p)" "take (pfx_bits p) (addr_bits a) = pfx_path p"
    using Contains_iff_path [OF v] assms(3) by auto
  moreover have "Is4 a = Is4 (pfx_addr p)"
    using family_iff [OF assms(1)] calculation(1) v by (simp add: pfx_valid_def)
  ultimately show "entries (rootFor a t) (take (pfx_bits p) (addr_bits a)) = Some v" "pfx_bits p \<le> BitLen a"
    using assms(2) v by (auto simp: table_abs_def rootFor_def pfx_valid_def split: if_splits)
qed

lemma lookup_route_abs:
  assumes "table_ok t" and "IsValid a"
  shows "lookup_route t a = Some v \<longleftrightarrow> (\<exists>p. longest_match (table_abs t) a p \<and> table_abs t p = Some v)"
proof -
  define at where "at j = entries (rootFor a t) (take j (addr_bits a))" for j
  have entry: "\<exists>p. Contains p a \<and> pfx_bits p = j \<and> table_abs t p = at j" if j: "j \<le> BitLen a" for j
  proof -
    obtain p where "pfx_valid p" "Masked p = p" "Contains p a" "pfx_bits p = j" "pfx_path p = take j (addr_bits a)"
      "Is4 (pfx_addr p) = Is4 a" using take_Contains [OF assms(2) j] .
    then show ?thesis by (intro exI [of _ p]) (simp add: table_abs_def at_def rootFor_def)
  qed
  have at_of: "at (pfx_bits p) = Some w \<and> pfx_bits p \<le> BitLen a" if "table_abs t p = Some w" "Contains p a" for p w
    using table_abs_at [OF assms(2) that] by (simp add: at_def)
  have "node_ok (rootFor a t)" using assms(1) by (rule set_rootFor_simps)
  from lookup_walk_longest [OF this, of 0 a None]
  consider (hit) j where "j \<le> BitLen a" "at j = lookup_route t a" "lookup_route t a \<noteq> None"
      "\<forall>k. j < k \<and> k \<le> BitLen a \<longrightarrow> at k = None"
    | (miss) "lookup_route t a = None" "\<forall>j \<le> BitLen a. at j = None"
    by (auto simp: lookup_route_def at_def)
  then show ?thesis
  proof cases
    case hit
    have top: "pfx_bits q \<le> j" if "q \<in> dom (table_abs t)" "Contains q a" for q
      using that at_of hit(4) by (metis domD not_less option.distinct(1))
    obtain p where p: "Contains p a" "pfx_bits p = j" "table_abs t p = lookup_route t a"
      using entry [OF hit(1)] hit(2) by auto
    then have lm: "longest_match (table_abs t) a p" using hit(3) top by (auto simp: longest_match_def)
    show ?thesis
    proof
      assume "lookup_route t a = Some v"
      then show "\<exists>p. longest_match (table_abs t) a p \<and> table_abs t p = Some v" using lm p(3) by auto
    next
      assume "\<exists>p. longest_match (table_abs t) a p \<and> table_abs t p = Some v"
      then obtain q where q: "longest_match (table_abs t) a q" "table_abs t q = Some v" by blast
      then have "pfx_bits q = j" using lm p(2) by (auto simp: longest_match_def intro: antisym)
      then show "lookup_route t a = Some v" using at_of [OF q(2)] q(1) hit(2) by (simp add: longest_match_def)
    qed
  next
    case miss
    then show ?thesis using at_of by (fastforce simp: longest_match_def)
  qed
qed

interpretation table: route_map table_ok table_abs insert_route removeOwned lookup_route
  by unfold_locales (rule insert_route_abs removeOwned_abs lookup_route_abs; assumption)+

text \<open>A destination that some entry contains is routed.\<close>

lemma lookup_covered:
  assumes "table_ok t" and "IsValid a" and "table_abs t p = Some v" and "Contains p a"
  shows "\<exists>b. lookup_route t a = Some b"
proof -
  let ?P = "\<lambda>q. q \<in> dom (table_abs t) \<and> Contains q a"
  have "pfx_bits q < 129" if "?P q" for q
    using that by (cases "pfx_addr q") (auto simp: table_abs_def pfx_valid_def split: if_splits)
  then obtain q where "?P q" "\<forall>r. ?P r \<longrightarrow> pfx_bits r \<le> pfx_bits q"
    using ex_has_greatest_nat [of ?P p pfx_bits 129] assms(3,4) by blast
  then have "longest_match (table_abs t) a q" "\<exists>b. table_abs t q = Some b" by (auto simp: longest_match_def)
  then show ?thesis using table.look_abs [OF assms(1,2)] by blast
qed

section \<open>Histories of a table\<close>

text \<open>The calls a pump makes on its table, run on the tries and on the map they stand for.\<close>

datatype ('v, 'o) route_op = Ins Prefix 'v | Rem Prefix | RemOwned Prefix 'o

fun op_prefix :: "('v, 'o) route_op \<Rightarrow> Prefix" where
  "op_prefix (Ins p _) = p"
| "op_prefix (Rem p) = p"
| "op_prefix (RemOwned p _) = p"

fun run_ops :: "('v \<Rightarrow> 'o) \<Rightarrow> ('v, 'o) route_op list \<Rightarrow> 'v routeTable \<Rightarrow> 'v routeTable option" where
  "run_ops tun [] t = Some t"
| "run_ops tun (Ins p v # ops) t = Option.bind (insert_route p v t) (run_ops tun ops)"
| "run_ops tun (Rem p # ops) t = Option.bind (remove_route p t) (run_ops tun ops)"
| "run_ops tun (RemOwned p w # ops) t = Option.bind (removeOwned tun p w t) (run_ops tun ops)"

fun spec_ops :: "('v \<Rightarrow> 'o) \<Rightarrow> ('v, 'o) route_op list \<Rightarrow> (Prefix \<rightharpoonup> 'v) \<Rightarrow> (Prefix \<rightharpoonup> 'v)" where
  "spec_ops tun [] R = R"
| "spec_ops tun (Ins p v # ops) R = spec_ops tun ops (R(Masked p \<mapsto> v))"
| "spec_ops tun (Rem p # ops) R = spec_ops tun ops (R(Masked p := None))"
| "spec_ops tun (RemOwned p w # ops) R =
     spec_ops tun ops (if map_option tun (R (Masked p)) = Some w then R(Masked p := None) else R)"

lemma run_ops_abs:
  assumes "table_ok t" and "\<forall>p \<in> op_prefix ` set ops. pfx_valid p"
  shows "\<exists>t'. run_ops tun ops t = Some t' \<and> table_ok t' \<and> table_abs t' = spec_ops tun ops (table_abs t)"
  using assms
proof (induction tun ops t rule: run_ops.induct)
  case (2 tun p v ops t)
  then obtain t1 where "insert_route p v t = Some t1" "table_ok t1" "table_abs t1 = (table_abs t)(Masked p \<mapsto> v)"
    using insert_route_abs [of t p v] by auto
  then show ?case using 2 by simp
next
  case (3 tun p ops t)
  then obtain t1 where "remove_route p t = Some t1" "table_ok t1" "table_abs t1 = (table_abs t)(Masked p := None)"
    using remove_route_abs [of t p] by auto
  then show ?case using 3 by simp
next
  case (4 tun p w ops t)
  then obtain t1 where "removeOwned tun p w t = Some t1" "table_ok t1"
    "table_abs t1 = (if map_option tun (table_abs t (Masked p)) = Some w then (table_abs t)(Masked p := None) else table_abs t)"
    using removeOwned_abs [of t p tun w] by auto
  then show ?case using 4 by simp
qed simp

definition new_table :: "'v routeTable" where
  "new_table = \<lparr>root4 = None, root6 = None\<rparr>"

lemma new_table_simps: "table_ok new_table" "table_abs new_table = Map.empty"
  by (auto simp: new_table_def table_ok_def table_abs_def rootFor_def)

text \<open>
  C3: Longest-prefix match: after any history of insertions, removals and owner-checked removals
  of valid prefixes, every call of which returns, a lookup gives the entry of the longest prefix
  the table holds for the address, and nothing when no held prefix contains it.
\<close>

theorem lookup_longest_prefix:
  fixes tun :: "'v \<Rightarrow> 'o"
  assumes "\<forall>p \<in> op_prefix ` set ops. pfx_valid p" and "IsValid a"
  shows "\<exists>t. run_ops tun ops new_table = Some t
    \<and> (\<forall>v. lookup_route t a = Some v \<longleftrightarrow>
         (\<exists>p. longest_match (spec_ops tun ops Map.empty) a p \<and> spec_ops tun ops Map.empty p = Some v))"
proof -
  obtain t where t: "run_ops tun ops new_table = Some t" "table_ok t" "table_abs t = spec_ops tun ops Map.empty"
    using run_ops_abs [OF new_table_simps(1) assms(1), of tun] by (auto simp: new_table_simps)
  show ?thesis using t(1) table.look_abs [OF t(2) assms(2)] by (simp add: t(3))
qed

definition example_ops :: "(nat, nat) route_op list" where
  "example_ops = [Ins \<lparr>pfx_addr = Addr4 0, pfx_bits = 0\<rparr> 1, Ins \<lparr>pfx_addr = Addr4 0x0a000000, pfx_bits = 8\<rparr> 2,
     Ins \<lparr>pfx_addr = Addr4 0x0a010000, pfx_bits = 16\<rparr> 3, RemOwned \<lparr>pfx_addr = Addr4 0x0a010000, pfx_bits = 16\<rparr> 3]"

lemma example_ops_map:
  "spec_ops id example_ops Map.empty = [\<lparr>pfx_addr = Addr4 0, pfx_bits = 0\<rparr> \<mapsto> 1, \<lparr>pfx_addr = Addr4 0x0a000000, pfx_bits = 8\<rparr> \<mapsto> 2]"
  by (simp add: example_ops_def Masked_def clear_low_def fun_eq_iff)

theorem lookup_longest_prefix_witness:
  "\<exists>t. run_ops id example_ops new_table = Some t \<and> lookup_route t (Addr4 0x0a010203) = Some 2"
proof -
  have v: "\<forall>p \<in> op_prefix ` set example_ops. pfx_valid p" by (simp add: example_ops_def pfx_valid_def)
  have "longest_match (spec_ops id example_ops Map.empty) (Addr4 0x0a010203) \<lparr>pfx_addr = Addr4 0x0a000000, pfx_bits = 8\<rparr>"
    by (auto simp: example_ops_map longest_match_def Contains_def split: if_splits)
  moreover have "spec_ops id example_ops Map.empty \<lparr>pfx_addr = Addr4 0x0a000000, pfx_bits = 8\<rparr> = Some 2"
    by (simp add: example_ops_map)
  ultimately show ?thesis using lookup_longest_prefix [OF v, of "Addr4 0x0a010203" id] by auto
qed

end
