(* ===== verification/Admission.thy ===== *)
theory Admission
  imports Netip Complex_Main "HOL-Library.Signed_Division"
begin

text \<open>
  The admission gate of \<^verbatim>\<open>dataplane/admission.go\<close>: a cap on concurrent half-open handshakes
  and a token bucket per source address.  Times are nanoseconds of Go's monotonic clock.  The
  bucket counts in \<^verbatim>\<open>float64\<close>: every arithmetic operation is the real one followed by the
  rounding \<open>fl\<close>, a parameter of the model, of which the theorems use only that rounding a
  non-negative number keeps it non-negative and adds at most a relative error.
\<close>

section \<open>The gate\<close>

definition DefaultMaxHalfOpen :: int where "DefaultMaxHalfOpen = 512"

definition DefaultPerSourceRate :: real where "DefaultPerSourceRate = 10"

definition DefaultPerSourceBurst :: real where "DefaultPerSourceBurst = 20"

definition sourceIdleTimeout :: int where "sourceIdleTimeout = 5 * 60 * 1000000000"

record AdmissionConfig =
  MaxHalfOpen :: int
  PerSourceRate :: real
  PerSourceBurst :: real

definition withDefaults :: "AdmissionConfig \<Rightarrow> AdmissionConfig" where
  "withDefaults c0 =
     (let c1 = (if MaxHalfOpen c0 \<le> 0 then c0\<lparr>MaxHalfOpen := DefaultMaxHalfOpen\<rparr> else c0);
          c2 = (if PerSourceRate c1 \<le> 0 then c1\<lparr>PerSourceRate := DefaultPerSourceRate\<rparr> else c1)
      in if PerSourceBurst c2 \<le> 0 then c2\<lparr>PerSourceBurst := DefaultPerSourceBurst\<rparr> else c2)"

datatype RejectReason = Admitted | RejectedAtCapacity | RejectedRateLimited

record bucket =
  tokens :: real
  last_seen :: int

record Gate =
  cfg :: AdmissionConfig
  halfOpen :: int
  sources :: "Addr \<rightharpoonup> bucket"
  lastGC :: int

definition NewGate :: "AdmissionConfig \<Rightarrow> int \<Rightarrow> Gate" where
  "NewGate c now = \<lparr>cfg = withDefaults c, halfOpen = 0, sources = Map.empty, lastGC = now\<rparr>"

text \<open>The shapes of \<^verbatim>\<open>net.Addr\<close> a server's read loop produces.\<close>

datatype NetAddr = UDPAddr bytes | TCPAddr bytes | AddrPorter Addr | OtherAddr

definition addrOf :: "NetAddr \<Rightarrow> Addr" where
  "addrOf a = (case a of
     UDPAddr b \<Rightarrow> (case AddrFromSlice b of Some ip \<Rightarrow> Unmap ip | None \<Rightarrow> NoAddr)
   | TCPAddr b \<Rightarrow> (case AddrFromSlice b of Some ip \<Rightarrow> Unmap ip | None \<Rightarrow> NoAddr)
   | AddrPorter ip \<Rightarrow> Unmap ip
   | OtherAddr \<Rightarrow> NoAddr)"

text \<open>\<^verbatim>\<open>time.Time.Sub\<close> saturates; \<^verbatim>\<open>Duration.Seconds\<close> adds whole seconds and a fraction.\<close>

definition Sub :: "int \<Rightarrow> int \<Rightarrow> int" where
  "Sub a b = max (- (2 ^ 63)) (min (2 ^ 63 - 1) (a - b))"

definition Seconds :: "(real \<Rightarrow> real) \<Rightarrow> int \<Rightarrow> real" where
  "Seconds fl d = fl (fl (of_int (d sdiv 1000000000)) + fl (fl (of_int (d smod 1000000000)) / 1000000000))"

definition gc :: "int \<Rightarrow> Gate \<Rightarrow> Gate" where
  "gc now g =
     (if Sub now (lastGC g) < sourceIdleTimeout then g
      else g\<lparr>lastGC := now,
             sources := (\<lambda>a. case sources g a of
                           Some b \<Rightarrow> if Sub now (last_seen b) > sourceIdleTimeout then None else Some b
                         | None \<Rightarrow> None)\<rparr>)"

definition allowSource :: "(real \<Rightarrow> real) \<Rightarrow> Addr \<Rightarrow> int \<Rightarrow> Gate \<Rightarrow> bool \<times> Gate" where
  "allowSource fl addr now g =
     (let b = (case sources g addr of Some b \<Rightarrow> b
               | None \<Rightarrow> \<lparr>tokens = PerSourceBurst (cfg g), last_seen = now\<rparr>);
          elapsed = Seconds fl (Sub now (last_seen b));
          b1 = (if elapsed > 0
                then \<lparr>tokens = min (fl (tokens b + fl (elapsed * PerSourceRate (cfg g)))) (PerSourceBurst (cfg g)),
                      last_seen = now\<rparr>
                else b)
      in if tokens b1 < 1 then (False, g\<lparr>sources := (sources g)(addr \<mapsto> b1)\<rparr>)
         else (True, g\<lparr>sources := (sources g)(addr \<mapsto> b1\<lparr>tokens := fl (tokens b1 - 1)\<rparr>)\<rparr>))"

definition Admit :: "(real \<Rightarrow> real) \<Rightarrow> NetAddr \<Rightarrow> int \<Rightarrow> Gate \<Rightarrow> RejectReason \<times> Gate" where
  "Admit fl from now g =
     (case allowSource fl (addrOf from) now (gc now g) of
        (False, g1) \<Rightarrow> (RejectedRateLimited, g1)
      | (True, g1) \<Rightarrow>
          if halfOpen g1 \<ge> MaxHalfOpen (cfg g1) then (RejectedAtCapacity, g1)
          else (Admitted, g1\<lparr>halfOpen := halfOpen g1 + 1\<rparr>))"

definition Done :: "Gate \<Rightarrow> Gate" where
  "Done g = (if halfOpen g > 0 then g\<lparr>halfOpen := halfOpen g - 1\<rparr> else g)"

section \<open>Histories\<close>

text \<open>
  A history of a gate: handshakes that ask for admission at a time, and reservations given back.
  \<open>run_gate\<close> collects the verdicts.
\<close>

datatype gate_event = EvAdmit NetAddr int | EvDone

fun run_gate :: "(real \<Rightarrow> real) \<Rightarrow> gate_event list \<Rightarrow> Gate \<Rightarrow> (NetAddr \<times> RejectReason) list \<times> Gate" where
  "run_gate fl [] g = ([], g)"
| "run_gate fl (EvAdmit a now # es) g =
     (let (r, g1) = Admit fl a now g; (rs, g2) = run_gate fl es g1 in ((a, r) # rs, g2))"
| "run_gate fl (EvDone # es) g = run_gate fl es (Done g)"

fun times_from :: "int \<Rightarrow> gate_event list \<Rightarrow> bool" where
  "times_from t [] = True"
| "times_from t (EvAdmit a now # es) = (t \<le> now \<and> times_from now es)"
| "times_from t (EvDone # es) = times_from t es"

fun last_time :: "int \<Rightarrow> gate_event list \<Rightarrow> int" where
  "last_time t [] = t"
| "last_time t (EvAdmit a now # es) = last_time now es"
| "last_time t (EvDone # es) = last_time t es"

fun n_admit :: "gate_event list \<Rightarrow> nat" where
  "n_admit [] = 0"
| "n_admit (EvAdmit a now # es) = Suc (n_admit es)"
| "n_admit (EvDone # es) = n_admit es"

definition admitted_from :: "Addr \<Rightarrow> (NetAddr \<times> RejectReason) list \<Rightarrow> nat" where
  "admitted_from s rs = length (filter (\<lambda>(a, r). addrOf a = s \<and> r = Admitted) rs)"

text \<open>Reservations outstanding, as the callers count them.\<close>

fun outstanding :: "(real \<Rightarrow> real) \<Rightarrow> gate_event list \<Rightarrow> Gate \<Rightarrow> int \<Rightarrow> int" where
  "outstanding fl [] g n = n"
| "outstanding fl (EvAdmit a now # es) g n =
     (let (r, g1) = Admit fl a now g in outstanding fl es g1 (if r = Admitted then n + 1 else n))"
| "outstanding fl (EvDone # es) g n = outstanding fl es (Done g) (if n > 0 then n - 1 else n)"

section \<open>The cap\<close>

lemma allowSource_keeps:
  "cfg (snd (allowSource fl a now g)) = cfg g" "halfOpen (snd (allowSource fl a now g)) = halfOpen g"
  by (simp_all add: allowSource_def Let_def)

lemma gc_keeps [simp]: "cfg (gc now g) = cfg g" "halfOpen (gc now g) = halfOpen g"
  by (simp_all add: gc_def)

lemma Admit_halfOpen:
  assumes "Admit fl a now g = (r, g')"
  shows "cfg g' = cfg g" "halfOpen g' = (if r = Admitted then halfOpen g + 1 else halfOpen g)"
    "r = Admitted \<Longrightarrow> halfOpen g < MaxHalfOpen (cfg g)"
  using assms allowSource_keeps [of fl "addrOf a" now "gc now g"]
  by (auto simp: Admit_def split: prod.splits bool.splits if_splits)

lemma run_gate_cap:
  assumes "0 \<le> halfOpen g" and "halfOpen g \<le> MaxHalfOpen (cfg g)"
  shows "let g' = snd (run_gate fl es g) in cfg g' = cfg g \<and> halfOpen g' = outstanding fl es g (halfOpen g)
     \<and> 0 \<le> halfOpen g' \<and> halfOpen g' \<le> MaxHalfOpen (cfg g)"
  using assms
proof (induction fl es g rule: run_gate.induct)
  case (2 fl a now es g)
  obtain r g1 where A: "Admit fl a now g = (r, g1)" by fastforce
  have "cfg g1 = cfg g" "0 \<le> halfOpen g1" "halfOpen g1 \<le> MaxHalfOpen (cfg g1)"
    "halfOpen g1 = (if r = Admitted then halfOpen g + 1 else halfOpen g)"
    using Admit_halfOpen [OF A] 2(2,3) by auto
  then show ?case using 2(1) [OF A [symmetric] refl] A by (auto simp: Let_def split: prod.splits)
next
  case (3 fl es g)
  then show ?case by (auto simp: Let_def Done_def)
qed simp

section \<open>The rate\<close>

definition fl_ok :: "(real \<Rightarrow> real) \<Rightarrow> real \<Rightarrow> bool" where
  "fl_ok fl e \<longleftrightarrow> 0 \<le> e \<and> mono fl \<and> (\<forall>x. 0 \<le> x \<longrightarrow> 0 \<le> fl x \<and> fl x \<le> (1 + e) * x)"

lemma fl_okD:
  assumes "fl_ok fl e" and "0 \<le> x"
  shows "0 \<le> fl x" "fl x \<le> (1 + e) * x"
  using assms by (simp_all add: fl_ok_def)

lemma fl_le:
  assumes "fl_ok fl e" and "0 \<le> x" and "x \<le> (1 + e) ^ n * y"
  shows "fl x \<le> (1 + e) ^ Suc n * y"
proof -
  have "fl x \<le> (1 + e) * x" using fl_okD [OF assms(1,2)] by simp
  also have "\<dots> \<le> (1 + e) * ((1 + e) ^ n * y)" using assms(1,3) by (intro mult_left_mono) (auto simp: fl_ok_def)
  finally show ?thesis by simp
qed

lemma Seconds_bounds:
  assumes fl: "fl_ok fl e" and "0 \<le> d"
  shows "0 \<le> Seconds fl d" "Seconds fl d \<le> (1 + e) ^ 3 * (of_int d / 1000000000)"
proof -
  define q r where "q = d div 1000000000" and "r = d mod 1000000000"
  have sq: "d sdiv 1000000000 = q" "d smod 1000000000 = r"
    using assms(2) by (simp_all add: q_def r_def signed_divide_int_def signed_modulo_int_def minus_div_mult_eq_mod sgn_if)
  have nn: "0 \<le> q" "0 \<le> r" using assms(2) by (simp_all add: q_def r_def pos_imp_zdiv_nonneg_iff)
  have d: "real_of_int d / 1000000000 = of_int q + of_int r / 1000000000"
    using div_mult_mod_eq [of d 1000000000] unfolding q_def [symmetric] r_def [symmetric]
    by (simp add: field_simps flip: of_int_mult of_int_add)
  have e0: "0 \<le> e" using fl by (simp add: fl_ok_def)
  have a: "0 \<le> fl (of_int q)" "fl (of_int q) \<le> (1 + e) * of_int q" using fl_okD [OF fl] nn by simp_all
  have b0: "0 \<le> fl (of_int r)" "fl (of_int r) \<le> (1 + e) * of_int r" using fl_okD [OF fl] nn by simp_all
  have b: "0 \<le> fl (fl (of_int r) / 1000000000)" "fl (fl (of_int r) / 1000000000) \<le> (1 + e) ^ 2 * (of_int r / 1000000000)"
    using fl_okD(1) [OF fl] fl_le [OF fl, of "fl (of_int r) / 1000000000" 1 "of_int r / 1000000000"] b0
    by (simp_all add: power2_eq_square)
  have "(1 + e) * of_int q \<le> (1 + e) ^ 2 * of_int q"
    using nn e0 by (intro mult_right_mono) (simp_all add: power2_eq_square algebra_simps)
  then have "fl (of_int q) + fl (fl (of_int r) / 1000000000) \<le> (1 + e) ^ 2 * (of_int d / 1000000000)"
    using a(2) b(2) by (simp add: d distrib_left)
  from fl_le [OF fl _ this] show "Seconds fl d \<le> (1 + e) ^ 3 * (of_int d / 1000000000)"
    using a(1) b(1) by (simp add: Seconds_def sq numeral_3_eq_3 numeral_2_eq_2)
  show "0 \<le> Seconds fl d" using fl_okD(1) [OF fl] a(1) b(1) by (simp add: Seconds_def sq)
qed

text \<open>
  Accounting for one source: the handshakes it was allowed so far, with what its bucket holds, are
  covered by the burst, the rate over the time passed, and the rounding of \<open>k\<close> calls.
\<close>

definition nsec_rate :: "real \<Rightarrow> real \<Rightarrow> real" where
  "nsec_rate e R = (1 + e) ^ 5 * R / 1000000000"

definition covered :: "real \<Rightarrow> int \<Rightarrow> Addr \<Rightarrow> real \<Rightarrow> real \<Rightarrow> int \<Rightarrow> Gate \<Rightarrow> bool" where
  "covered e t0 s n k now g \<longleftrightarrow>
     (let B = PerSourceBurst (cfg g); c = nsec_rate e (PerSourceRate (cfg g)); slack = k * (2 * e * B) in
      case sources g s of
        None \<Rightarrow> n \<le> c * of_int (now - t0) + slack
      | Some b \<Rightarrow> 0 \<le> tokens b \<and> tokens b \<le> B \<and> t0 \<le> last_seen b \<and> last_seen b \<le> now
          \<and> n + tokens b \<le> B + c * of_int (last_seen b - t0) + slack)"

text \<open>
  The configurations of the theorems: positive rate and burst, the burst a \<^verbatim>\<open>float64\<close>, and
  small enough to refill within the idle timeout, as the defaults are.
\<close>

definition cfg_ok :: "(real \<Rightarrow> real) \<Rightarrow> AdmissionConfig \<Rightarrow> bool" where
  "cfg_ok fl c \<longleftrightarrow> fl (PerSourceBurst c) = PerSourceBurst c \<and> 0 < PerSourceRate c \<and> 0 < PerSourceBurst c \<and> PerSourceBurst c \<le> 300 * PerSourceRate c"

lemma nsec_rate_ge: "0 \<le> e \<Longrightarrow> 0 \<le> R \<Longrightarrow> R / 1000000000 \<le> nsec_rate e R"
  using mult_right_mono [of 1 "(1 + e) ^ 5" R] one_le_power [of "1 + e" 5] by (simp add: nsec_rate_def divide_right_mono)

lemma covered_later:
  assumes "covered e t0 s n k now g" and "now \<le> now'" and "k \<le> k'" and "0 \<le> e" and "cfg_ok fl (cfg g)"
  shows "covered e t0 s n k' now' g"
proof -
  let ?B = "PerSourceBurst (cfg g)" and ?c = "nsec_rate e (PerSourceRate (cfg g))"
  have "0 \<le> ?B" "0 \<le> ?c" using assms(4,5) nsec_rate_ge [of e "PerSourceRate (cfg g)"] by (auto simp: cfg_ok_def intro: order_trans [rotated])
  then have "k * (2 * e * ?B) \<le> k' * (2 * e * ?B)" "?c * of_int (now - t0) \<le> ?c * of_int (now' - t0)"
    using assms(2-4) by (auto intro!: mult_right_mono mult_left_mono mult_nonneg_nonneg)
  then show ?thesis using assms(1,2) by (auto simp: covered_def Let_def split: option.splits)
qed

lemma covered_gc:
  assumes "covered e t0 s n k now g" and "0 \<le> e" and "cfg_ok fl (cfg g)"
  shows "covered e t0 s n k now (gc now g)"
proof (cases "sources (gc now g) s = sources g s")
  case True
  then show ?thesis using assms(1) by (simp add: covered_def)
next
  case False
  then obtain b where b: "sources g s = Some b" "Sub now (last_seen b) > sourceIdleTimeout" "sources (gc now g) s = None"
    by (auto simp: gc_def split: option.splits if_splits)
  let ?B = "PerSourceBurst (cfg g)" and ?R = "PerSourceRate (cfg g)"
  let ?c = "nsec_rate e ?R"
  have "300000000000 \<le> now - last_seen b" using b(2) by (auto simp: Sub_def sourceIdleTimeout_def)
  then have "(300000000000 :: real) \<le> of_int (now - last_seen b)" 
    using of_int_le_iff [where ?'a = real, of 300000000000 "now - last_seen b"] by simp
  moreover have r: "?R / 1000000000 \<le> ?c" "0 \<le> ?R / 1000000000" using assms(2,3) nsec_rate_ge by (auto simp: cfg_ok_def)
  ultimately have "?R / 1000000000 * 300000000000 \<le> ?c * of_int (now - last_seen b)" by (intro mult_mono) auto
  then have "?B \<le> ?c * of_int (now - last_seen b)" using assms(3) by (simp add: cfg_ok_def)
  then have "?B + ?c * of_int (last_seen b - t0) \<le> ?c * of_int (now - last_seen b) + ?c * of_int (last_seen b - t0)" by simp
  also have "\<dots> = ?c * of_int (now - t0)" by (simp add: algebra_simps)
  finally show ?thesis using assms(1) b(1,3) by (auto simp: covered_def Let_def)
qed

text \<open>The bucket a call works on: the refilled one, or a full one for a new source.\<close>

definition refilled :: "(real \<Rightarrow> real) \<Rightarrow> Addr \<Rightarrow> int \<Rightarrow> Gate \<Rightarrow> bucket" where
  "refilled fl addr now g =
     (let b = (case sources g addr of Some b \<Rightarrow> b
               | None \<Rightarrow> \<lparr>tokens = PerSourceBurst (cfg g), last_seen = now\<rparr>);
          elapsed = Seconds fl (Sub now (last_seen b))
      in if elapsed > 0
         then \<lparr>tokens = min (fl (tokens b + fl (elapsed * PerSourceRate (cfg g)))) (PerSourceBurst (cfg g)),
               last_seen = now\<rparr>
         else b)"

lemma allowSource_refilled:
  "allowSource fl addr now g =
     (let b1 = refilled fl addr now g in
      if tokens b1 < 1 then (False, g\<lparr>sources := (sources g)(addr \<mapsto> b1)\<rparr>)
      else (True, g\<lparr>sources := (sources g)(addr \<mapsto> b1\<lparr>tokens := fl (tokens b1 - 1)\<rparr>)\<rparr>))"
  by (simp add: allowSource_def refilled_def Let_def)

lemma refill_bound:
  assumes fl: "fl_ok fl e" and "0 \<le> tok" and "tok \<le> B" and "0 \<le> R" and "0 \<le> d"
  shows "0 \<le> fl (tok + fl (Seconds fl d * R))"
    "fl (tok + fl (Seconds fl d * R)) \<le> tok + nsec_rate e R * of_int d + e * B"
proof -
  have e0: "0 \<le> e" using fl by (simp add: fl_ok_def)
  note S = Seconds_bounds [OF fl assms(5)]
  have "Seconds fl d * R \<le> (1 + e) ^ 3 * (of_int d / 1000000000) * R" using S(2) assms(4) by (rule mult_right_mono)
  then have y: "fl (Seconds fl d * R) \<le> (1 + e) ^ 4 * (of_int d / 1000000000 * R)"
    using fl_le [OF fl, of "Seconds fl d * R" 3 "of_int d / 1000000000 * R"] S(1) assms(4) by (simp add: eval_nat_numeral mult.assoc)
  have y0: "0 \<le> fl (Seconds fl d * R)" using fl_okD(1) [OF fl] S(1) assms(4) by simp
  have "fl (tok + fl (Seconds fl d * R)) \<le> (1 + e) * (tok + fl (Seconds fl d * R))"
    using fl_okD(2) [OF fl] y0 assms(2) by simp
  also have "\<dots> = tok + e * tok + (1 + e) * fl (Seconds fl d * R)" by (simp add: algebra_simps)
  also have "\<dots> \<le> tok + e * B + (1 + e) * ((1 + e) ^ 4 * (of_int d / 1000000000 * R))"
    using y assms(3) e0 by (intro add_mono mult_left_mono) auto
  also have "(1 + e) * ((1 + e) ^ 4 * (of_int d / 1000000000 * R)) = nsec_rate e R * of_int d"
    by (simp add: nsec_rate_def eval_nat_numeral)
  finally show "fl (tok + fl (Seconds fl d * R)) \<le> tok + nsec_rate e R * of_int d + e * B"
    by (simp add: algebra_simps)
  show "0 \<le> fl (tok + fl (Seconds fl d * R))" using fl_okD(1) [OF fl] y0 assms(2) by simp
qed

text \<open>After a refill the books carry the first half of one call's rounding.\<close>

lemma covered_refilled:
  assumes fl: "fl_ok fl e" and c: "covered e t0 s n k now g" and ok: "cfg_ok fl (cfg g)" and "t0 \<le> now"
  defines "b \<equiv> refilled fl s now g" and "B \<equiv> PerSourceBurst (cfg g)" and "c \<equiv> nsec_rate e (PerSourceRate (cfg g))"
  shows "0 \<le> tokens b \<and> tokens b \<le> B \<and> t0 \<le> last_seen b \<and> last_seen b \<le> now
    \<and> n + tokens b \<le> B + c * of_int (last_seen b - t0) + k * (2 * e * B) + e * B"
proof (cases "sources g s")
  case None
  have eB: "0 \<le> e * B" "0 < B" using fl ok by (auto simp: fl_ok_def cfg_ok_def B_def)
  have "n \<le> c * of_int (now - t0) + k * (2 * e * B)"
    using None c unfolding covered_def Let_def B_def c_def by simp
  then have "n + B \<le> B + c * of_int (now - t0) + k * (2 * e * B) + e * B" using eB by linarith
  moreover have "b = \<lparr>tokens = B, last_seen = now\<rparr>"
    using Seconds_bounds(2) [OF fl, of 0] None by (simp add: b_def refilled_def Sub_def B_def)
  ultimately show ?thesis using eB assms(4) by simp
next
  case (Some b0)
  then have b0: "0 \<le> tokens b0" "tokens b0 \<le> B" "t0 \<le> last_seen b0" "last_seen b0 \<le> now"
    "n + tokens b0 \<le> B + c * of_int (last_seen b0 - t0) + k * (2 * e * B)"
    using c by (simp_all add: covered_def Let_def B_def c_def)
  define d where "d = Sub now (last_seen b0)"
  have d: "0 \<le> d" "d \<le> now - last_seen b0" using b0(4) by (auto simp: d_def Sub_def)
  have R: "0 \<le> PerSourceRate (cfg g)" and Bp: "0 < B" using ok by (simp_all add: cfg_ok_def B_def)
  have e0: "0 \<le> e" and eB: "0 \<le> e * B" using fl Bp by (auto simp: fl_ok_def)
  have c0: "0 \<le> c" using nsec_rate_ge [OF e0 R] R by (simp add: c_def)
  note rf = refill_bound [OF fl b0(1,2) R d(1), folded c_def]
  show ?thesis
  proof (cases "Seconds fl d > 0")
    case True
    then have b: "tokens b = min (fl (tokens b0 + fl (Seconds fl d * PerSourceRate (cfg g)))) B" "last_seen b = now"
      using Some by (simp_all add: b_def refilled_def Let_def d_def B_def)
    have "c * of_int d \<le> c * of_int (now - last_seen b0)" using c0 d(2) by (intro mult_left_mono) simp_all
    moreover have "c * of_int (last_seen b0 - t0) + c * of_int (now - last_seen b0) = c * of_int (now - t0)"
      by (simp add: algebra_simps)
    moreover have "tokens b \<le> tokens b0 + c * of_int d + e * B" using b(1) rf(2) by simp
    ultimately have "n + tokens b \<le> B + c * of_int (now - t0) + k * (2 * e * B) + e * B"
      using b0(5) by linarith
    moreover have "0 \<le> tokens b" "tokens b \<le> B" using b(1) rf(1) Bp by auto
    ultimately show ?thesis using b(2) b0(3,4) by auto
  next
    case False
    then have "b = b0" using Some by (simp add: b_def refilled_def Let_def d_def)
    then show ?thesis using b0 eB by simp
  qed
qed

lemma covered_allow:
  assumes fl: "fl_ok fl e" and c: "covered e t0 s n k now g" and ok: "cfg_ok fl (cfg g)" and "t0 \<le> now"
    and a: "allowSource fl a now g = (r, g')"
  shows "covered e t0 s (if a = s \<and> r then n + 1 else n) (k + 1) now g'"
proof (cases "a = s")
  case False
  have "sources g' s = sources g s" "cfg g' = cfg g"
    using a False by (auto simp: allowSource_refilled Let_def split: if_splits)
  moreover have "covered e t0 s n (k + 1) now g"
    using covered_later [OF c order_refl _ _ ok] fl by (simp add: fl_ok_def)
  ultimately show ?thesis using False by (simp add: covered_def)
next
  case True
  let ?B = "PerSourceBurst (cfg g)" and ?b = "refilled fl s now g"
  note R = covered_refilled [OF fl c ok assms(4)]
  have e0: "0 \<le> e" and Bp: "0 < ?B" using fl ok by (auto simp: fl_ok_def cfg_ok_def)
  have slack: "(k + 1) * (2 * e * ?B) = k * (2 * e * ?B) + e * ?B + e * ?B" by (simp add: algebra_simps)
  have eB: "0 \<le> e * ?B" using e0 Bp by simp
  show ?thesis
  proof (cases "tokens ?b < 1")
    case low: True
    then have g': "r = False" "sources g' s = Some ?b" "cfg g' = cfg g"
      using a True by (auto simp: allowSource_refilled Let_def)
    have "n + tokens ?b \<le> ?B + nsec_rate e (PerSourceRate (cfg g)) * of_int (last_seen ?b - t0) + (k + 1) * (2 * e * ?B)"
      unfolding slack using R eB by linarith
    then show ?thesis unfolding covered_def Let_def g' option.case using R by simp
  next
    case high: False
    then have g': "r = True" "sources g' s = Some (?b\<lparr>tokens := fl (tokens ?b - 1)\<rparr>)" "cfg g' = cfg g"
      using a True by (auto simp: allowSource_refilled Let_def)
    have t: "0 \<le> fl (tokens ?b - 1)" "fl (tokens ?b - 1) \<le> (1 + e) * (tokens ?b - 1)"
      using fl_okD [OF fl, of "tokens ?b - 1"] high by simp_all
    have "fl (tokens ?b - 1) \<le> fl ?B" using fl R by (intro monoD [of fl]) (auto simp: fl_ok_def)
    then have top: "fl (tokens ?b - 1) \<le> ?B" using ok by (simp add: cfg_ok_def)
    have "e * (tokens ?b - 1) \<le> e * ?B" using e0 R by (intro mult_left_mono) auto
    then have "n + 1 + fl (tokens ?b - 1) \<le> ?B + nsec_rate e (PerSourceRate (cfg g)) * of_int (last_seen ?b - t0) + (k + 1) * (2 * e * ?B)"
      unfolding slack using R t(2) by (simp add: algebra_simps)
    then show ?thesis unfolding covered_def Let_def g' option.case using R t(1) top True by simp
  qed
qed

lemma covered_Admit:
  assumes fl: "fl_ok fl e" and c: "covered e t0 s n k now g" and ok: "cfg_ok fl (cfg g)" and "t0 \<le> now" and "now \<le> now'"
    and a: "Admit fl a now' g = (r, g')"
  shows "covered e t0 s (if addrOf a = s \<and> r = Admitted then n + 1 else n) (k + 1) now' g'"
proof -
  obtain b g1 where g1: "allowSource fl (addrOf a) now' (gc now' g) = (b, g1)" by fastforce
  have e0: "0 \<le> e" using fl by (simp add: fl_ok_def)
  have "covered e t0 s n k now' g" using covered_later [OF c assms(5) order_refl e0 ok] .
  then have "covered e t0 s n k now' (gc now' g)" using covered_gc [OF _ e0 ok] by blast
  from covered_allow [OF fl this _ _ g1] have
    c1: "covered e t0 s (if addrOf a = s \<and> b then n + 1 else n) (k + 1) now' g1"
    using ok assms(4,5) by simp
  have g': "sources g' = sources g1" "cfg g' = cfg g1" and r: "r = Admitted \<Longrightarrow> b"
    using a g1 by (auto simp: Admit_def split: bool.splits if_splits)
  from c1 have "covered e t0 s (if addrOf a = s \<and> b then n + 1 else n) (k + 1) now' g'"
    using g' by (simp add: covered_def)
  then show ?thesis using r by (auto simp: covered_def Let_def split: if_splits option.splits)
qed

lemma covered_run:
  assumes "fl_ok fl e" and "covered e t0 s n k now g" and "cfg_ok fl (cfg g)" and "t0 \<le> now" and "times_from now es"
  shows "covered e t0 s (n + admitted_from s (fst (run_gate fl es g))) (k + n_admit es) (last_time now es) (snd (run_gate fl es g))
    \<and> cfg (snd (run_gate fl es g)) = cfg g \<and> t0 \<le> last_time now es"
  using assms
proof (induction fl es g arbitrary: n k now rule: run_gate.induct)
  case (1 fl g)
  then show ?case by (simp add: admitted_from_def)
next
  case (2 fl a t es g)
  obtain r g1 where A: "Admit fl a t g = (r, g1)" by fastforce
  have cfg: "cfg g1 = cfg g" using Admit_halfOpen(1) [OF A] .
  have t: "now \<le> t" "times_from t es" "t0 \<le> t" using 2(5,6) by auto
  have c1: "covered e t0 s (if addrOf a = s \<and> r = Admitted then n + 1 else n) (k + 1) t g1"
    using covered_Admit [OF 2(2-5) t(1) A] .
  note IH = 2(1) [OF A [symmetric] refl 2(2) c1 _ t(3,2)]
  have x: "real (admitted_from s ((a, r) # rs)) = (if addrOf a = s \<and> r = Admitted then 1 else 0) + real (admitted_from s rs)" for rs
    by (simp add: admitted_from_def)
  show ?case using IH cfg 2(4) A x by (auto simp: case_prod_beta add.assoc add.commute add.left_commute)
next
  case (3 fl es g)
  have "covered e t0 s n k now (Done g)" "cfg (Done g) = cfg g" using 3(3) by (auto simp: covered_def Done_def)
  then show ?case using 3 by simp
qed


definition example_history :: "gate_event list" where
  "example_history = [EvAdmit (UDPAddr [10, 0, 0, 1]) 0, EvAdmit (UDPAddr [10, 0, 0, 1]) 1000000000, EvDone,
     EvAdmit (TCPAddr [10, 0, 0, 1]) 2000000000]"


end
