(* ===== verification/Checksum.thy ===== *)
theory Checksum
  imports Prelude
begin

text \<open>
  The internet checksum of \<^verbatim>\<open>dataplane/icmp.go\<close> (RFC 1071): the running 32-bit sum, its
  fold to 16 bits, and what makes a receiver accept it: a buffer that carries its own checksum sums
  to zero.
\<close>

section \<open>Accumulate and fold\<close>

fun checksumAccumulate :: "u32 \<Rightarrow> bytes \<Rightarrow> u32" where
  "checksumAccumulate s (a # b # r) = checksumAccumulate (s + ucast (get16 0 [a, b])) r"
| "checksumAccumulate s [a] = s + push_bit 8 (ucast a)"
| "checksumAccumulate s [] = s"

lemma unat_high: "unat (drop_bit 16 (s :: u32)) = unat s div 65536"
  using unat_drop_bit_div [of 16 s] by simp

lemma unat_low: "unat ((s :: u32) AND 0xffff) = unat s mod 65536"
  using unat_and_low [of "0xffff :: u32" 16 s] by (simp add: mask_eq_exp_minus_1)

lemma fold_decreases:
  assumes "drop_bit 16 s \<noteq> (0 :: u32)"
  shows "unat ((s AND 0xffff) + drop_bit 16 s) < unat s"
proof -
  note h = unat_high and l = unat_low
  have "unat s div 65536 > 0" using assms h by (metis gr0I unsigned_0 word_unat_eq_iff)
  moreover have "unat s = 65536 * (unat s div 65536) + unat s mod 65536" by simp
  ultimately have "unat s mod 65536 + unat s div 65536 < unat s" by linarith
  then show ?thesis using h l unat_add_lem [of "s AND 0xffff" "drop_bit 16 s"] unsigned_less [of s, where ?'a = nat]
    by (metis (no_types) less_trans unat_add_lem)
qed

function checksumFold :: "u32 \<Rightarrow> u16" where
  "checksumFold s = (if drop_bit 16 s \<noteq> 0 then checksumFold ((s AND 0xffff) + drop_bit 16 s) else NOT (ucast s))"
  by auto
termination
proof (relation "measure unat")
  fix s :: u32
  assume "drop_bit 16 s \<noteq> 0"
  then show "((s AND 0xffff) + drop_bit 16 s, s) \<in> measure unat" unfolding in_measure by (rule fold_decreases)
qed (rule wf_measure)

declare checksumFold.simps [simp del]

definition onesComplement :: "bytes \<Rightarrow> u16" where
  "onesComplement b = checksumFold (checksumAccumulate 0 b)"

section \<open>The sum over the integers\<close>

fun wsum :: "bytes \<Rightarrow> nat" where
  "wsum (a # b # r) = unat a * 256 + unat b + wsum r"
| "wsum [a] = unat a * 256"
| "wsum [] = 0"

lemma get16_pair: "unat (get16 0 [a, b]) = unat a * 256 + unat b"
proof -
  have "unat a * 256 + unat b < 2 ^ LENGTH(16)" using unat_byte_le [of a] unat_byte_le [of b] by simp
  moreover have "be_val (slice 0 (0 + 2) [a, b]) = unat a * 256 + unat b" by (simp add: slice_def be_val_def)
  ultimately show ?thesis unfolding get16_def by (simp only: unat_of_nat_small)
qed

lemma checksumAccumulate_wsum: "checksumAccumulate s b = s + of_nat (wsum b)"
proof (induction s b rule: checksumAccumulate.induct)
  case (1 s a b r)
  have "(ucast (get16 0 [a, b]) :: u32) = of_nat (unat (get16 0 [a, b]))" by simp
  then show ?case using 1 by (simp add: get16_pair add.assoc)
next
  case (2 s a)
  have "(ucast a :: u32) = of_nat (unat a)" by simp
  then show ?case by (simp add: push_bit_eq_mult)
qed simp

lemma wsum_append: "even (length xs) \<Longrightarrow> wsum (xs @ ys) = wsum xs + wsum ys"
  by (induction xs rule: wsum.induct) simp_all

lemma wsum_bound: "2 * wsum b \<le> 65535 * (length b + 1)"
proof (induction b rule: wsum.induct)
  case (1 a b r)
  then show ?case using unat_byte_le [of a] unat_byte_le [of b] by simp
next
  case (2 a)
  then show ?case using unat_byte_le [of a] by simp
qed simp

text \<open>Folding keeps the residue modulo 65535, and yields zero only for zero.\<close>

lemma checksumFold_residue:
  "\<exists>c. checksumFold s = NOT (of_nat c) \<and> c < 65536 \<and> c mod 65535 = unat s mod 65535 \<and> (c = 0 \<longleftrightarrow> unat s = 0)"
proof (induction s rule: checksumFold.induct)
  case (1 s)
  note h = unat_high and l = unat_low
  show ?case
  proof (cases "drop_bit 16 s = 0")
    case True
    then have "unat s div 65536 = 0" using h [of s] by simp
    then have "unat s < 65536" by (simp add: div_eq_0_iff)
    then show ?thesis using True by (subst checksumFold.simps) (intro exI [of _ "unat s"], simp)
  next
    case False
    let ?t = "(s AND 0xffff) + drop_bit 16 s"
    have "unat s mod 65536 + unat s div 65536 < 2 ^ 32" using unsigned_less [of s, where ?'a = nat] by simp
    then have t: "unat ?t = unat s mod 65536 + unat s div 65536" using h l by (simp add: unat_word_ariths)
    have sp: "unat s = unat s mod 65536 + 65536 * (unat s div 65536)" by simp
    have "unat s mod 65535 = (unat s mod 65536 + 65536 * (unat s div 65536)) mod 65535" using sp by metis
    also have "\<dots> = (unat s mod 65536 + (65536 mod 65535) * (unat s div 65536)) mod 65535"
      by (metis (no_types) mod_add_right_eq mod_mult_left_eq)
    also have "\<dots> = unat ?t mod 65535" by (simp add: t)
    finally have r: "unat ?t mod 65535 = unat s mod 65535" ..
    have z: "unat ?t = 0 \<longleftrightarrow> unat s = 0" using t sp by linarith
    from 1 [OF False] r z show ?thesis using False by (subst checksumFold.simps) auto
  qed
qed

lemma checksumFold_zero_iff: "unat s > 0 \<Longrightarrow> unat s mod 65535 = 0 \<Longrightarrow> checksumFold s = 0"
proof -
  assume s: "unat s > 0" "unat s mod 65535 = 0"
  obtain c where c: "checksumFold s = NOT (of_nat c)" "c < 65536" "c mod 65535 = 0" "c \<noteq> 0"
    using checksumFold_residue [of s] s by auto
  obtain k where "c = 65535 * k" using c(3) by (metis mod_0_imp_dvd dvdE)
  then have "c = 65535" using c(2,4) by (cases "k = 1") auto
  then show ?thesis using c(1) by simp
qed

section \<open>A stored checksum verifies\<close>

lemma wsum_be16: "wsum (be16 w) = unat w"
proof -
  obtain a b where ab: "be16 w = [a, b]"
  proof (cases "be16 w")
    case (Cons a r)
    then show thesis using that length_be16 [of w] by (cases r) auto
  qed (use length_be16 [of w] in simp)
  have "be_val (be16 w) = unat w" by simp
  then show ?thesis by (simp add: ab be_val_Cons)
qed

lemma wsum_put16:
  assumes "even i" and "i + 2 \<le> length b" and "slice i (i + 2) b = [0, 0]"
  shows "wsum (put_at i (be16 w) b) = wsum b + unat w"
proof -
  have "take i b @ [0, 0] @ drop (i + 2) b = b" using slice_parts [of i "i + 2" b] assms(3) by simp
  then have "wsum b = wsum (take i b @ [0, 0] @ drop (i + 2) b)" by simp
  then have "wsum b = wsum (take i b) + wsum (drop (i + 2) b)" using assms(1,2) by (simp add: wsum_append)
  moreover have "wsum (put_at i (be16 w) b) = wsum (take i b) + (unat w + wsum (drop (i + 2) b))"
    using assms(1,2) by (simp add: put_at_def wsum_append wsum_be16)
  ultimately show ?thesis by simp
qed

text \<open>\<open>p\<close> stands for what a pseudo-header adds to the sum.\<close>

lemma stored_checksum_verifies:
  assumes "even i" and "i + 2 \<le> length b" and "slice i (i + 2) b = [0, 0]" and "p + wsum b + 65535 < 2 ^ 32"
  shows "checksumFold (of_nat (p + wsum (put_at i (be16 (checksumFold (of_nat (p + wsum b)))) b))) = 0"
proof -
  let ?n = "p + wsum b"
  have n: "unat (of_nat ?n :: u32) = ?n" using assms(4) by (intro unat_of_nat_small) simp
  obtain c where c: "checksumFold (of_nat ?n) = NOT (of_nat c)" "c < 65536" "c mod 65535 = ?n mod 65535" "c = 0 \<longleftrightarrow> ?n = 0"
    using checksumFold_residue [of "of_nat ?n"] n by auto
  have "unat (NOT (of_nat c :: u16)) = 65535 - c"
    using c(2) by (simp only: unat_NOT) (simp add: unat_of_nat_small)
  then have "wsum (put_at i (be16 (checksumFold (of_nat ?n))) b) = wsum b + (65535 - c)"
    using wsum_put16 [OF assms(1-3)] c(1) by simp
  then have t: "p + wsum (put_at i (be16 (checksumFold (of_nat ?n))) b) = ?n + (65535 - c)" by simp
  have m: "unat (of_nat (?n + (65535 - c)) :: u32) = ?n + (65535 - c)"
    using assms(4) by (intro unat_of_nat_small) simp
  have "(?n + (65535 - c)) mod 65535 = (c + (65535 - c)) mod 65535" using c(3) by (metis mod_add_left_eq)
  then have "(?n + (65535 - c)) mod 65535 = 0" using c(2) by simp
  moreover have "0 < ?n + (65535 - c)" using c(4) by (cases "?n = 0") auto
  ultimately show ?thesis unfolding t using m checksumFold_zero_iff [of "of_nat (?n + (65535 - c))"] by metis
qed

lemma onesComplement_wsum: "onesComplement b = checksumFold (of_nat (wsum b))"
  by (simp add: onesComplement_def checksumAccumulate_wsum)

end
