(* ===== verification/Inner_Packet.thy ===== *)
theory Inner_Packet
  imports Netip Checksum
begin

text \<open>
  What the data plane reads and builds of inner IP packets: addresses
  (\<^verbatim>\<open>dataplane/source.go\<close>, \<^verbatim>\<open>innerDest\<close> of \<^verbatim>\<open>pump.go\<close>), the trim to the
  declared length (\<^verbatim>\<open>shape.go\<close>), MTU arithmetic (\<^verbatim>\<open>mtu.go\<close>) and the ICMP errors of path
  MTU discovery (\<^verbatim>\<open>icmp.go\<close>, \<^verbatim>\<open>icmp6.go\<close>).  Go's \<^verbatim>\<open>int\<close> is an integer, and a
  nil slice result is \<open>None\<close>, or the empty list where the caller only looks at its length.
\<close>

section \<open>Constants\<close>

definition DefaultPathMTU :: int where "DefaultPathMTU = 1500"
definition IPv4HeaderLen :: nat where "IPv4HeaderLen = 20"
definition IPv6HeaderLen :: nat where "IPv6HeaderLen = 40"
definition UDPHeaderLen :: nat where "UDPHeaderLen = 8"
definition MinInnerMTU :: int where "MinInnerMTU = 576"
definition MinIPv6MTU :: nat where "MinIPv6MTU = 1280"
definition OuterUDP4 :: nat where "OuterUDP4 = IPv4HeaderLen + UDPHeaderLen"
definition OuterUDP6 :: nat where "OuterUDP6 = IPv6HeaderLen + UDPHeaderLen"

definition InnerMTU :: "int \<Rightarrow> int \<Rightarrow> int" where
  "InnerMTU pathMTU overhead =
     (let inner = pathMTU - overhead in if inner < MinInnerMTU then MinInnerMTU else inner)"

section \<open>Addresses of a packet\<close>

definition version :: "bytes \<Rightarrow> byte" where
  "version pkt = drop_bit 4 (pkt ! 0)"

definition InnerSource :: "bytes \<Rightarrow> Addr option" where
  "InnerSource pkt =
     (if length pkt < 1 then None
      else if version pkt = 4 then (if length pkt < 20 then None else Some (AddrFrom4 (slice 12 16 pkt)))
      else if version pkt = 6 then (if length pkt < 40 then None else Some (AddrFrom16 (slice 8 24 pkt)))
      else None)"

definition innerDest :: "bytes \<Rightarrow> Addr option" where
  "innerDest pkt =
     (if length pkt < 1 then None
      else if version pkt = 4 then (if length pkt < 20 then None else Some (AddrFrom4 (slice 16 20 pkt)))
      else if version pkt = 6 then (if length pkt < 40 then None else Some (AddrFrom16 (slice 24 40 pkt)))
      else None)"

definition SourceWithin :: "bytes \<Rightarrow> Prefix list \<Rightarrow> bool" where
  "SourceWithin pkt prefixes =
     (case InnerSource pkt of None \<Rightarrow> False | Some src \<Rightarrow> list_ex (\<lambda>p. Contains p src) prefixes)"

definition SourceIs :: "bytes \<Rightarrow> Addr \<Rightarrow> bool" where
  "SourceIs pkt want = (case InnerSource pkt of None \<Rightarrow> False | Some src \<Rightarrow> IsValid want \<and> src = Unmap want)"

lemma SourceWithin_iff:
  "SourceWithin pkt ps \<longleftrightarrow> (\<exists>src p. InnerSource pkt = Some src \<and> p \<in> set ps \<and> Contains p src)"
  by (auto simp: SourceWithin_def list_ex_iff split: option.split)

lemma InnerSource_valid: "InnerSource pkt = Some a \<Longrightarrow> IsValid a"
  by (auto simp: InnerSource_def AddrFrom4_def AddrFrom16_def split: if_splits)

lemma innerDest_valid: "innerDest pkt = Some a \<Longrightarrow> IsValid a"
  by (auto simp: innerDest_def AddrFrom4_def AddrFrom16_def split: if_splits)

section \<open>Trimming to the declared length\<close>

definition TrimToIP :: "bytes \<Rightarrow> bytes" where
  "TrimToIP plain =
     (if length plain = 0 then []
      else if version plain = 4 then
        (if length plain < 20 then []
         else let total = unat (get16 2 plain) in
              if total < 20 \<or> total > length plain then [] else take total plain)
      else if version plain = 6 then
        (if length plain < 40 then []
         else let total = 40 + unat (get16 4 plain) in
              if total > length plain then [] else take total plain)
      else [])"

text \<open>A packet that is exactly as long as its header says.\<close>

definition self_delimiting :: "bytes \<Rightarrow> bool" where
  "self_delimiting pkt \<longleftrightarrow>
     (version pkt = 4 \<and> 20 \<le> length pkt \<and> unat (get16 2 pkt) = length pkt)
   \<or> (version pkt = 6 \<and> 40 \<le> length pkt \<and> 40 + unat (get16 4 pkt) = length pkt)"

lemma TrimToIP_pad:
  assumes "self_delimiting pkt"
  shows "TrimToIP (pkt @ pad) = pkt"
proof -
  have l: "20 \<le> length pkt" using assms by (auto simp: self_delimiting_def)
  then have "version (pkt @ pad) = version pkt" by (auto simp: version_def nth_append)
  moreover have "get16 2 (pkt @ pad) = get16 2 pkt" "get16 4 (pkt @ pad) = get16 4 pkt"
    using l by (simp_all add: wire_simps)
  ultimately show ?thesis using assms by (auto simp: TrimToIP_def self_delimiting_def)
qed

text \<open>What the trim yields is a prefix of the plaintext, and delimits itself.\<close>

lemma get16_take: "i + 2 \<le> n \<Longrightarrow> get16 i (take n xs) = get16 i xs"
  by (simp add: get16_def slice_def drop_take)

lemma TrimToIP_result:
  assumes "TrimToIP plain \<noteq> []"
  shows "TrimToIP plain = take (length (TrimToIP plain)) plain" "self_delimiting (TrimToIP plain)"
proof -
  obtain n where n: "TrimToIP plain = take n plain" "n \<le> length plain" "20 \<le> n"
    and v: "(version plain = 4 \<and> n = unat (get16 2 plain)) \<or> (version plain = 6 \<and> n = 40 + unat (get16 4 plain))"
    using assms by (auto simp: TrimToIP_def Let_def split: if_splits)
  show "TrimToIP plain = take (length (TrimToIP plain)) plain" using n by simp
  have "version (take n plain) = version plain" using n by (simp add: version_def)
  then show "self_delimiting (TrimToIP plain)"
    using n v by (auto simp: self_delimiting_def get16_take)
qed

section \<open>ICMP errors\<close>

definition NeedsFragmentation :: "bytes \<Rightarrow> int \<Rightarrow> bool" where
  "NeedsFragmentation pkt mtu =
     (if int (length pkt) \<le> mtu \<or> length pkt < 1 then False
      else if version pkt = 4 then length pkt \<ge> 20 \<and> pkt ! 6 AND 0x40 \<noteq> 0
      else if version pkt = 6 then length pkt \<ge> 40
      else False)"

definition putIPv4Checksum :: "bytes \<Rightarrow> bytes" where
  "putIPv4Checksum hdr = (let h = hdr[10 := 0, 11 := 0] in put_at 10 (be16 (onesComplement h)) h)"

definition putICMPChecksum :: "bytes \<Rightarrow> bytes" where
  "putICMPChecksum icmp = (let h = icmp[2 := 0, 3 := 0] in put_at 2 (be16 (onesComplement h)) h)"

definition pseudo6 :: "bytes \<Rightarrow> bytes \<Rightarrow> nat \<Rightarrow> bytes" where
  "pseudo6 src dst n = (put_at 32 (be32 (of_nat n)) (put_at 16 dst (put_at 0 src (replicate 40 0))))[39 := 58]"

definition putICMPv6Checksum :: "bytes \<Rightarrow> bytes \<Rightarrow> bytes \<Rightarrow> bytes" where
  "putICMPv6Checksum src dst icmp =
     (let h = icmp[2 := 0, 3 := 0];
          sum1 = checksumAccumulate 0 (pseudo6 src dst (length h));
          sum2 = checksumAccumulate sum1 h
      in put_at 2 (be16 (checksumFold sum2)) h)"

definition fragNeededV6 :: "bytes \<Rightarrow> int \<Rightarrow> bytes option" where
  "fragNeededV6 pkt mtu0 =
     (if length pkt < IPv6HeaderLen \<or> version pkt \<noteq> 6 then None
      else
        let mtu = (if mtu0 < int MinIPv6MTU then int MinIPv6MTU else mtu0);
            q = MinIPv6MTU - IPv6HeaderLen - 8;
            quote = (if length pkt > q then q else length pkt);
            src = slice 8 24 pkt;
            dst = slice 24 40 pkt;
            icmpLen = 8 + quote;
            out = (replicate (IPv6HeaderLen + icmpLen) 0)[0 := 0x60];
            out = put_at 4 (be16 (of_nat icmpLen)) out;
            out = out[6 := 58, 7 := 64];
            out = put_at 8 dst out;
            out = put_at 24 src out;
            icmp = (drop IPv6HeaderLen out)[0 := 2, 1 := 0];
            icmp = put_at 4 (be32 (of_int mtu)) icmp;
            icmp = put_at 8 (take quote pkt) icmp
        in Some (take IPv6HeaderLen out @ putICMPv6Checksum (slice 8 24 out) (slice 24 40 out) icmp))"

definition FragNeeded :: "bytes \<Rightarrow> int \<Rightarrow> bytes option" where
  "FragNeeded pkt mtu =
     (if length pkt \<ge> 1 \<and> version pkt = 6 then fragNeededV6 pkt mtu
      else if length pkt < 20 \<or> version pkt \<noteq> 4 then None
      else
        let ihl = unat (pkt ! 0 AND 0x0f) * 4 in
        if ihl < 20 \<or> length pkt < ihl then None
        else
          let quote = min (ihl + 8) (length pkt);
              src = slice 12 16 pkt;
              dst = slice 16 20 pkt;
              icmpLen = 8 + quote;
              out = (replicate (20 + icmpLen) 0)[0 := 0x45];
              out = put_at 2 (be16 (of_nat (length out))) out;
              out = out[8 := 64, 9 := 1];
              out = put_at 12 dst out;
              out = put_at 16 src out;
              hdr = putIPv4Checksum (take 20 out);
              icmp = (drop 20 out)[0 := 3, 1 := 4];
              icmp = put_at 6 (be16 (of_int mtu)) icmp;
              icmp = put_at 8 (take quote pkt) icmp
          in Some (hdr @ putICMPChecksum icmp))"

definition ParseFragNeeded :: "bytes \<Rightarrow> nat option" where
  "ParseFragNeeded pkt =
     (if length pkt < 20 \<or> version pkt \<noteq> 4 \<or> pkt ! 9 \<noteq> 1 then None
      else
        let ihl = unat (pkt ! 0 AND 0x0f) * 4 in
        if ihl < 20 \<or> length pkt < ihl + 8 then None
        else
          let icmp = drop ihl pkt in
          if icmp ! 0 \<noteq> 3 \<or> icmp ! 1 \<noteq> 4 then None
          else
            let nxt = unat (get16 6 icmp) in
            if nxt = 0 then None else Some nxt)"

subsection \<open>The IPv4 reply\<close>

lemma zeros_20: "replicate 20 (0 :: byte) = [0,0,0,0,0,0,0,0,0,0,0,0,0,0,0,0,0,0,0,0]"
  by code_simp

lemma zeros_8: "replicate 8 (0 :: byte) = [0,0,0,0,0,0,0,0]"
  by code_simp

definition reply_hdr4 :: "u16 \<Rightarrow> bytes \<Rightarrow> bytes \<Rightarrow> bytes" where
  "reply_hdr4 len dst src = [0x45, 0] @ be16 len @ [0, 0, 0, 0, 64, 1, 0, 0] @ dst @ src"

lemma reply_hdr4_built:
  assumes "length dst = 4" and "length src = 4"
  shows "put_at 16 src (put_at 12 dst ((put_at 2 (be16 len) ((replicate (20 + n) 0)[0 := 0x45]))[8 := 64, 9 := 1]))
    = reply_hdr4 len dst src @ replicate n 0"
proof -
  obtain a b c d where src: "src = [a, b, c, d]" using list_of_4 [OF assms(2)] by blast
  obtain e f g h where dst: "dst = [e, f, g, h]" using list_of_4 [OF assms(1)] by blast
  obtain x y where len: "be16 len = [x, y]" using list_of_2 [of "be16 len"] by auto
  show ?thesis unfolding replicate_add zeros_20 src dst len reply_hdr4_def by (simp add: put_at_def)
qed

lemma reply_icmp4_built:
  assumes "length q = n"
  shows "put_at 8 q (put_at 6 (be16 mtu) ((replicate (8 + n) 0)[0 := 3, 1 := 4]))
    = [3, 4, 0, 0, 0, 0] @ be16 mtu @ q"
proof -
  obtain x y where "be16 mtu = [x, y]" using list_of_2 [of "be16 mtu"] by auto
  then show ?thesis unfolding replicate_add zeros_8 using assms by (simp add: put_at_def)
qed

lemma checksum_field_verifies:
  assumes "even i" and "i + 2 \<le> length b" and "slice i (i + 2) b = [0, 0]" and "length b \<le> 2000"
  shows "onesComplement (put_at i (be16 (onesComplement b)) b) = 0"
  using stored_checksum_verifies [OF assms(1-3), of 0] wsum_bound [of b] assms(4)
  by (simp add: onesComplement_wsum)

lemma FragNeeded_form:
  fixes mtu :: int
  assumes "version pkt = 4" and "ihl = unat (pkt ! 0 AND 0x0f) * 4" and "20 \<le> ihl" and "ihl \<le> length pkt"
  defines "q \<equiv> take (min (ihl + 8) (length pkt)) pkt"
  defines "h \<equiv> reply_hdr4 (of_nat (28 + length q)) (slice 16 20 pkt) (slice 12 16 pkt)"
    and "icmp \<equiv> [3, 4, 0, 0, 0, 0] @ be16 (of_int mtu) @ q"
  shows "FragNeeded pkt mtu = Some (put_at 10 (be16 (onesComplement h)) h @ put_at 2 (be16 (onesComplement icmp)) icmp)"
proof -
  let ?n = "length q"
  have n: "min (ihl + 8) (length pkt) = ?n" by (simp add: q_def)
  have l: "length (slice 16 20 pkt) = 4" "length (slice 12 16 pkt) = 4" using assms(3,4) by simp_all
  have "h[10 := 0, 11 := 0] = h" "icmp[2 := 0, 3 := 0] = icmp"
    using list_of_2 [of "be16 (of_nat (28 + ?n))"] by (auto simp: h_def icmp_def reply_hdr4_def)
  then have c: "putIPv4Checksum h = put_at 10 (be16 (onesComplement h)) h" "putICMPChecksum icmp = put_at 2 (be16 (onesComplement icmp)) icmp"
    by (simp_all add: putIPv4Checksum_def putICMPChecksum_def)
  have lh: "length h = 20" using l by (simp add: h_def reply_hdr4_def)
  note hd = reply_hdr4_built [OF l, of "of_nat (28 + ?n)" "8 + ?n", folded h_def]
  note ic = reply_icmp4_built [OF refl, of q "of_int mtu", folded icmp_def]
  have tq: "take (min (ihl + 8) (length pkt)) pkt = q" by (simp add: q_def)
  have tq2: "take (length q) pkt = q" by (simp add: q_def)
  have ll: "length ((replicate (20 + (8 + ?n)) (0 :: byte))[0 := 0x45]) = 28 + ?n" by simp
  show ?thesis
    unfolding FragNeeded_def Let_def assms(1) assms(2) [symmetric] tq n ll hd c [symmetric]
    using assms(3,4) lh ic by (simp add: c tq2)
qed

lemma reply_hdr4_checksum:
  assumes "length dst = 4" and "length src = 4"
  shows "put_at 10 (be16 c) (reply_hdr4 len dst src)
    = [0x45, 0] @ be16 len @ [0, 0, 0, 0, 64, 1] @ be16 c @ dst @ src"
proof -
  obtain x y where "be16 len = [x, y]" using list_of_2 [of "be16 len"] by auto
  then show ?thesis by (simp add: reply_hdr4_def put_at_def)
qed

text \<open>
  C27: The fragmentation-needed reply to an oversized IPv4 packet is a packet the sending stack
  accepts: it comes from the packet's destination and goes to its source, its length field and both
  of its checksums are right, it quotes the offending header with eight octets of payload, and the
  code's own parser reads the MTU back from it.
\<close>

theorem FragNeeded_answers:
  assumes "version pkt = 4" and "ihl = unat (pkt ! 0 AND 0x0f) * 4" and "20 \<le> ihl" and "ihl \<le> length pkt"
    and "0 < mtu" and "mtu < 65536"
  shows "\<exists>out. FragNeeded pkt mtu = Some out
    \<and> length out = 28 + min (ihl + 8) (length pkt) \<and> unat (get16 2 out) = length out
    \<and> InnerSource out = innerDest pkt \<and> innerDest out = InnerSource pkt
    \<and> onesComplement (take 20 out) = 0 \<and> onesComplement (drop 20 out) = 0
    \<and> drop 28 out = take (ihl + 8) pkt \<and> ParseFragNeeded out = Some (nat mtu)"
proof -
  define q where "q = take (min (ihl + 8) (length pkt)) pkt"
  define h where "h = reply_hdr4 (of_nat (28 + length q)) (slice 16 20 pkt) (slice 12 16 pkt)"
  define icmp where "icmp = [3, 4, 0, 0, 0, 0] @ be16 (of_int mtu) @ q"
  define H where "H = put_at 10 (be16 (onesComplement h)) h"
  define I where "I = put_at 2 (be16 (onesComplement icmp)) icmp"
  have f: "FragNeeded pkt mtu = Some (H @ I)"
    using FragNeeded_form [OF assms(1-4), of mtu, folded q_def, folded h_def icmp_def] by (simp add: H_def I_def)
  have l: "length (slice 16 20 pkt) = 4" "length (slice 12 16 pkt) = 4" using assms(3,4) by simp_all
  have "unat (pkt ! 0 AND 0x0f) < 16"
    using unat_and_low [of "0x0f" 4 "pkt ! 0"] by (simp add: mask_eq_exp_minus_1)
  then have ql: "length q \<le> 68" "length q = min (ihl + 8) (length pkt)" using assms(2) by (simp_all add: q_def)
  have H: "H = [0x45, 0] @ be16 (of_nat (28 + length q)) @ [0, 0, 0, 0, 64, 1] @ be16 (onesComplement h)
      @ slice 16 20 pkt @ slice 12 16 pkt"
    unfolding H_def h_def by (rule reply_hdr4_checksum [OF l])
  have I: "I = [3, 4] @ be16 (onesComplement icmp) @ [0, 0] @ be16 (of_int mtu) @ q"
    by (simp add: I_def icmp_def put_at_def)
  have lens: "length H = 20" "length I = 8 + length q" using l by (simp_all add: H I)
  have hs: "slice 10 12 h = [0, 0]" "length h = 20"
    using list_of_2 [of "be16 (of_nat (28 + length q))"] l by (auto simp: h_def reply_hdr4_def slice_def)
  have small: "28 + length q < 2 ^ LENGTH(16)" using ql(1) by simp
  have "onesComplement H = 0" unfolding H_def using checksum_field_verifies [of 10 h] hs by simp
  moreover have "onesComplement I = 0"
    unfolding I_def using checksum_field_verifies [of 2 icmp] ql(1) by (simp add: icmp_def slice_def)
  moreover have "get16 2 (H @ I) = of_nat (28 + length q)" by (simp add: H wire_simps)
  then have "unat (get16 2 (H @ I)) = 28 + length q" using small by (simp only: unat_of_nat_small)
  moreover have v: "version (H @ I) = 4" by (simp add: H version_def)
  moreover have "slice 12 16 (H @ I) = slice 16 20 pkt" "slice 16 20 (H @ I) = slice 12 16 pkt"
    using l by (simp_all add: H slice_def)
  moreover have "drop 28 (H @ I) = take (ihl + 8) pkt" using lens by (simp add: I q_def min_def)
  moreover have "ParseFragNeeded (H @ I) = Some (nat mtu)"
  proof -
    have "(H @ I) ! 0 AND 0x0f = 5" "(H @ I) ! 9 = 1" using list_of_2 [of "be16 (of_nat (28 + length q))"]
      by (auto simp: H)
    moreover have "unat (get16 6 I) = nat mtu"
      using assms(5,6) by (simp add: I wire_simps unsigned_of_int take_bit_int_eq_self)
    ultimately show ?thesis using v lens assms(5) by (simp add: ParseFragNeeded_def Let_def I)
  qed
  moreover have "pkt \<noteq> []" using assms(3,4) by auto
  ultimately show ?thesis using f lens ql(2) assms(1,3,4)
    by (intro exI [of _ "H @ I"]) (simp add: InnerSource_def innerDest_def)
qed

theorem FragNeeded_answers_witness:
  "\<exists>out. FragNeeded (0x45 # replicate 1499 7) 1400 = Some out \<and> length out = 56
     \<and> onesComplement (take 20 out) = 0 \<and> ParseFragNeeded out = Some 1400"
  using FragNeeded_answers [of "0x45 # replicate 1499 7" 20 1400] by (auto simp: version_def)

subsection \<open>The IPv6 reply\<close>

lemma zeros_40: "replicate 40 (0 :: byte) = [0,0,0,0,0,0,0,0,0,0,0,0,0,0,0,0,0,0,0,0,0,0,0,0,0,0,0,0,0,0,0,0,0,0,0,0,0,0,0,0]"
  by code_simp

definition reply_hdr6 :: "u16 \<Rightarrow> bytes \<Rightarrow> bytes \<Rightarrow> bytes" where
  "reply_hdr6 len dst src = [0x60, 0, 0, 0] @ be16 len @ [58, 64] @ dst @ src"

lemma zeros_split: "replicate 40 (0 :: byte) = replicate 8 0 @ replicate 16 0 @ replicate 16 0"
  by (simp flip: replicate_add)

lemma reply_hdr6_built:
  assumes "length dst = 16" and "length src = 16"
  shows "put_at 24 src (put_at 8 dst ((put_at 4 (be16 len) ((replicate (40 + n) 0)[0 := 0x60]))[6 := 58, 7 := 64]))
    = reply_hdr6 len dst src @ replicate n 0"
proof -
  obtain x y where len: "be16 len = [x, y]" using list_of_2 [of "be16 len"] by auto
  have "(put_at 4 (be16 len) ((replicate (40 + n) 0)[0 := 0x60]))[6 := 58, 7 := 64]
      = [0x60, 0, 0, 0, x, y, 58, 64] @ replicate 16 0 @ replicate 16 0 @ replicate n 0"
    unfolding replicate_add zeros_split zeros_8 len by (simp add: put_at_def)
  then show ?thesis using assms by (simp add: put_at_def reply_hdr6_def len)
qed

lemma reply_icmp6_built:
  assumes "length q = n"
  shows "put_at 8 q (put_at 4 (be32 mtu) ((replicate (8 + n) 0)[0 := 2, 1 := 0])) = [2, 0, 0, 0] @ be32 mtu @ q"
proof -
  obtain a b c d where "be32 mtu = [a, b, c, d]" using list_of_4 [of "be32 mtu"] by auto
  then show ?thesis unfolding replicate_add zeros_8 using assms by (simp add: put_at_def)
qed

text \<open>The sum a receiver computes: pseudo-header and message.\<close>

definition icmp6_sum :: "bytes \<Rightarrow> bytes \<Rightarrow> bytes \<Rightarrow> u16" where
  "icmp6_sum src dst icmp = checksumFold (checksumAccumulate (checksumAccumulate 0 (pseudo6 src dst (length icmp))) icmp)"

lemma icmp6_sum_verifies:
  assumes "4 \<le> length h" and "length h \<le> 2000" and "slice 2 4 h = [0, 0]" and "length src = 16" and "length dst = 16"
  shows "icmp6_sum src dst (putICMPv6Checksum src dst h) = 0"
proof -
  let ?p = "pseudo6 src dst (length h)"
  have "length ?p = 40" using assms(4,5) by (simp add: pseudo6_def put_at_def)
  then have b: "wsum ?p + wsum h + 65535 < 2 ^ 32"
    using wsum_bound [of ?p] wsum_bound [of h] assms(2) by simp
  have "h ! 2 = 0" "h ! 3 = 0"
    using arg_cong [OF assms(3), of "\<lambda>x. x ! 0"] arg_cong [OF assms(3), of "\<lambda>x. x ! 1"] assms(1)
    by (simp_all add: slice_def)
  then have z: "h[2 := 0, 3 := 0] = h" by (metis list_update_id)
  show ?thesis
    using stored_checksum_verifies [of 2 h "wsum ?p"] assms(1,3) b
    by (simp add: icmp6_sum_def putICMPv6Checksum_def z checksumAccumulate_wsum flip: of_nat_add)
qed

text \<open>
  The Packet Too Big reply to an oversized IPv6 packet: it comes from the packet's destination
  and goes to its source, is itself no larger than the IPv6 minimum MTU, states its own length,
  carries a checksum that verifies over the pseudo-header, never advertises an MTU below 1280, and
  quotes as much of the packet as fits.
\<close>

theorem fragNeededV6_answers:
  assumes "version pkt = 6" and "40 \<le> length pkt" and "mtu < 2 ^ 32"
  shows "\<exists>out. FragNeeded pkt mtu = Some out
    \<and> length out = 48 + min 1232 (length pkt) \<and> length out \<le> 1280 \<and> 40 + unat (get16 4 out) = length out
    \<and> InnerSource out = innerDest pkt \<and> innerDest out = InnerSource pkt
    \<and> icmp6_sum (slice 8 24 out) (slice 24 40 out) (drop 40 out) = 0
    \<and> int (unat (get32 44 out)) = max 1280 mtu \<and> drop 48 out = take 1232 pkt"
proof -
  define n where "n = min 1232 (length pkt)"
  define q where "q = take n pkt"
  define m where "m = max 1280 mtu"
  define icmp where "icmp = [2, 0, 0, 0] @ be32 (of_int m) @ q"
  define H where "H = reply_hdr6 (of_nat (8 + n)) (slice 24 40 pkt) (slice 8 24 pkt)"
  have l: "length (slice 24 40 pkt) = 16" "length (slice 8 24 pkt) = 16" "length q = n" "n \<le> 1232"
    using assms(2) by (simp_all add: q_def n_def)
  have lh: "length H = 40" using l by (simp add: H_def reply_hdr6_def)
  have adr: "slice 8 24 H = slice 24 40 pkt" "slice 24 40 H = slice 8 24 pkt"
    using l by (simp_all add: H_def reply_hdr6_def slice_def)
  define I where "I = putICMPv6Checksum (slice 8 24 H) (slice 24 40 H) icmp"
  have n': "(if length pkt > 1280 - 40 - 8 then 1280 - 40 - 8 else length pkt) = n" by (simp add: n_def)
  have m': "(if mtu < int 1280 then int 1280 else mtu) = m" by (simp add: m_def)
  have f: "FragNeeded pkt mtu = Some (H @ I)"
    using assms(1,2) reply_hdr6_built [OF l(1,2), of "of_nat (8 + n)" "8 + n", folded H_def] lh l(3)
      reply_icmp6_built [OF l(3), of "of_int m", folded icmp_def]
    unfolding FragNeeded_def fragNeededV6_def Let_def IPv6HeaderLen_def MinIPv6MTU_def n' m'
    by (simp add: I_def q_def slice_append_left flip: q_def)
  have sums: "icmp6_sum (slice 8 24 H) (slice 24 40 H) I = 0"
    unfolding I_def using l adr by (intro icmp6_sum_verifies) (simp_all add: icmp_def slice_def)
  have I: "\<exists>x. I = [2, 0] @ be16 x @ be32 (of_int m) @ q"
    by (simp add: I_def putICMPv6Checksum_def Let_def icmp_def put_at_def) blast
  then obtain x where x: "I = [2, 0] @ be16 x @ be32 (of_int m) @ q" by blast
  have "8 + n < 2 ^ LENGTH(16)" using l(4) by simp
  moreover have "get16 4 (H @ I) = of_nat (8 + n)" by (simp add: H_def reply_hdr6_def wire_simps)
  ultimately have "unat (get16 4 (H @ I)) = 8 + n" by (simp only: unat_of_nat_small)
  moreover have "get32 44 (H @ I) = of_int m" using lh by (simp add: x wire_simps)
  then have "int (unat (get32 44 (H @ I))) = m"
    using assms(3) by (simp add: m_def unsigned_of_int take_bit_int_eq_self)
  moreover have "version (H @ I) = 6" by (simp add: H_def reply_hdr6_def version_def)
  moreover have "slice 8 24 (H @ I) = slice 8 24 H" "slice 24 40 (H @ I) = slice 24 40 H"
    using lh by (simp_all add: slice_append_left)
  moreover have "pkt \<noteq> []" using assms(2) by auto
  moreover have "length I = 8 + n" "drop 8 I = take 1232 pkt" using l by (simp_all add: x q_def n_def min_def)
  ultimately show ?thesis using f sums lh l adr assms(1,2)
    by (intro exI [of _ "H @ I"]) (simp add: InnerSource_def innerDest_def m_def n_def)
qed

theorem fragNeededV6_answers_witness:
  "\<exists>out. FragNeeded (0x60 # replicate 1499 7) 1400 = Some out \<and> length out = 1280
     \<and> int (unat (get32 44 out)) = 1400"
  using fragNeededV6_answers [of "0x60 # replicate 1499 7" 1400] by (auto simp: version_def)

end
