(* ===== verification/Flow_Shaper.thy ===== *)
theory Flow_Shaper
  imports Inner_Packet
begin

text \<open>
  Downstream flow shaping, \<^verbatim>\<open>dataplane/shape.go\<close>: each inner flow gets a budget of padded
  output, during which its packets are padded to the inner MTU.  The flow table is a map; its
  bound, the sweep of idle flows and the clearing of a full table are the code's.  Sizes are Go's
  \<^verbatim>\<open>int\<close>, times nanoseconds, and the clock is an argument.
\<close>

section \<open>Flows\<close>

record flowKey =
  fk_src :: Addr
  fk_dst :: Addr
  fk_sport :: u16
  fk_dport :: u16
  fk_proto :: byte

record flowState =
  remaining :: int
  fs_lastSeen :: int

definition portsOf :: "byte \<Rightarrow> bytes \<Rightarrow> u16 \<times> u16" where
  "portsOf proto rest =
     (if proto \<in> {6, 17, 132} then (if length rest < 4 then (0, 0) else (get16 0 rest, get16 2 rest)) else (0, 0))"

definition flowKeyOf :: "bytes \<Rightarrow> flowKey option" where
  "flowKeyOf pkt =
     (if length pkt < 1 then None
      else if version pkt = 4 then
        (if length pkt < 20 then None
         else let ihl = unat (pkt ! 0 AND 0x0f) * 4 in
           if ihl < 20 \<or> ihl > length pkt then None
           else let proto = pkt ! 9;
                    (sport, dport) = (if get16 6 pkt AND 0x1fff = 0 then portsOf proto (drop ihl pkt) else (0, 0))
                in Some \<lparr>fk_src = AddrFrom4 (slice 12 16 pkt), fk_dst = AddrFrom4 (slice 16 20 pkt),
                         fk_sport = sport, fk_dport = dport, fk_proto = proto\<rparr>)
      else if version pkt = 6 then
        (if length pkt < 40 then None
         else let proto = pkt ! 6; (sport, dport) = portsOf proto (drop 40 pkt)
              in Some \<lparr>fk_src = AddrFrom16 (slice 8 24 pkt), fk_dst = AddrFrom16 (slice 24 40 pkt),
                       fk_sport = sport, fk_dport = dport, fk_proto = proto\<rparr>)
      else None)"

section \<open>The shaper\<close>

definition DefaultShapeIdle :: int where "DefaultShapeIdle = 30 * 1000000000"
definition DefaultShapeMaxFlows :: int where "DefaultShapeMaxFlows = 4096"
definition sweepEvery :: nat where "sweepEvery = 1024"

record ShapeConfig =
  sc_Bytes :: int
  Idle :: int
  MaxFlows :: int

definition shape_withDefaults :: "ShapeConfig \<Rightarrow> ShapeConfig" where
  "shape_withDefaults c0 =
     (let c1 = (if Idle c0 \<le> 0 then c0\<lparr>Idle := DefaultShapeIdle\<rparr> else c0)
      in if MaxFlows c1 \<le> 0 then c1\<lparr>MaxFlows := DefaultShapeMaxFlows\<rparr> else c1)"

record Shaper =
  shape_cfg :: ShapeConfig
  flows :: "flowKey \<rightharpoonup> flowState"
  since :: nat

definition NewShaper :: "ShapeConfig \<Rightarrow> Shaper" where
  "NewShaper c = \<lparr>shape_cfg = shape_withDefaults c, flows = Map.empty, since = 0\<rparr>"

definition sweep :: "int \<Rightarrow> Shaper \<Rightarrow> Shaper" where
  "sweep now s = s\<lparr>flows := (\<lambda>k. case flows s k of
     Some st \<Rightarrow> if now - fs_lastSeen st \<ge> Idle (shape_cfg s) then None else Some st
   | None \<Rightarrow> None)\<rparr>"

definition store :: "flowKey \<Rightarrow> flowState \<Rightarrow> Shaper \<Rightarrow> Shaper" where
  "store key st s =
     (let s1 = (if flows s key = None \<and> int (card (dom (flows s))) \<ge> MaxFlows (shape_cfg s)
                then s\<lparr>flows := Map.empty\<rparr> else s);
          s2 = s1\<lparr>flows := (flows s1)(key \<mapsto> st), since := since s1 + 1\<rparr>
      in if since s2 \<ge> sweepEvery then sweep (fs_lastSeen st) (s2\<lparr>since := 0\<rparr>) else s2)"

text \<open>
  \<open>Target\<close> on a shaper that is not nil; a pump without one has \<open>None\<close>.  The result is the size
  to pad to, zero for none, and the shaper as it leaves it.
\<close>

definition Target_at :: "int \<Rightarrow> bytes \<Rightarrow> int \<Rightarrow> Shaper \<Rightarrow> int \<times> Shaper" where
  "Target_at now pkt mtu s =
     (if sc_Bytes (shape_cfg s) \<le> 0 \<or> mtu \<le> 0 then (0, s)
      else case flowKeyOf pkt of
        None \<Rightarrow> (0, s)
      | Some key \<Rightarrow>
          let st0 = (case flows s key of
                       None \<Rightarrow> \<lparr>remaining = sc_Bytes (shape_cfg s), fs_lastSeen = 0\<rparr>
                     | Some st \<Rightarrow> if now - fs_lastSeen st \<ge> Idle (shape_cfg s)
                                 then st\<lparr>remaining := sc_Bytes (shape_cfg s)\<rparr> else st);
              st1 = st0\<lparr>fs_lastSeen := now\<rparr>;
              shape = (remaining st1 > 0);
              st2 = (if shape then st1\<lparr>remaining := remaining st1 - max (int (length pkt)) mtu\<rparr> else st1);
              s' = store key st2 s
          in if \<not> shape \<or> int (length pkt) \<ge> mtu then (0, s') else (mtu, s'))"

definition Target :: "int \<Rightarrow> bytes \<Rightarrow> int \<Rightarrow> Shaper option \<Rightarrow> int \<times> Shaper option" where
  "Target now pkt mtu so =
     (case so of None \<Rightarrow> (0, None) | Some s \<Rightarrow> (let (t, s') = Target_at now pkt mtu s in (t, Some s')))"

definition ShapeableFrame :: "bytes \<Rightarrow> bool" where
  "ShapeableFrame frame = (if length frame < 14 then False else get16 12 frame \<in> {0x0800, 0x86dd})"

definition TargetFrame :: "int \<Rightarrow> bytes \<Rightarrow> int \<Rightarrow> Shaper option \<Rightarrow> int \<times> Shaper option" where
  "TargetFrame now frame mtu so =
     (if so = None then (0, so)
      else if \<not> ShapeableFrame frame then (0, so)
      else let (inner, so') = Target now (drop 14 frame) (mtu - 14) so
           in if inner \<le> 0 then (0, so') else (inner + 14, so'))"

section \<open>Targets\<close>

text \<open>A target never exceeds the MTU, and is never smaller than the packet it is for.\<close>

lemma Target_bounds:
  assumes "Target now pkt mtu so = (t, so')"
  shows "t = 0 \<or> (t = mtu \<and> 0 < mtu \<and> int (length pkt) < mtu \<and> (\<exists>k. flowKeyOf pkt = Some k))"
  using assms by (cases so) (auto simp: Target_def Target_at_def Let_def split: option.splits if_splits prod.splits)

section \<open>The table stays bounded\<close>

definition shaper_ok :: "Shaper \<Rightarrow> bool" where
  "shaper_ok s \<longleftrightarrow> finite (dom (flows s)) \<and> 0 < MaxFlows (shape_cfg s) \<and> int (card (dom (flows s))) \<le> MaxFlows (shape_cfg s)
     \<and> since s < sweepEvery"

lemma shaper_ok_New: "shaper_ok (NewShaper c)"
  by (auto simp: shaper_ok_def NewShaper_def shape_withDefaults_def Let_def DefaultShapeMaxFlows_def sweepEvery_def)

lemma dom_sweep: "dom (flows (sweep now s)) \<subseteq> dom (flows s)" "since (sweep now s) = since s" "shape_cfg (sweep now s) = shape_cfg s"
  by (auto simp: sweep_def split: option.splits if_splits)

lemma shaper_ok_sweep: "shaper_ok s \<Longrightarrow> shaper_ok (sweep now s)"
  using dom_sweep [of now s] card_mono [of "dom (flows s)" "dom (flows (sweep now s))"]
  by (auto simp: shaper_ok_def intro: finite_subset)

lemma shaper_ok_store:
  assumes "shaper_ok s"
  shows "shaper_ok (store key st s)"
proof -
  define s1 where "s1 = (if flows s key = None \<and> int (card (dom (flows s))) \<ge> MaxFlows (shape_cfg s)
    then s\<lparr>flows := Map.empty\<rparr> else s)"
  define s2 where "s2 = s1\<lparr>flows := (flows s1)(key \<mapsto> st), since := since s1 + 1\<rparr>"
  have fin: "finite (dom (flows s1))" "0 < MaxFlows (shape_cfg s1)" "since s1 < sweepEvery"
    using assms by (auto simp: shaper_ok_def s1_def)
  have "int (card (dom (flows s2))) \<le> MaxFlows (shape_cfg s2)"
    using assms fin(1) by (auto simp: shaper_ok_def s1_def s2_def card_insert_if domIff)
  then have ok: "shaper_ok (s2\<lparr>since := 0\<rparr>)" "since s2 < sweepEvery \<Longrightarrow> shaper_ok s2"
    using fin by (auto simp: shaper_ok_def s2_def sweepEvery_def)
  have "store key st s = (if since s2 \<ge> sweepEvery then sweep (fs_lastSeen st) (s2\<lparr>since := 0\<rparr>) else s2)"
    by (simp add: store_def Let_def s1_def s2_def)
  then show ?thesis using ok shaper_ok_sweep by (simp add: not_le)
qed

lemma shaper_ok_Target:
  assumes "shaper_ok s" and "Target_at now pkt mtu s = (t, s')"
  shows "shaper_ok s'"
  using assms shaper_ok_store by (auto simp: Target_at_def Let_def split: option.splits if_splits)

section \<open>The budget of a flow\<close>

text \<open>A run over timed packets, collecting each packet's flow and its target.\<close>

fun run_shaper :: "int \<Rightarrow> (int \<times> bytes) list \<Rightarrow> Shaper \<Rightarrow> (flowKey option \<times> int) list" where
  "run_shaper mtu [] s = []"
| "run_shaper mtu ((now, p) # tr) s =
     (let (t, s') = Target_at now p mtu s in (flowKeyOf p, t) # run_shaper mtu tr s')"

definition shaped :: "flowKey \<Rightarrow> (flowKey option \<times> int) list \<Rightarrow> nat" where
  "shaped k rs = length (filter (\<lambda>(f, t). f = Some k \<and> t > 0) rs)"

definition packets_of :: "flowKey \<Rightarrow> (int \<times> bytes) list \<Rightarrow> nat" where
  "packets_of k tr = length (filter (\<lambda>(now, p). flowKeyOf p = Some k) tr)"

text \<open>At no packet of the run has the flow \<open>k\<close>, once seen, been silent for the idle interval.\<close>

fun lively :: "flowKey \<Rightarrow> int \<Rightarrow> int option \<Rightarrow> (int \<times> bytes) list \<Rightarrow> bool" where
  "lively k idle l [] = True"
| "lively k idle l ((now, p) # tr) =
     ((case l of Some t \<Rightarrow> now - t < idle | None \<Rightarrow> True)
      \<and> lively k idle (if flowKeyOf p = Some k then Some now else l) tr)"

text \<open>The number of packets a budget covers: the budget over the MTU, rounded up.\<close>

definition budget_packets :: "int \<Rightarrow> int \<Rightarrow> nat" where
  "budget_packets bytes mtu = nat ((bytes + mtu - 1) div mtu)"

definition tracked :: "flowKey \<Rightarrow> int \<Rightarrow> int \<Rightarrow> nat \<Rightarrow> int option \<Rightarrow> Shaper \<Rightarrow> bool" where
  "tracked k bytes mtu n l s \<longleftrightarrow>
     (case flows s k of
        None \<Rightarrow> l = None \<and> n = 0
      | Some st \<Rightarrow> l = Some (fs_lastSeen st) \<and> remaining st = bytes - mtu * int n)"

lemma le_zdiv_iff:
  fixes q x m :: int
  assumes "0 < m"
  shows "q \<le> x div m \<longleftrightarrow> q * m \<le> x"
proof
  assume "q \<le> x div m"
  then have "q * m \<le> x div m * m" using assms by (simp add: mult_right_mono)
  also have "\<dots> \<le> x" using div_mult_mod_eq [of x m] pos_mod_sign [OF assms, of x] by linarith
  finally show "q * m \<le> x" .
next
  assume "q * m \<le> x"
  then have "q * m div m \<le> x div m" using assms by (intro zdiv_mono1)
  then show "q \<le> x div m" using assms by simp
qed

lemma budget_left: "0 < mtu \<Longrightarrow> 0 < bytes \<Longrightarrow> 0 < bytes - mtu * int n \<longleftrightarrow> n < budget_packets bytes mtu"
proof -
  assume m: "0 < mtu" and b: "0 < bytes"
  have "n < budget_packets bytes mtu \<longleftrightarrow> int n < (bytes + mtu - 1) div mtu"
    by (auto simp: budget_packets_def)
  also have "\<dots> \<longleftrightarrow> int n + 1 \<le> (bytes + mtu - 1) div mtu" by linarith
  also have "\<dots> \<longleftrightarrow> (int n + 1) * mtu \<le> bytes + mtu - 1" using m by (rule le_zdiv_iff)
  also have "\<dots> \<longleftrightarrow> 0 < bytes - mtu * int n" by (simp add: algebra_simps) linarith
  finally show ?thesis by simp
qed

lemma store_keeps:
  assumes "finite K" and "dom (flows s) \<subseteq> K" and "key \<in> K" and "int (card K) \<le> MaxFlows (shape_cfg s)"
  shows "flows (store key st s) k = (if since s + 1 \<ge> sweepEvery
      then (case ((flows s)(key \<mapsto> st)) k of
              Some x \<Rightarrow> if fs_lastSeen st - fs_lastSeen x \<ge> Idle (shape_cfg s) then None else Some x | None \<Rightarrow> None)
      else ((flows s)(key \<mapsto> st)) k)"
    "dom (flows (store key st s)) \<subseteq> K" "shape_cfg (store key st s) = shape_cfg s"
proof -
  have "\<not> (flows s key = None \<and> int (card (dom (flows s))) \<ge> MaxFlows (shape_cfg s))"
  proof
    assume a: "flows s key = None \<and> int (card (dom (flows s))) \<ge> MaxFlows (shape_cfg s)"
    then have "dom (flows s) \<subset> K" using assms(2,3) by auto
    then have "card (dom (flows s)) < card K" using assms(1) by (rule psubset_card_mono [rotated])
    then show False using a assms(4) by linarith
  qed
  then have st: "store key st s = (let s2 = s\<lparr>flows := (flows s)(key \<mapsto> st), since := since s + 1\<rparr>
      in if since s2 \<ge> sweepEvery then sweep (fs_lastSeen st) (s2\<lparr>since := 0\<rparr>) else s2)"
    by (auto simp: store_def)
  show "shape_cfg (store key st s) = shape_cfg s" by (simp add: st Let_def sweep_def)
  let ?s2 = "s\<lparr>flows := (flows s)(key \<mapsto> st), since := 0\<rparr>"
  have "dom (flows ?s2) \<subseteq> K" using assms(2,3) by auto
  then have "dom (flows (sweep (fs_lastSeen st) ?s2)) \<subseteq> K" using dom_sweep(1) by (rule subset_trans [rotated])
  then show "dom (flows (store key st s)) \<subseteq> K" using assms(2,3) by (auto simp: st Let_def)
  show "flows (store key st s) k = (if since s + 1 \<ge> sweepEvery
      then (case ((flows s)(key \<mapsto> st)) k of
              Some x \<Rightarrow> if fs_lastSeen st - fs_lastSeen x \<ge> Idle (shape_cfg s) then None else Some x | None \<Rightarrow> None)
      else ((flows s)(key \<mapsto> st)) k)" by (simp add: st Let_def sweep_def split: option.split)
qed

lemma tracked_step:
  assumes fin: "finite K" "dom (flows s) \<subseteq> K" "int (card K) \<le> MaxFlows (shape_cfg s)"
    and key: "flowKeyOf p = Some key" "key \<in> K" and len: "int (length p) < mtu"
    and b: "0 < sc_Bytes (shape_cfg s)" and tr: "tracked k (sc_Bytes (shape_cfg s)) mtu n l s"
    and l: "case l of Some t \<Rightarrow> now - t < Idle (shape_cfg s) | None \<Rightarrow> True" and idle: "0 < Idle (shape_cfg s)"
    and T: "Target_at now p mtu s = (t, s')"
  shows "dom (flows s') \<subseteq> K \<and> shape_cfg s' = shape_cfg s
    \<and> t = (if key = k \<and> n \<ge> budget_packets (sc_Bytes (shape_cfg s)) mtu then 0 else t)
    \<and> (key = k \<and> n < budget_packets (sc_Bytes (shape_cfg s)) mtu \<longrightarrow> t = mtu)
    \<and> tracked k (sc_Bytes (shape_cfg s)) mtu (if key = k \<and> n < budget_packets (sc_Bytes (shape_cfg s)) mtu then n + 1 else n)
        (if key = k then Some now else l) s'"
proof -
  let ?B = "sc_Bytes (shape_cfg s)"
  have m: "0 < mtu" using len by simp
  define st1 where "st1 = (case flows s key of
      None \<Rightarrow> \<lparr>remaining = ?B, fs_lastSeen = now\<rparr>
    | Some st \<Rightarrow> if now - fs_lastSeen st \<ge> Idle (shape_cfg s) then st\<lparr>remaining := ?B, fs_lastSeen := now\<rparr> else st\<lparr>fs_lastSeen := now\<rparr>)"
  define st2 where "st2 = (if remaining st1 > 0 then st1\<lparr>remaining := remaining st1 - mtu\<rparr> else st1)"
  have "Target_at now p mtu s = (if remaining st1 > 0 then mtu else 0, store key st2 s)"
    using key len m b
    by (simp add: Target_at_def Let_def st1_def st2_def max_def split: option.split)
  then have t: "t = (if remaining st1 > 0 then mtu else 0)" and s': "s' = store key st2 s" using T by simp_all
  have seen: "fs_lastSeen st2 = now" by (simp add: st2_def st1_def split: option.split)
  note keep = store_keeps [OF fin(1,2) key(2) fin(3), of st2, folded s']
  have other: "flows s' k = flows s k" if "key \<noteq> k"
    using that l tr seen keep(1) [of k] by (auto simp: tracked_def split: option.splits)
  have same: "flows s' key = Some st2" using seen idle keep(1) [of key] by simp
  have r: "remaining st1 = ?B - mtu * int n" if "key = k"
    using that tr l by (auto simp: st1_def tracked_def split: option.splits)
  have "remaining st2 = ?B - mtu * int (if n < budget_packets ?B mtu then n + 1 else n)" if "key = k"
    using r [OF that] budget_left [OF m b, of n] by (auto simp: st2_def algebra_simps)
  then show ?thesis
    using keep(2,3) t r other same seen tr budget_left [OF m b, of n] by (auto simp: tracked_def)
qed

lemma run_shaper_count:
  assumes "finite K" and "dom (flows s) \<subseteq> K" and "int (card K) \<le> MaxFlows (shape_cfg s)"
    and "\<forall>(now, p) \<in> set tr. int (length p) < mtu \<and> (\<exists>key \<in> K. flowKeyOf p = Some key)"
    and "0 < sc_Bytes (shape_cfg s)" and "0 < Idle (shape_cfg s)" and "0 < mtu"
    and "tracked k (sc_Bytes (shape_cfg s)) mtu n l s" and "lively k (Idle (shape_cfg s)) l tr"
    and "n \<le> budget_packets (sc_Bytes (shape_cfg s)) mtu"
  shows "n + shaped k (run_shaper mtu tr s) = min (n + packets_of k tr) (budget_packets (sc_Bytes (shape_cfg s)) mtu)"
  using assms
proof (induction tr arbitrary: s n l)
  case Nil
  then show ?case by (simp add: shaped_def packets_of_def)
next
  case (Cons e tr)
  obtain now p where e: "e = (now, p)" by (cases e)
  obtain t s' where T: "Target_at now p mtu s = (t, s')" by fastforce
  obtain key where key: "flowKeyOf p = Some key" "key \<in> K" and len: "int (length p) < mtu"
    using Cons.prems(4) e by auto
  have l: "case l of Some t \<Rightarrow> now - t < Idle (shape_cfg s) | None \<Rightarrow> True"
    and live: "lively k (Idle (shape_cfg s)) (if key = k then Some now else l) tr"
    using Cons.prems(9) e key(1) by auto
  note step = tracked_step [OF Cons.prems(1-3) key len Cons.prems(5,8) l Cons.prems(6) T]
  let ?N = "budget_packets (sc_Bytes (shape_cfg s)) mtu"
  let ?n = "if key = k \<and> n < ?N then n + 1 else n"
  have "?n + shaped k (run_shaper mtu tr s') = min (?n + packets_of k tr) ?N"
    using step live Cons.prems Cons.IH [of s' ?n "if key = k then Some now else l"] by (auto split: if_splits)
  moreover have "shaped k (run_shaper mtu (e # tr) s) = (if key = k \<and> n < ?N then 1 else 0) + shaped k (run_shaper mtu tr s')"
    using step Cons.prems(7,10) by (auto simp: e T key(1) shaped_def)
  moreover have "packets_of k (e # tr) = (if key = k then 1 else 0) + packets_of k tr"
    by (simp add: e packets_of_def key(1))
  ultimately show ?case using Cons.prems(10) by (auto split: if_splits)
qed

text \<open>
  C28: The cost of shaping is what its configuration says: over any run of small packets of at most
  \<^verbatim>\<open>MaxFlows\<close> flows, a flow that is never idle for the re-arm interval has exactly its first
  \<open>\<lceil>Bytes / mtu\<rceil>\<close> packets padded, whatever their sizes and however the other flows interleave; and
  every padded packet is padded to the MTU, never beyond it.
\<close>

theorem shaping_budget:
  assumes "0 < sc_Bytes c" and "0 < mtu" and "finite K" and "int (card K) \<le> MaxFlows (shape_withDefaults c)"
    and "\<forall>(now, p) \<in> set tr. int (length p) < mtu \<and> (\<exists>key \<in> K. flowKeyOf p = Some key)"
    and "lively k (Idle (shape_withDefaults c)) None tr"
  shows "shaped k (run_shaper mtu tr (NewShaper c)) = min (packets_of k tr) (nat ((sc_Bytes c + mtu - 1) div mtu))
    \<and> snd ` set (run_shaper mtu tr (NewShaper c)) \<subseteq> {0, mtu}"
proof
  have c: "shape_cfg (NewShaper c) = shape_withDefaults c" "sc_Bytes (shape_withDefaults c) = sc_Bytes c"
    "0 < Idle (shape_withDefaults c)" "flows (NewShaper c) = Map.empty"
    by (auto simp: NewShaper_def shape_withDefaults_def Let_def DefaultShapeIdle_def)
  show "shaped k (run_shaper mtu tr (NewShaper c)) = min (packets_of k tr) (nat ((sc_Bytes c + mtu - 1) div mtu))"
    using run_shaper_count [of K "NewShaper c" tr mtu k 0 None] assms c by (simp add: tracked_def budget_packets_def)
  have "snd ` set (run_shaper mtu tr s) \<subseteq> {0, mtu}" for s
  proof (induction mtu tr s rule: run_shaper.induct)
    case (2 mtu now p tr s)
    obtain t s' where T: "Target_at now p mtu s = (t, s')" by fastforce
    then have "t \<in> {0, mtu}" using Target_bounds [of now p mtu "Some s"] by (auto simp: Target_def)
    then show ?case using 2 T by simp
  qed simp
  then show "snd ` set (run_shaper mtu tr (NewShaper c)) \<subseteq> {0, mtu}" .
qed

definition example_datagram :: bytes where
  "example_datagram = [0x45, 0, 0, 28, 0, 0, 0, 0, 64, 17, 0, 0, 10, 0, 0, 1, 10, 0, 0, 2, 0, 53, 0, 54, 0, 8, 0, 0]"

theorem shaping_budget_witness:
  "\<exists>k. shaped k (run_shaper 1400 [(0, example_datagram), (5, example_datagram), (9, example_datagram)]
      (NewShaper \<lparr>sc_Bytes = 2000, Idle = 0, MaxFlows = 0\<rparr>)) = 2"
proof -
  let ?c = "\<lparr>sc_Bytes = 2000, Idle = 0, MaxFlows = 0\<rparr>"
  let ?tr = "[(0, example_datagram), (5, example_datagram), (9, example_datagram)]"
  have d: "shape_withDefaults ?c = \<lparr>sc_Bytes = 2000, Idle = 30000000000, MaxFlows = 4096\<rparr>"
    by (simp add: shape_withDefaults_def DefaultShapeIdle_def DefaultShapeMaxFlows_def)
  obtain k where k: "flowKeyOf example_datagram = Some k"
    by (auto simp: flowKeyOf_def example_datagram_def version_def Let_def case_prod_beta)
  have "length example_datagram = 28" by (simp add: example_datagram_def)
  then have "shaped k (run_shaper 1400 ?tr (NewShaper ?c)) = 2"
    using shaping_budget [of ?c 1400 "{k}" ?tr k] k d by (simp add: packets_of_def del: run_shaper.simps)
  then show ?thesis by blast
qed

end
