(* ===== verification/Pump.thy ===== *)
theory Pump
  imports Route_Table Flow_Shaper "HOL-Library.Multiset"
begin

text \<open>
  The data-path pump of \<^verbatim>\<open>dataplane/pump.go\<close> with its counters (\<^verbatim>\<open>counters.go\<close>) and source
  check (\<^verbatim>\<open>source.go\<close>).  The state of the model is what the pump reads and writes: the two
  tables of its snapshot, the counter blocks in a store of their own (the tables and
  \<^verbatim>\<open>stats\<close> share them by pointer), the drop counters, the tunnels' return addresses, and the
  packets written to the TUN device and to the network.  A snapshot is published whole, so a
  change of tables is one update of the state.  Tunnels are behind an interface: what their
  methods do is a parameter, a record of functions over a state \<open>'w\<close> of the protocols.
\<close>

section \<open>Counters\<close>

record TunnelCounters =
  rxPackets :: u64
  rxBytes :: u64
  txPackets :: u64
  txBytes :: u64
  lastSeen :: int

definition zero_counters :: TunnelCounters where
  "zero_counters = \<lparr>rxPackets = 0, rxBytes = 0, txPackets = 0, txBytes = 0, lastSeen = 0\<rparr>"

definition countRx :: "nat \<Rightarrow> int \<Rightarrow> TunnelCounters \<Rightarrow> TunnelCounters" where
  "countRx n now c = c\<lparr>rxPackets := rxPackets c + 1, rxBytes := rxBytes c + of_nat n, lastSeen := now\<rparr>"

definition countTx :: "nat \<Rightarrow> TunnelCounters \<Rightarrow> TunnelCounters" where
  "countTx n c = c\<lparr>txPackets := txPackets c + 1, txBytes := txBytes c + of_nat n\<rparr>"

text \<open>A snapshot; the zero time is \<open>None\<close>.\<close>

record TunnelStats =
  RxPackets :: u64
  RxBytes :: u64
  TxPackets :: u64
  TxBytes :: u64
  LastSeen :: "int option"

definition Snapshot :: "TunnelCounters \<Rightarrow> TunnelStats" where
  "Snapshot c = \<lparr>RxPackets = rxPackets c, RxBytes = rxBytes c, TxPackets = txPackets c, TxBytes = txBytes c,
     LastSeen = (if lastSeen c \<noteq> 0 then Some (lastSeen c) else None)\<rparr>"

definition After :: "int option \<Rightarrow> int option \<Rightarrow> bool" where
  "After a b = (case a of None \<Rightarrow> False | Some x \<Rightarrow> (case b of None \<Rightarrow> True | Some y \<Rightarrow> x > y))"

definition stats_add :: "TunnelStats \<Rightarrow> TunnelStats \<Rightarrow> TunnelStats" where
  "stats_add s d = \<lparr>RxPackets = RxPackets s + RxPackets d, RxBytes = RxBytes s + RxBytes d,
     TxPackets = TxPackets s + TxPackets d, TxBytes = TxBytes s + TxBytes d,
     LastSeen = (if After (LastSeen d) (LastSeen s) then LastSeen d else LastSeen s)\<rparr>"

definition zero_stats :: TunnelStats where
  "zero_stats = \<lparr>RxPackets = 0, RxBytes = 0, TxPackets = 0, TxBytes = 0, LastSeen = None\<rparr>"

datatype DropReason = DropNoKey | DropUnknownKey | DropDecapFailed | DropNotIP | DropNoRoute
  | DropTooBig | DropEncapFailed | DropTUNWrite | DropPacerFull | DropSpoofedSource

section \<open>Tunnels\<close>

type_synonym UDPAddr = "Addr \<times> u16"

text \<open>The \<^verbatim>\<open>Tunnel\<close> interface, its optional capabilities, and what else the pump is given.\<close>

record ('t, 'w) tunnel_env =
  InboundKey :: "'t \<Rightarrow> 'w \<Rightarrow> u32"
  Routes :: "'t \<Rightarrow> 'w \<Rightarrow> Prefix list"
  VerifyInboundSource :: "'t \<Rightarrow> bool"
  isMulti :: "'t \<Rightarrow> bool"
  isPaced :: "'t \<Rightarrow> bool"
  isRoamer :: "'t \<Rightarrow> bool"
  isPadding :: "'t \<Rightarrow> bool"
  isAppend :: "'t \<Rightarrow> bool"
  Encapsulate :: "'t \<Rightarrow> bytes \<Rightarrow> 'w \<Rightarrow> bytes option \<times> 'w"
  EncapsulatePadded :: "'t \<Rightarrow> bytes \<Rightarrow> int \<Rightarrow> 'w \<Rightarrow> bytes option \<times> 'w"
  AppendEncapsulated :: "'t \<Rightarrow> bytes \<Rightarrow> int \<Rightarrow> 'w \<Rightarrow> bytes option \<times> 'w"
  Decapsulate :: "'t \<Rightarrow> bytes \<Rightarrow> 'w \<Rightarrow> bytes option \<times> 'w"
  DecapsulateMulti :: "'t \<Rightarrow> bytes \<Rightarrow> 'w \<Rightarrow> bytes list option \<times> 'w"
  Enqueue :: "'t \<Rightarrow> bytes \<Rightarrow> 'w \<Rightarrow> bool \<times> 'w"
  StartPacing :: "'t \<Rightarrow> 'w \<Rightarrow> 'w"
  StopPacing :: "'t \<Rightarrow> 'w \<Rightarrow> 'w"
  demux :: "bytes \<Rightarrow> u32 option"
  tun_accepts :: "bytes \<Rightarrow> bool"

definition SPIDemux :: "bytes \<Rightarrow> u32 option" where
  "SPIDemux pkt = (if length pkt < 4 then None else Some (get32 0 pkt))"

text \<open>\<open>bc\<close> is the address of the counter block.\<close>

record 't bound =
  bt :: 't
  bc :: nat
  b_multi :: bool
  b_paced :: bool
  b_roam :: bool
  b_pad :: bool
  b_appender :: bool
  srcRoutes :: "Prefix list option"

definition bind_tunnel :: "('t, 'w) tunnel_env \<Rightarrow> 'w \<Rightarrow> 't \<Rightarrow> nat \<Rightarrow> 't bound" where
  "bind_tunnel e w t c = \<lparr>bt = t, bc = c, b_multi = isMulti e t, b_paced = isPaced e t, b_roam = isRoamer e t,
     b_pad = isPadding e t, b_appender = isAppend e t,
     srcRoutes = (if VerifyInboundSource e t then Some (Routes e t w) else None)\<rparr>"

section \<open>The pump\<close>

record ('t, 'w) Pump =
  byKey :: "u32 \<rightharpoonup> 't bound"
  routes :: "'t bound routeTable"
  blocks :: "nat \<Rightarrow> TunnelCounters"
  next_block :: nat
  stats :: "'t \<rightharpoonup> nat"
  retired :: TunnelStats
  drops :: "DropReason \<Rightarrow> u64"
  shaper :: "Shaper option"
  inner_mtu :: int
  lastInbound :: int
  peer :: "'t \<Rightarrow> UDPAddr"
  tun_out :: "bytes list"
  sent :: "(bytes \<times> UDPAddr) list"
  world :: 'w

definition NewPump :: "int \<Rightarrow> ('t \<Rightarrow> UDPAddr) \<Rightarrow> 'w \<Rightarrow> ('t, 'w) Pump" where
  "NewPump now pe w = \<lparr>byKey = Map.empty, routes = new_table, blocks = (\<lambda>_. zero_counters), next_block = 0,
     stats = Map.empty, retired = zero_stats, drops = (\<lambda>_. 0), shaper = None, inner_mtu = 0, lastInbound = now,
     peer = pe, tun_out = [], sent = [], world = w\<rparr>"

definition SetShaper :: "Shaper option \<Rightarrow> ('t, 'w) Pump \<Rightarrow> ('t, 'w) Pump" where
  "SetShaper s p = p\<lparr>shaper := s\<rparr>"

definition SetInnerMTU :: "int \<Rightarrow> ('t, 'w) Pump \<Rightarrow> ('t, 'w) Pump" where
  "SetInnerMTU m p = p\<lparr>inner_mtu := m\<rparr>"

definition drop_for :: "DropReason \<Rightarrow> ('t, 'w) Pump \<Rightarrow> ('t, 'w) Pump" where
  "drop_for r p = p\<lparr>drops := (drops p)(r := drops p r + 1)\<rparr>"

definition count_block :: "nat \<Rightarrow> (TunnelCounters \<Rightarrow> TunnelCounters) \<Rightarrow> ('t, 'w) Pump \<Rightarrow> ('t, 'w) Pump" where
  "count_block c f p = p\<lparr>blocks := (blocks p)(c := f (blocks p c))\<rparr>"

text \<open>\<open>writeTUN\<close> reports whether the device took the packet.\<close>

definition writeTUN :: "('t, 'w) tunnel_env \<Rightarrow> bytes \<Rightarrow> ('t, 'w) Pump \<Rightarrow> bool \<times> ('t, 'w) Pump" where
  "writeTUN e pkt p = (if tun_accepts e pkt then (True, p\<lparr>tun_out := tun_out p @ [pkt]\<rparr>) else (False, p))"

subsection \<open>Registration\<close>

definition counters :: "'t \<Rightarrow> ('t, 'w) Pump \<Rightarrow> nat \<times> ('t, 'w) Pump" where
  "counters t p = (case stats p t of
     Some c \<Rightarrow> (c, p)
   | None \<Rightarrow> (next_block p, p\<lparr>blocks := (blocks p)(next_block p := zero_counters), next_block := next_block p + 1,
                 stats := (stats p)(t \<mapsto> next_block p)\<rparr>))"

definition AddTunnel :: "('t, 'w) tunnel_env \<Rightarrow> 't \<Rightarrow> ('t, 'w) Pump \<Rightarrow> ('t, 'w) Pump option" where
  "AddTunnel e t p =
     (let (c, p1) = counters t p;
          b = bind_tunnel e (world p1) t c
      in Option.bind (ins_all insert_route (Routes e t (world p1)) b (routes p1))
           (\<lambda>rt. let p2 = p1\<lparr>byKey := (byKey p1)(InboundKey e t (world p1) \<mapsto> b), routes := rt\<rparr>
                 in Some (if isPaced e t then p2\<lparr>world := StartPacing e t (world p2)\<rparr> else p2)))"

definition RemoveTunnel :: "('t, 'w) tunnel_env \<Rightarrow> 't \<Rightarrow> ('t, 'w) Pump \<Rightarrow> ('t, 'w) Pump option" where
  "RemoveTunnel e t p =
     Option.bind (rem_all (removeOwned bt) (Routes e t (world p)) t (routes p))
       (\<lambda>rt. let p1 = p\<lparr>byKey := (\<lambda>k. case byKey p k of Some b \<Rightarrow> if bt b = t then None else Some b | None \<Rightarrow> None),
                        routes := rt\<rparr>;
                 p2 = (case stats p1 t of
                         Some c \<Rightarrow> p1\<lparr>retired := stats_add (retired p1) (Snapshot (blocks p1 c)), stats := (stats p1)(t := None)\<rparr>
                       | None \<Rightarrow> p1)
             in Some (if isPaced e t then p2\<lparr>world := StopPacing e t (world p2)\<rparr> else p2))"

definition AddInboundKey :: "('t, 'w) tunnel_env \<Rightarrow> u32 \<Rightarrow> 't \<Rightarrow> ('t, 'w) Pump \<Rightarrow> ('t, 'w) Pump" where
  "AddInboundKey e key t p =
     (let (c, p1) = counters t p in p1\<lparr>byKey := (byKey p1)(key \<mapsto> bind_tunnel e (world p1) t c)\<rparr>)"

definition RemoveInboundKey :: "u32 \<Rightarrow> ('t, 'w) Pump \<Rightarrow> ('t, 'w) Pump" where
  "RemoveInboundKey key p = p\<lparr>byKey := (byKey p)(key := None)\<rparr>"

subsection \<open>Inbound\<close>

definition lookupInbound :: "('t, 'w) tunnel_env \<Rightarrow> bytes \<Rightarrow> ('t, 'w) Pump \<Rightarrow> 't bound option \<times> ('t, 'w) Pump" where
  "lookupInbound e pkt p = (case demux e pkt of
     None \<Rightarrow> (None, drop_for DropNoKey p)
   | Some key \<Rightarrow> (case byKey p key of
         None \<Rightarrow> (None, drop_for DropUnknownKey p)
       | Some b \<Rightarrow> (Some b, p)))"

definition roam :: "'t bound \<Rightarrow> UDPAddr option \<Rightarrow> ('t, 'w) Pump \<Rightarrow> ('t, 'w) Pump" where
  "roam b from p = (case from of Some a \<Rightarrow> if b_roam b then p\<lparr>peer := (peer p)(bt b := a)\<rparr> else p | None \<Rightarrow> p)"

definition sourceOK :: "'t bound \<Rightarrow> bytes \<Rightarrow> ('t, 'w) Pump \<Rightarrow> bool \<times> ('t, 'w) Pump" where
  "sourceOK b inner p = (case srcRoutes b of
     None \<Rightarrow> (True, p)
   | Some rs \<Rightarrow> if SourceWithin inner rs then (True, p) else (False, drop_for DropSpoofedSource p))"

definition decapInbound ::
  "('t, 'w) tunnel_env \<Rightarrow> 't bound \<Rightarrow> bytes \<Rightarrow> UDPAddr option \<Rightarrow> int \<Rightarrow> ('t, 'w) Pump \<Rightarrow> bytes option \<times> ('t, 'w) Pump" where
  "decapInbound e b pkt from now p =
     (case Decapsulate e (bt b) pkt (world p) of
        (None, w) \<Rightarrow> (None, drop_for DropDecapFailed (p\<lparr>world := w\<rparr>))
      | (Some inner, w) \<Rightarrow>
          let p1 = (roam b from (p\<lparr>world := w\<rparr>))\<lparr>lastInbound := now\<rparr> in
          if length inner = 0 then (None, count_block (bc b) (countRx 0 now) p1)
          else case sourceOK b inner p1 of
                 (False, p2) \<Rightarrow> (None, p2)
               | (True, p2) \<Rightarrow> (Some inner, p2))"

definition decapMulti ::
  "('t, 'w) tunnel_env \<Rightarrow> 't bound \<Rightarrow> bytes \<Rightarrow> UDPAddr option \<Rightarrow> int \<Rightarrow> ('t, 'w) Pump \<Rightarrow> bytes list option \<times> ('t, 'w) Pump" where
  "decapMulti e b pkt from now p =
     (case DecapsulateMulti e (bt b) pkt (world p) of
        (None, w) \<Rightarrow> (None, drop_for DropDecapFailed (p\<lparr>world := w\<rparr>))
      | (Some inners, w) \<Rightarrow> (Some inners, (roam b from (p\<lparr>world := w\<rparr>))\<lparr>lastInbound := now\<rparr>))"

text \<open>The delivery loop: it stops at the first packet the device refuses.\<close>

fun deliver :: "('t, 'w) tunnel_env \<Rightarrow> 't bound \<Rightarrow> int \<Rightarrow> bytes list \<Rightarrow> ('t, 'w) Pump \<Rightarrow> ('t, 'w) Pump" where
  "deliver e b now [] p = p"
| "deliver e b now (inner # rest) p =
     (if length inner = 0 then deliver e b now rest p
      else case sourceOK b inner p of
        (False, p1) \<Rightarrow> deliver e b now rest p1
      | (True, p1) \<Rightarrow>
          (case writeTUN e inner (count_block (bc b) (countRx (length inner) now) p1) of
             (False, p2) \<Rightarrow> drop_for DropTUNWrite p2
           | (True, p2) \<Rightarrow> deliver e b now rest p2))"

definition handleInboundMulti ::
  "('t, 'w) tunnel_env \<Rightarrow> 't bound \<Rightarrow> bytes \<Rightarrow> UDPAddr option \<Rightarrow> int \<Rightarrow> ('t, 'w) Pump \<Rightarrow> ('t, 'w) Pump" where
  "handleInboundMulti e b pkt from now p =
     (case decapMulti e b pkt from now p of
        (None, p1) \<Rightarrow> p1
      | (Some inners, p1) \<Rightarrow> deliver e b now inners p1)"

definition handleInbound :: "('t, 'w) tunnel_env \<Rightarrow> bytes \<Rightarrow> UDPAddr option \<Rightarrow> int \<Rightarrow> ('t, 'w) Pump \<Rightarrow> ('t, 'w) Pump" where
  "handleInbound e pkt from now p =
     (case lookupInbound e pkt p of
        (None, p1) \<Rightarrow> p1
      | (Some b, p1) \<Rightarrow>
          if b_multi b then handleInboundMulti e b pkt from now p1
          else case decapInbound e b pkt from now p1 of
                 (None, p2) \<Rightarrow> p2
               | (Some inner, p2) \<Rightarrow>
                   (case writeTUN e inner (count_block (bc b) (countRx (length inner) now) p2) of
                      (False, p3) \<Rightarrow> drop_for DropTUNWrite p3
                    | (True, p3) \<Rightarrow> p3))"

subsection \<open>Outbound\<close>

definition encap :: "('t, 'w) tunnel_env \<Rightarrow> int \<Rightarrow> 't bound \<Rightarrow> bytes \<Rightarrow> int \<Rightarrow> ('t, 'w) Pump \<Rightarrow> bytes option \<times> ('t, 'w) Pump" where
  "encap e now b pkt mtu p =
     (let (target, s') = Target now pkt mtu (shaper p);
          p1 = p\<lparr>shaper := s'\<rparr>;
          (out, w) = (if b_appender b then AppendEncapsulated e (bt b) pkt target (world p1)
                      else if target > 0 \<and> b_pad b then EncapsulatePadded e (bt b) pkt target (world p1)
                      else Encapsulate e (bt b) pkt (world p1))
      in (out, p1\<lparr>world := w\<rparr>))"

definition routeOutbound :: "('t, 'w) tunnel_env \<Rightarrow> int \<Rightarrow> bytes \<Rightarrow> ('t, 'w) Pump \<Rightarrow> ('t, 'w) Pump" where
  "routeOutbound e now pkt p =
     (case innerDest pkt of
        None \<Rightarrow> drop_for DropNotIP p
      | Some dst \<Rightarrow>
          (case lookup_route (routes p) dst of
             None \<Rightarrow> drop_for DropNoRoute p
           | Some b \<Rightarrow>
               let mtu = inner_mtu p in
               if mtu > 0 \<and> NeedsFragmentation pkt mtu then
                 (let p1 = drop_for DropTooBig p in
                  case FragNeeded pkt mtu of None \<Rightarrow> p1 | Some reply \<Rightarrow> snd (writeTUN e reply p1))
               else if b_paced b then
                 (case Enqueue e (bt b) pkt (world p) of
                    (False, w) \<Rightarrow> drop_for DropPacerFull (p\<lparr>world := w\<rparr>)
                  | (True, w) \<Rightarrow> count_block (bc b) (countTx (length pkt)) (p\<lparr>world := w\<rparr>))
               else
                 (case encap e now b pkt mtu p of
                    (None, p1) \<Rightarrow> drop_for DropEncapFailed p1
                  | (Some out, p1) \<Rightarrow>
                      let p2 = count_block (bc b) (countTx (length pkt)) p1
                      in p2\<lparr>sent := sent p2 @ [(out, peer p2 (bt b))]\<rparr>)))"

subsection \<open>Statistics\<close>

text \<open>The \<^verbatim>\<open>range\<close> over \<^verbatim>\<open>stats\<close>, in an order \<open>ts\<close> the runtime picks.\<close>

definition Stats_total :: "'t list \<Rightarrow> ('t, 'w) Pump \<Rightarrow> TunnelStats" where
  "Stats_total ts p = fold (\<lambda>t s. stats_add s (Snapshot (blocks p (the (stats p t))))) ts (retired p)"

definition TunnelStats_of :: "'t \<Rightarrow> ('t, 'w) Pump \<Rightarrow> TunnelStats option" where
  "TunnelStats_of t p = map_option (\<lambda>c. Snapshot (blocks p c)) (stats p t)"

section \<open>What each step keeps\<close>

lemmas pump_step_defs = drop_for_def count_block_def writeTUN_def roam_def sourceOK_def

text \<open>Packets leave the tables, and everything else a registration set up, alone.\<close>

definition same_tables :: "('t, 'w) Pump \<Rightarrow> ('t, 'w) Pump \<Rightarrow> bool" where
  "same_tables p p' \<longleftrightarrow> byKey p' = byKey p \<and> routes p' = routes p \<and> stats p' = stats p
     \<and> next_block p' = next_block p \<and> retired p' = retired p \<and> inner_mtu p' = inner_mtu p"

lemma same_tables_refl [simp]: "same_tables p p"
  by (simp add: same_tables_def)

lemma same_tables_trans: "same_tables p q \<Longrightarrow> same_tables q r \<Longrightarrow> same_tables p r"
  by (simp add: same_tables_def)

lemma same_tables_steps [simp]:
  "same_tables p (drop_for r q) = same_tables p q"
  "same_tables p (count_block c f q) = same_tables p q"
  "same_tables p (roam b from q) = same_tables p q"
  "same_tables p (q\<lparr>world := w\<rparr>) = same_tables p q"
  "same_tables p (q\<lparr>lastInbound := n\<rparr>) = same_tables p q"
  "same_tables p (q\<lparr>shaper := sh\<rparr>) = same_tables p q"
  "same_tables p (q\<lparr>sent := x\<rparr>) = same_tables p q"
  by (auto simp: same_tables_def pump_step_defs split: option.splits)

lemma same_tables_writeTUN [simp]: "same_tables p (snd (writeTUN e x q)) = same_tables p q"
  by (simp add: same_tables_def writeTUN_def)

lemma same_tables_sourceOK [simp]: "same_tables p (snd (sourceOK b x q)) = same_tables p q"
  by (simp add: same_tables_def sourceOK_def drop_for_def split: option.splits)

lemma deliver_induct_step:
  "deliver e b now (x # xs) q =
     (if length x = 0 then deliver e b now xs q
      else if fst (sourceOK b x q)
      then (let c = count_block (bc b) (countRx (length x) now) q in
            if tun_accepts e x then deliver e b now xs (c\<lparr>tun_out := tun_out c @ [x]\<rparr>) else drop_for DropTUNWrite c)
      else deliver e b now xs (drop_for DropSpoofedSource q))"
  by (auto simp: sourceOK_def writeTUN_def Let_def split: option.splits)

declare deliver.simps(2) [simp del]

lemma deliver_tables: "same_tables p q \<Longrightarrow> same_tables p (deliver e b now xs q)"
proof (induction xs arbitrary: q)
  case (Cons x xs)
  have "same_tables p (c\<lparr>tun_out := t\<rparr>)" if "same_tables p c" for c t
    using that by (simp add: same_tables_def)
  then show ?case using Cons unfolding deliver_induct_step Let_def by simp
qed simp

text \<open>A datagram authenticates when the tunnel its key names opens it.\<close>

definition opens :: "('t, 'w) tunnel_env \<Rightarrow> 't bound \<Rightarrow> bytes \<Rightarrow> 'w \<Rightarrow> bool" where
  "opens e b pkt w \<longleftrightarrow> (if b_multi b then fst (DecapsulateMulti e (bt b) pkt w) \<noteq> None
     else fst (Decapsulate e (bt b) pkt w) \<noteq> None)"

definition moved :: "'t bound \<Rightarrow> UDPAddr option \<Rightarrow> int \<Rightarrow> 'w \<Rightarrow> ('t, 'w) Pump \<Rightarrow> ('t, 'w) Pump" where
  "moved b from now w p = (roam b from (p\<lparr>world := w\<rparr>))\<lparr>lastInbound := now\<rparr>"

lemma handleInbound_cases:
  obtains (no_key) "demux e pkt = None" "handleInbound e pkt from now p = drop_for DropNoKey p"
  | (unknown) key where "demux e pkt = Some key" "byKey p key = None"
      "handleInbound e pkt from now p = drop_for DropUnknownKey p"
  | (closed) key b w where "demux e pkt = Some key" "byKey p key = Some b" "\<not> opens e b pkt (world p)"
      "handleInbound e pkt from now p = drop_for DropDecapFailed (p\<lparr>world := w\<rparr>)"
  | (keepalive) key b w where "demux e pkt = Some key" "byKey p key = Some b" "opens e b pkt (world p)"
      "handleInbound e pkt from now p = count_block (bc b) (countRx 0 now) (moved b from now w p)"
  | (inner) key b w xs where "demux e pkt = Some key" "byKey p key = Some b" "opens e b pkt (world p)"
      "handleInbound e pkt from now p = deliver e b now xs (moved b from now w p)"
proof (cases "demux e pkt")
  case None
  then show thesis using no_key by (simp add: handleInbound_def lookupInbound_def)
next
  case (Some key)
  show thesis
  proof (cases "byKey p key")
    case None
    then show thesis using unknown Some by (simp add: handleInbound_def lookupInbound_def)
  next
    case b: (Some b)
    have h: "handleInbound e pkt from now p =
       (if b_multi b then handleInboundMulti e b pkt from now p
        else case decapInbound e b pkt from now p of
               (None, p2) \<Rightarrow> p2
             | (Some inner, p2) \<Rightarrow>
                 (case writeTUN e inner (count_block (bc b) (countRx (length inner) now) p2) of
                    (False, p3) \<Rightarrow> drop_for DropTUNWrite p3
                  | (True, p3) \<Rightarrow> p3))"
      using Some b by (simp add: handleInbound_def lookupInbound_def)
    show thesis
    proof (cases "b_multi b")
      case True
      obtain r w where r: "DecapsulateMulti e (bt b) pkt (world p) = (r, w)" by fastforce
      then show thesis
        using closed [OF Some b, of w] inner [OF Some b, of "the r" w] h True
        by (cases r) (auto simp: opens_def handleInboundMulti_def decapMulti_def moved_def)
    next
      case False
      obtain r w where r: "Decapsulate e (bt b) pkt (world p) = (r, w)" by fastforce
      show thesis
      proof (cases r)
        case None
        then show thesis using closed [OF Some b, of w] h False r by (auto simp: opens_def decapInbound_def)
      next
        case (Some x)
        have opn: "opens e b pkt (world p)" using Some False r by (simp add: opens_def)
        have d: "decapInbound e b pkt from now p =
           (if length x = 0 then (None, count_block (bc b) (countRx 0 now) (moved b from now w p))
            else case sourceOK b x (moved b from now w p) of (False, p2) \<Rightarrow> (None, p2) | (True, p2) \<Rightarrow> (Some x, p2))"
          using Some r by (simp add: decapInbound_def moved_def Let_def)
        have dl: "handleInbound e pkt from now p = deliver e b now [x] (moved b from now w p)" if "length x \<noteq> 0"
          using that h False d
          by (auto simp: sourceOK_def writeTUN_def Let_def deliver_induct_step split: option.splits)
        show thesis
        proof (cases "length x = 0")
          case True
          then show thesis using keepalive [OF \<open>demux e pkt = Some key\<close> b opn, of w] h \<open>\<not> b_multi b\<close> d by simp
        next
          case False
          show thesis by (rule inner [OF \<open>demux e pkt = Some key\<close> b opn dl [OF False]])
        qed
      qed
    qed
  qed
qed

lemma moved_tables [simp]: "same_tables p (moved b from now w q) = same_tables p q"
  by (simp add: moved_def)

lemma handleInbound_tables: "same_tables p (handleInbound e pkt from now p)"
  by (cases e pkt "from" now p rule: handleInbound_cases) (auto intro: deliver_tables)

lemma deliver_effect:
  "\<exists>out. tun_out (deliver e b now xs q) = tun_out q @ out
     \<and> (\<forall>x \<in> set out. x \<noteq> [] \<and> (case srcRoutes b of None \<Rightarrow> True | Some rs \<Rightarrow> SourceWithin x rs))
     \<and> peer (deliver e b now xs q) = peer q \<and> lastInbound (deliver e b now xs q) = lastInbound q
     \<and> sent (deliver e b now xs q) = sent q \<and> shaper (deliver e b now xs q) = shaper q
     \<and> (\<forall>c. c \<noteq> bc b \<longrightarrow> blocks (deliver e b now xs q) c = blocks q c)"
proof (induction xs arbitrary: q)
  case (Cons x xs)
  let ?c = "count_block (bc b) (countRx (length x) now) q"
  have src: "fst (sourceOK b x q) = (case srcRoutes b of None \<Rightarrow> True | Some rs \<Rightarrow> SourceWithin x rs)"
    by (simp add: sourceOK_def split: option.split)
  have d: "tun_out (drop_for r q) = tun_out q" "peer (drop_for r q) = peer q" "lastInbound (drop_for r q) = lastInbound q"
    "sent (drop_for r q) = sent q" "shaper (drop_for r q) = shaper q" "blocks (drop_for r q) = blocks q" for r and q :: "('a, 'b) Pump"
    by (simp_all add: drop_for_def)
  have c: "tun_out ?c = tun_out q" "peer ?c = peer q" "lastInbound ?c = lastInbound q" "sent ?c = sent q"
    "shaper ?c = shaper q" "\<forall>a. a \<noteq> bc b \<longrightarrow> blocks ?c a = blocks q a"
    by (simp_all add: count_block_def)
  consider "length x = 0" | "length x \<noteq> 0" "\<not> fst (sourceOK b x q)"
    | "length x \<noteq> 0" "fst (sourceOK b x q)" "tun_accepts e x" | "length x \<noteq> 0" "fst (sourceOK b x q)" "\<not> tun_accepts e x"
    by blast
  then show ?case
  proof cases
    case 1
    then show ?thesis using Cons.IH [of q] by (simp add: deliver_induct_step)
  next
    case 2
    then show ?thesis using Cons.IH [of "drop_for DropSpoofedSource q"] by (simp add: deliver_induct_step d)
  next
    case 3
    then have e: "deliver e b now (x # xs) q = deliver e b now xs (?c\<lparr>tun_out := tun_out ?c @ [x]\<rparr>)"
      by (simp add: deliver_induct_step Let_def)
    obtain out where out: "tun_out (deliver e b now xs (?c\<lparr>tun_out := tun_out ?c @ [x]\<rparr>)) = (tun_out q @ [x]) @ out"
      "\<forall>y \<in> set out. y \<noteq> [] \<and> (case srcRoutes b of None \<Rightarrow> True | Some rs \<Rightarrow> SourceWithin y rs)"
      using Cons.IH [of "?c\<lparr>tun_out := tun_out ?c @ [x]\<rparr>"] c by auto
    have "\<forall>y \<in> set (x # out). y \<noteq> [] \<and> (case srcRoutes b of None \<Rightarrow> True | Some rs \<Rightarrow> SourceWithin y rs)"
      using out(2) 3(1,2) src by simp
    moreover have "tun_out (deliver e b now (x # xs) q) = tun_out q @ (x # out)" using e out(1) by simp
    ultimately show ?thesis using Cons.IH [of "?c\<lparr>tun_out := tun_out ?c @ [x]\<rparr>"] c unfolding e by auto
  next
    case 4
    then show ?thesis by (simp add: deliver_induct_step Let_def d c)
  qed
qed simp

text \<open>
  C1: A datagram that does not authenticate cannot act: whatever it contains and wherever it comes
  from, the pump delivers nothing, moves no return address, refreshes no liveness clock and counts
  no traffic; it counts one drop under the reason that applies and touches only the protocol's own
  state.
\<close>

theorem unauthenticated_inert:
  assumes "\<not> (\<exists>key b. demux e pkt = Some key \<and> byKey p key = Some b \<and> opens e b pkt (world p))"
  shows "\<exists>r w. handleInbound e pkt from now p = (p\<lparr>world := w\<rparr>)\<lparr>drops := (drops p)(r := drops p r + 1)\<rparr>
    \<and> r = (case demux e pkt of None \<Rightarrow> DropNoKey | Some key \<Rightarrow> if byKey p key = None then DropUnknownKey else DropDecapFailed)"
  using assms
proof (cases e pkt "from" now p rule: handleInbound_cases)
  case no_key
  then show ?thesis by (intro exI [of _ DropNoKey] exI [of _ "world p"]) (simp add: drop_for_def)
next
  case (unknown key)
  then show ?thesis by (intro exI [of _ DropUnknownKey] exI [of _ "world p"]) (simp add: drop_for_def)
next
  case (closed key b w)
  then show ?thesis by (intro exI [of _ DropDecapFailed] exI [of _ w]) (simp add: drop_for_def)
qed blast+

text \<open>
  C25: A peer's return address follows authenticated datagrams only: if handling a datagram changed
  where a tunnel's packets go, then the datagram's key names that tunnel, the tunnel opened it, the
  tunnel's peers may roam, and the new address is the datagram's own source.
\<close>

theorem roam_after_authentication:
  assumes "peer (handleInbound e pkt from now p) t \<noteq> peer p t"
  shows "\<exists>key b. demux e pkt = Some key \<and> byKey p key = Some b \<and> bt b = t \<and> opens e b pkt (world p) \<and> b_roam b
    \<and> from = Some (peer (handleInbound e pkt from now p) t)"
proof -
  have d: "peer (deliver e b now xs q) = peer q" for b xs and q :: "('a, 'b) Pump"
    using deliver_effect [of e b now xs q] by auto
  have m: "peer (moved b from now w p) s \<noteq> peer p s \<Longrightarrow> bt b = s \<and> b_roam b \<and> from = Some (peer (moved b from now w p) s)" for b w s
    by (auto simp: moved_def roam_def split: option.splits if_splits)
  show ?thesis
    using assms
  proof (cases e pkt "from" now p rule: handleInbound_cases)
    case (keepalive key b w)
    then have "peer (handleInbound e pkt from now p) = peer (moved b from now w p)" by (simp add: count_block_def)
    then show ?thesis using assms keepalive m by metis
  next
    case (inner key b w xs)
    then have "peer (handleInbound e pkt from now p) = peer (moved b from now w p)" by (simp add: d)
    then show ?thesis using assms inner m by metis
  qed (simp_all add: drop_for_def)
qed

section \<open>Reachable pumps\<close>

text \<open>
  The life of a pump: registrations, datagrams from the network, packets from the TUN, changes of
  its settings, and protocols that act on their own state.
\<close>

inductive pump_step :: "('t, 'w) tunnel_env \<Rightarrow> ('t, 'w) Pump \<Rightarrow> ('t, 'w) Pump \<Rightarrow> bool" for e :: "('t, 'w) tunnel_env" where
  add: "AddTunnel e t p = Some p' \<Longrightarrow> pump_step e p p'"
| remove: "RemoveTunnel e t p = Some p' \<Longrightarrow> pump_step e p p'"
| add_key: "pump_step e p (AddInboundKey e key t p)"
| remove_key: "pump_step e p (RemoveInboundKey key p)"
| inbound: "pump_step e p (handleInbound e pkt from now p)"
| outbound: "pump_step e p (routeOutbound e now pkt p)"
| shape: "pump_step e p (SetShaper sh p)"
| mtu: "pump_step e p (SetInnerMTU m p)"
| protocol: "pump_step e p (p\<lparr>world := w, peer := pe\<rparr>)"

inductive pump_reach :: "('t, 'w) tunnel_env \<Rightarrow> ('t, 'w) Pump \<Rightarrow> bool" for e :: "('t, 'w) tunnel_env" where
  start: "pump_reach e (NewPump now pe w)"
| step: "pump_reach e p \<Longrightarrow> pump_step e p p' \<Longrightarrow> pump_reach e p'"

text \<open>Every route a tunnel reports is a valid prefix.\<close>

definition env_ok :: "('t, 'w) tunnel_env \<Rightarrow> bool" where
  "env_ok e \<longleftrightarrow> (\<forall>t w. \<forall>pf \<in> set (Routes e t w). pfx_valid pf)"

definition bound_ok :: "('t, 'w) tunnel_env \<Rightarrow> ('t, 'w) Pump \<Rightarrow> 't bound \<Rightarrow> bool" where
  "bound_ok e p b \<longleftrightarrow> (\<exists>w. b = bind_tunnel e w (bt b) (bc b)) \<and> bc b < next_block p"

definition pump_inv :: "('t, 'w) tunnel_env \<Rightarrow> ('t, 'w) Pump \<Rightarrow> bool" where
  "pump_inv e p \<longleftrightarrow> table_ok (routes p)
     \<and> (\<forall>k b. byKey p k = Some b \<longrightarrow> bound_ok e p b)
     \<and> (\<forall>pf b. table_abs (routes p) pf = Some b \<longrightarrow> bound_ok e p b)
     \<and> (\<forall>t c. stats p t = Some c \<longrightarrow> c < next_block p)
     \<and> inj_on (stats p) (dom (stats p)) \<and> finite (dom (stats p))"

lemma pump_inv_tables: "pump_inv e p \<Longrightarrow> same_tables p q \<Longrightarrow> pump_inv e q"
  by (simp add: pump_inv_def same_tables_def bound_ok_def)

lemma counters_inv:
  assumes "pump_inv e p" and "counters t p = (c, q)"
  shows "pump_inv e q" "c < next_block q" "stats q t = Some c" "routes q = routes p" "byKey q = byKey p"
    "world q = world p" "next_block p \<le> next_block q"
proof -
  show "pump_inv e q"
  proof (cases "stats p t")
    case None
    then have q: "q = p\<lparr>blocks := (blocks p)(next_block p := zero_counters), next_block := next_block p + 1,
                 stats := (stats p)(t \<mapsto> next_block p)\<rparr>" using assms(2) by (auto simp: counters_def)
    have lt: "\<forall>s c. stats p s = Some c \<longrightarrow> c < next_block p" and inj: "inj_on (stats p) (dom (stats p))"
      using assms(1) by (simp_all add: pump_inv_def)
    have "next_block p \<notin> ran (stats p)" using lt by (auto simp: ran_def)
    with inj have i: "inj_on ((stats p)(t \<mapsto> next_block p)) (dom ((stats p)(t \<mapsto> next_block p)))" by (rule inj_on_map_upd)
    have mono: "bound_ok e p b \<Longrightarrow> bound_ok e q b" for b by (auto simp: bound_ok_def q)
    have "\<forall>s c. stats q s = Some c \<longrightarrow> c < next_block q" using lt by (auto simp: q less_Suc_eq)
    moreover have "inj_on (stats q) (dom (stats q))" "finite (dom (stats q))" "routes q = routes p" "byKey q = byKey p"
      using i assms(1) by (simp_all add: q pump_inv_def)
    ultimately show ?thesis using assms(1) mono unfolding pump_inv_def by (metis (no_types))
  next
    case (Some d)
    then show ?thesis using assms by (simp add: counters_def)
  qed
qed (use assms in \<open>auto simp: counters_def pump_inv_def split: option.splits\<close>)

lemma bind_tunnel_simps [simp]: "bt (bind_tunnel e w t c) = t" "bc (bind_tunnel e w t c) = c"
  by (simp_all add: bind_tunnel_def)

lemma bound_ok_bind: "c < next_block p \<Longrightarrow> bound_ok e p (bind_tunnel e w t c)"
  by (auto simp: bound_ok_def)

lemma AddTunnel_form:
  assumes "pump_inv e p" and "env_ok e"
  obtains c q rt w' where "counters t p = (c, q)"
    "AddTunnel e t p = Some (q\<lparr>byKey := (byKey p)(InboundKey e t (world p) \<mapsto> bind_tunnel e (world p) t c), routes := rt, world := w'\<rparr>)"
    "table_ok rt" "table_abs rt = (\<lambda>pf. if pf \<in> Masked ` set (Routes e t (world p)) then Some (bind_tunnel e (world p) t c)
       else table_abs (routes p) pf)"
proof -
  obtain c q where cq: "counters t p = (c, q)" by fastforce
  note q = counters_inv [OF assms(1) cq]
  let ?b = "bind_tunnel e (world p) t c"
  obtain rt where rt: "ins_all insert_route (Routes e t (world p)) ?b (routes p) = Some rt" "table_ok rt"
    "table_abs rt = (\<lambda>pf. if pf \<in> Masked ` set (Routes e t (world p)) then Some ?b else table_abs (routes p) pf)"
    using table.ins_all_abs [of "routes p" "Routes e t (world p)" ?b] assms by (auto simp: pump_inv_def env_ok_def)
  let ?q2 = "q\<lparr>byKey := (byKey p)(InboundKey e t (world p) \<mapsto> ?b), routes := rt\<rparr>"
  have "AddTunnel e t p = Some (?q2\<lparr>world := (if isPaced e t then StartPacing e t (world p) else world p)\<rparr>)"
    using rt(1) q(4,5,6) by (simp add: AddTunnel_def cq)
  then show thesis using that [OF cq _ rt(2,3)] by simp
qed

lemma RemoveTunnel_form:
  assumes "pump_inv e p" and "env_ok e"
  obtains rt w' where
    "RemoveTunnel e t p = Some (p\<lparr>byKey := (\<lambda>k. case byKey p k of Some b \<Rightarrow> if bt b = t then None else Some b | None \<Rightarrow> None),
       routes := rt, world := w', stats := (stats p)(t := None),
       retired := (case stats p t of Some c \<Rightarrow> stats_add (retired p) (Snapshot (blocks p c)) | None \<Rightarrow> retired p)\<rparr>)"
    "table_ok rt" "table_abs rt = (\<lambda>q. if q \<in> Masked ` set (Routes e t (world p)) \<and> map_option bt (table_abs (routes p) q) = Some t
       then None else table_abs (routes p) q)"
proof -
  obtain rt where rt: "rem_all (removeOwned bt) (Routes e t (world p)) t (routes p) = Some rt" "table_ok rt"
    "table_abs rt = (\<lambda>q. if q \<in> Masked ` set (Routes e t (world p)) \<and> map_option bt (table_abs (routes p) q) = Some t
       then None else table_abs (routes p) q)"
    using table.rem_all_abs [of "routes p" "Routes e t (world p)" bt t] assms by (auto simp: pump_inv_def env_ok_def)
  have none: "(stats p)(t := None) = stats p" if "stats p t = None" using that by (simp add: fun_upd_idem)
  have "RemoveTunnel e t p = Some (p\<lparr>byKey := (\<lambda>k. case byKey p k of Some b \<Rightarrow> if bt b = t then None else Some b | None \<Rightarrow> None),
       routes := rt, world := (if isPaced e t then StopPacing e t (world p) else world p), stats := (stats p)(t := None),
       retired := (case stats p t of Some c \<Rightarrow> stats_add (retired p) (Snapshot (blocks p c)) | None \<Rightarrow> retired p)\<rparr>)"
    using rt(1) none by (cases "stats p t") (simp_all add: RemoveTunnel_def Let_def)
  then show thesis using that rt(2,3) by blast
qed

lemma routeOutbound_tables: "same_tables p (routeOutbound e now pkt p)"
proof -
  have "same_tables p (snd (encap e now b pkt m p))" for b m
    by (simp add: encap_def Let_def case_prod_beta)
  then have n: "encap e now b pkt m p = (r, q) \<Longrightarrow> same_tables p q" for b m r q by (metis snd_conv)
  show ?thesis
  proof (cases "innerDest pkt")
    case None
    then show ?thesis by (simp add: routeOutbound_def)
  next
    case (Some dst)
    show ?thesis
    proof (cases "lookup_route (routes p) dst")
      case None
      then show ?thesis using Some by (simp add: routeOutbound_def)
    next
      case b: (Some b)
      then show ?thesis using Some n
        by (auto simp: routeOutbound_def Let_def split: option.split prod.split bool.split)
    qed
  qed
qed

lemma pump_inv_step:
  assumes "pump_step e p p'" and "pump_inv e p" and env: "env_ok e"
  shows "pump_inv e p'"
  using assms(1)
proof cases
  case (add t)
  from assms(2) env obtain c q rt w' where f: "counters t p = (c, q)"
    "AddTunnel e t p = Some (q\<lparr>byKey := (byKey p)(InboundKey e t (world p) \<mapsto> bind_tunnel e (world p) t c), routes := rt, world := w'\<rparr>)"
    "table_ok rt" "table_abs rt = (\<lambda>pf. if pf \<in> Masked ` set (Routes e t (world p)) then Some (bind_tunnel e (world p) t c)
       else table_abs (routes p) pf)" by (rule AddTunnel_form)
  note q = counters_inv [OF assms(2) f(1)]
  have "bound_ok e q b \<Longrightarrow> bound_ok e p' b" for b using add f(2) by (auto simp: bound_ok_def)
  then show ?thesis using add f(2-4) q bound_ok_bind [OF q(2), of e "world p" t]
    by (auto simp: pump_inv_def split: if_splits)
next
  case (remove t)
  from assms(2) env obtain rt w' where f:
    "RemoveTunnel e t p = Some (p\<lparr>byKey := (\<lambda>k. case byKey p k of Some b \<Rightarrow> if bt b = t then None else Some b | None \<Rightarrow> None),
       routes := rt, world := w', stats := (stats p)(t := None),
       retired := (case stats p t of Some c \<Rightarrow> stats_add (retired p) (Snapshot (blocks p c)) | None \<Rightarrow> retired p)\<rparr>)"
    "table_ok rt" "table_abs rt = (\<lambda>q. if q \<in> Masked ` set (Routes e t (world p)) \<and> map_option bt (table_abs (routes p) q) = Some t
       then None else table_abs (routes p) q)" by (rule RemoveTunnel_form)
  have "bound_ok e p b \<Longrightarrow> bound_ok e p' b" for b using remove f(1) by (auto simp: bound_ok_def)
  moreover have "inj_on ((stats p)(t := None)) (dom (stats p) - {t})"
    using assms(2) by (auto simp: pump_inv_def inj_on_def)
  ultimately show ?thesis using remove f assms(2) by (auto simp: pump_inv_def split: option.splits if_splits)
next
  case (add_key key t)
  obtain c q where cq: "counters t p = (c, q)" by fastforce
  note q = counters_inv [OF assms(2) cq]
  have "bound_ok e q b \<Longrightarrow> bound_ok e p' b" for b using add_key cq by (auto simp: bound_ok_def AddInboundKey_def)
  then show ?thesis using add_key cq q bound_ok_bind [OF q(2), of e "world p" t]
    by (auto simp: pump_inv_def AddInboundKey_def split: if_splits)
next
  case (inbound pkt "from" now)
  then show ?thesis using pump_inv_tables [OF assms(2)] handleInbound_tables by blast
next
  case (outbound now pkt)
  then show ?thesis using pump_inv_tables [OF assms(2)] routeOutbound_tables by blast
qed (use assms(2) in \<open>auto simp: pump_inv_def bound_ok_def RemoveInboundKey_def SetShaper_def SetInnerMTU_def\<close>)

lemma pump_inv_reach:
  assumes "pump_reach e p" and "env_ok e"
  shows "pump_inv e p"
  using assms
proof (induction rule: pump_reach.induct)
  case (start now pe w)
  then show ?case by (simp add: pump_inv_def NewPump_def new_table_simps)
next
  case (step p p')
  then show ?case using pump_inv_step by blast
qed

text \<open>Every entry of the routing table is a route its tunnel reported.\<close>

definition routes_owned :: "('t, 'w) tunnel_env \<Rightarrow> ('t, 'w) Pump \<Rightarrow> bool" where
  "routes_owned e p \<longleftrightarrow> (\<forall>pf b. table_abs (routes p) pf = Some b \<longrightarrow> (\<exists>w. pf \<in> Masked ` set (Routes e (bt b) w)))"

lemma routes_owned_cong: "routes_owned e p \<Longrightarrow> routes q = routes p \<Longrightarrow> routes_owned e q"
  by (simp add: routes_owned_def)

lemma routes_owned_step:
  assumes "pump_step e p p'" and "pump_inv e p" and env: "env_ok e" and own: "routes_owned e p"
  shows "routes_owned e p'"
  using assms(1)
proof cases
  case (add t)
  from assms(2) env obtain c q rt w' where f: "counters t p = (c, q)"
    "AddTunnel e t p = Some (q\<lparr>byKey := (byKey p)(InboundKey e t (world p) \<mapsto> bind_tunnel e (world p) t c), routes := rt, world := w'\<rparr>)"
    "table_ok rt" "table_abs rt = (\<lambda>pf. if pf \<in> Masked ` set (Routes e t (world p)) then Some (bind_tunnel e (world p) t c)
       else table_abs (routes p) pf)" by (rule AddTunnel_form)
  have "routes p' = rt" using add f(2) by auto
  moreover have "\<exists>w. pf \<in> Masked ` set (Routes e (bt b) w)" if "table_abs rt pf = Some b" for pf b
  proof (cases "pf \<in> Masked ` set (Routes e t (world p))")
    case True
    then have "bt b = t" using that unfolding f(4) by auto
    then show ?thesis using True by blast
  next
    case False
    then show ?thesis using that own unfolding f(4) routes_owned_def by simp
  qed
  ultimately show ?thesis by (simp add: routes_owned_def)
next
  case (remove t)
  from assms(2) env obtain rt w' where f:
    "RemoveTunnel e t p = Some (p\<lparr>byKey := (\<lambda>k. case byKey p k of Some b \<Rightarrow> if bt b = t then None else Some b | None \<Rightarrow> None),
       routes := rt, world := w', stats := (stats p)(t := None),
       retired := (case stats p t of Some c \<Rightarrow> stats_add (retired p) (Snapshot (blocks p c)) | None \<Rightarrow> retired p)\<rparr>)"
    "table_ok rt" "table_abs rt = (\<lambda>q. if q \<in> Masked ` set (Routes e t (world p)) \<and> map_option bt (table_abs (routes p) q) = Some t
       then None else table_abs (routes p) q)" by (rule RemoveTunnel_form)
  have "routes p' = rt" using remove f(1) by auto
  moreover have "table_abs rt pf = Some b \<Longrightarrow> table_abs (routes p) pf = Some b" for pf b
    unfolding f(3) by (simp split: if_splits)
  ultimately show ?thesis using own unfolding routes_owned_def by simp
next
  case (add_key key t)
  obtain c q where cq: "counters t p = (c, q)" by fastforce
  have "routes p' = routes p" using add_key cq counters_inv(4) [OF assms(2) cq] by (simp add: AddInboundKey_def)
  with own show ?thesis by (rule routes_owned_cong)
next
  case (inbound pkt "from" now)
  then have "routes p' = routes p" using handleInbound_tables [of p e pkt "from" now] by (simp add: same_tables_def)
  with own show ?thesis by (rule routes_owned_cong)
next
  case (outbound now pkt)
  then have "routes p' = routes p" using routeOutbound_tables [of p e now pkt] by (simp add: same_tables_def)
  with own show ?thesis by (rule routes_owned_cong)
qed (use own in \<open>simp_all add: routes_owned_def RemoveInboundKey_def SetShaper_def SetInnerMTU_def\<close>)

lemma routes_owned_reach:
  assumes "pump_reach e p" and "env_ok e"
  shows "routes_owned e p"
  using assms(1)
proof (induction rule: pump_reach.induct)
  case (start now pe w)
  then show ?case by (simp add: routes_owned_def NewPump_def new_table_simps)
next
  case (step p p')
  then show ?case using routes_owned_step pump_inv_reach assms(2) by blast
qed

section \<open>What the pump promises\<close>



text \<open>The order in which statistics are added up does not matter.\<close>

lemma stats_add_swap: "stats_add (stats_add s a) b = stats_add (stats_add s b) a"
  by (auto simp: stats_add_def After_def algebra_simps split: option.splits)

lemma Stats_total_drop:
  assumes "distinct ts" "distinct ts'" "t \<in> set ts" "set ts' = set ts - {t}"
    and "blocks p' = blocks p" "\<forall>s \<in> set ts'. stats p' s = stats p s"
    and "retired p' = stats_add (retired p) (Snapshot (blocks p (the (stats p t))))"
  shows "Stats_total ts' p' = Stats_total ts p"
proof -
  let ?f = "\<lambda>t s. stats_add s (Snapshot (blocks p (the (stats p t))))"
  have comm: "?f x \<circ> ?f y = ?f y \<circ> ?f x" for x y by (auto simp: stats_add_swap)
  have "mset ts' = mset (remove1 t ts)" using assms(1-4) set_eq_iff_mset_eq_distinct [of ts' "remove1 t ts"]
    by (simp del: mset_remove1)
  then have "fold ?f ts' = fold ?f (remove1 t ts)" using comm by (intro fold_multiset_equiv) auto
  then have "fold ?f ts (retired p) = fold ?f ts' (?f t (retired p))"
    using fold_remove1_split [of ts ?f t] comm assms(3) by auto
  moreover have "Stats_total ts' p' = fold ?f ts' (retired p')"
    unfolding Stats_total_def using assms(5,6) by (intro fold_cong) auto
  ultimately show ?thesis using assms(7) by (simp add: Stats_total_def)
qed

lemma Stats_total_perm:
  assumes "distinct ts" "distinct ts'" "set ts' = set ts" and "stats p' = stats p" "blocks p' = blocks p" "retired p' = retired p"
  shows "Stats_total ts' p' = Stats_total ts p"
proof -
  have "mset ts' = mset ts" using assms(1-3) set_eq_iff_mset_eq_distinct [of ts' ts] by simp
  then have "fold (\<lambda>t s. stats_add s (Snapshot (blocks p (the (stats p t))))) ts' = fold (\<lambda>t s. stats_add s (Snapshot (blocks p (the (stats p t))))) ts"
    by (intro fold_multiset_equiv) (auto simp: stats_add_swap)
  then show ?thesis using assms(4-6) by (simp add: Stats_total_def)
qed

lemma RemoveTunnel_effect:
  assumes "pump_reach e p" and "env_ok e" and "\<forall>t w w'. Routes e t w = Routes e t w'"
    and "RemoveTunnel e t p = Some p'"
  shows "byKey p' k = Some b \<longleftrightarrow> byKey p k = Some b \<and> bt b \<noteq> t"
    and "table_abs (routes p') pf = Some b \<longleftrightarrow> table_abs (routes p) pf = Some b \<and> bt b \<noteq> t"
    and "table_ok (routes p')"
    and "stats p' = (stats p)(t := None)" and "blocks p' = blocks p"
    and "retired p' = (case stats p t of Some c \<Rightarrow> stats_add (retired p) (Snapshot (blocks p c)) | None \<Rightarrow> retired p)"
proof -
  note inv = pump_inv_reach [OF assms(1,2)]
  from inv assms(2) obtain rt w' where f:
    "RemoveTunnel e t p = Some (p\<lparr>byKey := (\<lambda>k. case byKey p k of Some b \<Rightarrow> if bt b = t then None else Some b | None \<Rightarrow> None),
       routes := rt, world := w', stats := (stats p)(t := None),
       retired := (case stats p t of Some c \<Rightarrow> stats_add (retired p) (Snapshot (blocks p c)) | None \<Rightarrow> retired p)\<rparr>)"
    "table_ok rt" "table_abs rt = (\<lambda>q. if q \<in> Masked ` set (Routes e t (world p)) \<and> map_option bt (table_abs (routes p) q) = Some t
       then None else table_abs (routes p) q)" by (rule RemoveTunnel_form)
  show "stats p' = (stats p)(t := None)" "blocks p' = blocks p"
    "retired p' = (case stats p t of Some c \<Rightarrow> stats_add (retired p) (Snapshot (blocks p c)) | None \<Rightarrow> retired p)"
    using assms(4) unfolding f(1) by auto
  have p': "byKey p' = (\<lambda>k. case byKey p k of Some b \<Rightarrow> if bt b = t then None else Some b | None \<Rightarrow> None)"
    "routes p' = rt" using assms(4) unfolding f(1) by auto
  show "table_ok (routes p')" using f(2) p'(2) by simp
  show "byKey p' k = Some b \<longleftrightarrow> byKey p k = Some b \<and> bt b \<noteq> t"
    by (auto simp: p'(1) split: option.splits)
  have "table_abs (routes p) pf = Some b \<Longrightarrow> pf \<in> Masked ` set (Routes e (bt b) (world p))"
    using routes_owned_reach [OF assms(1,2)] assms(3) unfolding routes_owned_def by metis
  then show "table_abs (routes p') pf = Some b \<longleftrightarrow> table_abs (routes p) pf = Some b \<and> bt b \<noteq> t"
    unfolding p'(2) f(3) by auto
qed

text \<open>
  C23: Removing a tunnel withdraws all of it and nothing else: afterwards no key and no route leads
  to it and it holds no counters, while every key and every route of the other tunnels is as before,
  whichever prefixes they shared; and the counters it had are folded into the total, so the
  statistics over all tunnels, in whatever order they are summed, do not change. The routes a
  tunnel reports must not change during its life.
\<close>

theorem RemoveTunnel_exact:
  assumes "pump_reach e p" and "env_ok e" and "\<forall>t w w'. Routes e t w = Routes e t w'"
    and "RemoveTunnel e t p = Some p'"
  shows "(\<forall>k b. byKey p' k = Some b \<longleftrightarrow> byKey p k = Some b \<and> bt b \<noteq> t)
    \<and> (\<forall>pf b. table_abs (routes p') pf = Some b \<longleftrightarrow> table_abs (routes p) pf = Some b \<and> bt b \<noteq> t)
    \<and> TunnelStats_of t p' = None
    \<and> (\<forall>ts ts'. distinct ts \<and> set ts = dom (stats p) \<and> distinct ts' \<and> set ts' = dom (stats p')
         \<longrightarrow> Stats_total ts' p' = Stats_total ts p)"
proof -
  note r = RemoveTunnel_effect [OF assms]
  have "Stats_total ts' p' = Stats_total ts p"
    if d: "distinct ts" "set ts = dom (stats p)" "distinct ts'" "set ts' = dom (stats p')" for ts ts'
  proof (cases "stats p t")
    case None
    then have "stats p' = stats p" "retired p' = retired p" using r(4,6) by (auto simp: fun_upd_idem)
    then show ?thesis using d r(5) by (intro Stats_total_perm) auto
  next
    case (Some c)
    then show ?thesis using d r(4-6) by (intro Stats_total_drop [of _ _ t]) auto
  qed
  then show ?thesis using r(1,2,4) by (auto simp: TunnelStats_of_def)
qed

text \<open>
  C24: Rekeying by make-before-break loses no packet: when a new tunnel is registered and the old
  one removed afterwards, the new tunnel's key leads to it, and every destination the new tunnel
  reported a route for is routed, by a prefix at least as long, and never to the old tunnel;
  whatever was routed to the new tunnel before the removal still is.
\<close>

theorem rekey_keeps_traffic:
  assumes "pump_reach e p" and "env_ok e" and "\<forall>t w w'. Routes e t w = Routes e t w'"
    and "AddTunnel e new p = Some p1" and "RemoveTunnel e old p1 = Some p2" and "old \<noteq> new"
  shows "map_option bt (byKey p2 (InboundKey e new (world p))) = Some new
    \<and> (\<forall>dst. IsValid dst \<and> (\<exists>pf \<in> set (Routes e new (world p)). Contains (Masked pf) dst) \<longrightarrow>
         (\<exists>b. lookup_route (routes p2) dst = Some b \<and> bt b \<noteq> old))
    \<and> (\<forall>dst b. IsValid dst \<and> lookup_route (routes p1) dst = Some b \<and> bt b = new \<longrightarrow> lookup_route (routes p2) dst = Some b)"
proof (intro conjI allI impI)
  note inv = pump_inv_reach [OF assms(1,2)]
  have r1: "pump_reach e p1" using assms(1,4) pump_reach.step pump_step.add by metis
  note r = RemoveTunnel_effect [OF r1 assms(2,3,5)]
  have ok1: "table_ok (routes p1)" using pump_inv_reach [OF r1 assms(2)] by (simp add: pump_inv_def)
  from inv assms(2) obtain c q rt w' where f: "counters new p = (c, q)"
    "AddTunnel e new p = Some (q\<lparr>byKey := (byKey p)(InboundKey e new (world p) \<mapsto> bind_tunnel e (world p) new c), routes := rt, world := w'\<rparr>)"
    "table_ok rt" "table_abs rt = (\<lambda>pf. if pf \<in> Masked ` set (Routes e new (world p)) then Some (bind_tunnel e (world p) new c)
       else table_abs (routes p) pf)" by (rule AddTunnel_form)
  let ?b = "bind_tunnel e (world p) new c"
  have p1: "byKey p1 (InboundKey e new (world p)) = Some ?b" "routes p1 = rt" using assms(4) unfolding f(2) by auto
  show "map_option bt (byKey p2 (InboundKey e new (world p))) = Some new"
    using r(1) [of "InboundKey e new (world p)" ?b] p1(1) assms(6) by simp
  {
    fix dst assume d: "IsValid dst \<and> (\<exists>pf \<in> set (Routes e new (world p)). Contains (Masked pf) dst)"
    then obtain pf where pf: "pf \<in> set (Routes e new (world p))" "Contains (Masked pf) dst" by blast
    have "table_abs (routes p1) (Masked pf) = Some ?b" using pf(1) by (simp add: p1(2) f(4))
    then have "table_abs (routes p2) (Masked pf) = Some ?b" using r(2) assms(6) by simp
    then obtain b where b: "lookup_route (routes p2) dst = Some b"
      using lookup_covered [OF r(3) conjunct1 [OF d] _ pf(2)] by blast
    then obtain pf' where "table_abs (routes p2) pf' = Some b"
      unfolding table.look_abs [OF r(3) conjunct1 [OF d]] by blast
    then show "\<exists>b. lookup_route (routes p2) dst = Some b \<and> bt b \<noteq> old" using b r(2) by blast
  next
    fix dst b assume d: "IsValid dst \<and> lookup_route (routes p1) dst = Some b \<and> bt b = new"
    then obtain pf where pf: "longest_match (table_abs (routes p1)) dst pf" "table_abs (routes p1) pf = Some b"
      using table.look_abs [OF ok1, of dst b] by blast
    have "table_abs (routes p2) pf = Some b" using r(2) pf(2) d assms(6) by simp
    moreover have "longest_match (table_abs (routes p2)) dst pf"
      using pf(1) calculation r(2) unfolding longest_match_def dom_def by blast
    ultimately show "lookup_route (routes p2) dst = Some b"
      using table.look_abs [OF r(3), of dst b] d by blast
  }
qed

section \<open>A concrete pump\<close>

text \<open>
  A protocol that puts its four-octet key in front of the packet and routes 10.t.0.0/16, and a
  pump with one of its tunnels.
\<close>

definition example_env :: "(nat, unit) tunnel_env" where
  "example_env = \<lparr>InboundKey = (\<lambda>t w. of_nat t), Routes = (\<lambda>t w. [\<lparr>pfx_addr = Addr4 (0x0a000000 + of_nat t * 0x10000), pfx_bits = 16\<rparr>]),
     VerifyInboundSource = (\<lambda>t. True), isMulti = (\<lambda>t. False), isPaced = (\<lambda>t. False), isRoamer = (\<lambda>t. True),
     isPadding = (\<lambda>t. False), isAppend = (\<lambda>t. False),
     Encapsulate = (\<lambda>t pkt w. (Some ([0, 0, 0, of_nat t] @ pkt), w)),
     EncapsulatePadded = (\<lambda>t pkt n w. (None, w)), AppendEncapsulated = (\<lambda>t pkt n w. (None, w)),
     Decapsulate = (\<lambda>t pkt w. (if length pkt < 4 then None else Some (drop 4 pkt), w)),
     DecapsulateMulti = (\<lambda>t pkt w. (None, w)), Enqueue = (\<lambda>t pkt w. (False, w)),
     StartPacing = (\<lambda>t w. w), StopPacing = (\<lambda>t w. w), demux = SPIDemux, tun_accepts = (\<lambda>pkt. True)\<rparr>"

definition example_pump :: "(nat, unit) Pump" where
  "example_pump = AddInboundKey example_env 1 1 (NewPump 0 (\<lambda>t. (Addr4 1, 500)) ())"

lemma example_env_ok: "env_ok example_env"
  by (simp add: env_ok_def example_env_def pfx_valid_def)

lemma example_routes: "\<forall>t w w'. Routes example_env t w = Routes example_env t w'"
  by (simp add: example_env_def)

lemma example_reach: "pump_reach example_env example_pump"
  unfolding example_pump_def by (rule pump_reach.step [OF pump_reach.start pump_step.add_key])

lemmas example_simps = example_env_def example_pump_def AddInboundKey_def NewPump_def counters_def bind_tunnel_def

theorem unauthenticated_inert_witness:
  "\<not> (\<exists>key b. demux example_env [0, 0, 0, 7, 1] = Some key \<and> byKey example_pump key = Some b
      \<and> opens example_env b [0, 0, 0, 7, 1] (world example_pump))
   \<and> (\<exists>r w. handleInbound example_env [0, 0, 0, 7, 1] None 5 example_pump =
        (example_pump\<lparr>world := w\<rparr>)\<lparr>drops := (drops example_pump)(r := drops example_pump r + 1)\<rparr>
      \<and> r = (case demux example_env [0, 0, 0, 7, 1] of None \<Rightarrow> DropNoKey
          | Some key \<Rightarrow> if byKey example_pump key = None then DropUnknownKey else DropDecapFailed))"
proof -
  have h: "\<not> (\<exists>key b. demux example_env [0, 0, 0, 7, 1] = Some key \<and> byKey example_pump key = Some b
      \<and> opens example_env b [0, 0, 0, 7, 1] (world example_pump))"
    by (simp add: example_simps SPIDemux_def wire_simps eval_simps)
  show ?thesis using h unauthenticated_inert [OF h] by simp
qed

theorem roam_after_authentication_witness:
  "peer (handleInbound example_env [0, 0, 0, 1] (Some (Addr4 2, 600)) 5 example_pump) 1 \<noteq> peer example_pump 1
   \<and> (\<exists>key b. demux example_env [0, 0, 0, 1] = Some key \<and> byKey example_pump key = Some b \<and> bt b = 1
      \<and> opens example_env b [0, 0, 0, 1] (world example_pump) \<and> b_roam b
      \<and> Some (Addr4 2, 600) = Some (peer (handleInbound example_env [0, 0, 0, 1] (Some (Addr4 2, 600)) 5 example_pump) 1))"
proof -
  have h: "peer (handleInbound example_env [0, 0, 0, 1] (Some (Addr4 2, 600)) 5 example_pump) 1 \<noteq> peer example_pump 1"
    by (simp add: example_simps handleInbound_def lookupInbound_def decapInbound_def roam_def count_block_def
        SPIDemux_def wire_simps eval_simps)
  show ?thesis using h roam_after_authentication [OF h] by blast
qed



lemma example_remove: "\<exists>p'. RemoveTunnel example_env 1 example_pump = Some p'"
  using RemoveTunnel_form [OF pump_inv_reach [OF example_reach example_env_ok] example_env_ok, of 1] by metis

theorem RemoveTunnel_exact_witness:
  "pump_reach example_env example_pump \<and> env_ok example_env \<and> (\<forall>t w w'. Routes example_env t w = Routes example_env t w')
   \<and> (\<exists>p'. RemoveTunnel example_env 1 example_pump = Some p' \<and> byKey p' 1 = None \<and> TunnelStats_of 1 p' = None)"
proof -
  obtain p' where p': "RemoveTunnel example_env 1 example_pump = Some p'" using example_remove by blast
  note r = RemoveTunnel_exact [OF example_reach example_env_ok example_routes p']
  have "byKey p' 1 = None"
  proof (rule ccontr)
    assume "byKey p' 1 \<noteq> None"
    then obtain b where "byKey p' 1 = Some b" by blast
    then have "byKey example_pump 1 = Some b \<and> bt b \<noteq> 1" by (rule iffD1 [OF spec [OF spec [OF conjunct1 [OF r]]]])
    then show False by (auto simp: example_simps)
  qed
  moreover have "TunnelStats_of 1 p' = None" using r by (elim conjE)
  ultimately show ?thesis by (intro conjI exI [of _ p'] example_reach example_env_ok example_routes p')
qed

theorem rekey_keeps_traffic_witness:
  "pump_reach example_env example_pump \<and> env_ok example_env \<and> (\<forall>t w w'. Routes example_env t w = Routes example_env t w')
   \<and> (\<exists>p1 p2. AddTunnel example_env 2 example_pump = Some p1 \<and> RemoveTunnel example_env 1 p1 = Some p2 \<and> (1::nat) \<noteq> 2
     \<and> map_option bt (byKey p2 2) = Some 2
     \<and> (\<exists>b. lookup_route (routes p2) (Addr4 0x0a020005) = Some b \<and> bt b \<noteq> 1))"
proof -
  note inv = pump_inv_reach [OF example_reach example_env_ok]
  obtain p1 where p1: "AddTunnel example_env 2 example_pump = Some p1"
    by (rule AddTunnel_form [OF inv example_env_ok, of 2]) blast
  have r1: "pump_reach example_env p1" by (rule pump_reach.step [OF example_reach pump_step.add [OF p1]])
  obtain p2 where p2: "RemoveTunnel example_env 1 p1 = Some p2"
    by (rule RemoveTunnel_form [OF pump_inv_reach [OF r1 example_env_ok] example_env_ok, of 1]) blast
  note r = rekey_keeps_traffic [OF example_reach example_env_ok example_routes p1 p2]
  have "\<exists>pf \<in> set (Routes example_env 2 (world example_pump)). Contains (Masked pf) (Addr4 0x0a020005)"
    by (simp add: example_env_def Masked_def Contains_def clear_low_def eval_simps)
  moreover have "InboundKey example_env 2 (world example_pump) = 2" by (simp add: example_env_def)
  ultimately have new: "map_option bt (byKey p2 2) = Some 2" "\<exists>b. lookup_route (routes p2) (Addr4 0x0a020005) = Some b \<and> bt b \<noteq> 1"
    using r by (simp_all del: bex_simps)
  show ?thesis by (intro conjI exI [of _ p1] exI [of _ p2] example_reach example_env_ok example_routes p1 p2 new) simp
qed

end
