(* ===== verification/Gro.thy ===== *)
theory Gro
  imports Checksum
begin

text \<open>
  Segmentation and coalescing of TCP on a TUN device with virtio-net headers: \<^verbatim>\<open>segmentTSO4\<close> and the header of
  \<^verbatim>\<open>dataplane/offload_linux.go\<close>, and the coalescing groups and their table of \<^verbatim>\<open>dataplane/gro_linux.go\<close>.  A group's buffer is the memory behind the slice and the slice's length, because the code truncates the slice
  and still reads what lies behind; an index beyond the length panics, which is \<open>None\<close>.  Writes to the device are
  collected in order.
\<close>

section \<open>Checksums and the virtio-net header\<close>

fun onesComplementSum :: "u32 \<Rightarrow> bytes \<Rightarrow> u32" where
  "onesComplementSum acc (a # b # r) = onesComplementSum (acc + (push_bit 8 (ucast a) OR ucast b)) r"
| "onesComplementSum acc [a] = acc + push_bit 8 (ucast a)"
| "onesComplementSum acc [] = acc"

function foldSum :: "u32 \<Rightarrow> u16" where
  "foldSum acc = (if drop_bit 16 acc \<noteq> 0 then foldSum ((acc AND 0xffff) + drop_bit 16 acc) else ucast acc)"
  by auto
termination
proof (relation "measure unat")
  fix s :: u32
  assume "drop_bit 16 s \<noteq> 0"
  then show "((s AND 0xffff) + drop_bit 16 s, s) \<in> measure unat" unfolding in_measure by (rule fold_decreases)
qed (rule wf_measure)

declare foldSum.simps [simp del]

record virtioNetHdr =
  vh_flags :: byte
  vh_gsoType :: byte
  vh_hdrLen :: u16
  vh_gsoSize :: u16
  vh_csumStart :: u16
  vh_csumOffset :: u16

definition le16 :: "u16 \<Rightarrow> bytes" where
  "le16 w = le_bytes 2 (unat w)"

definition getle16 :: "nat \<Rightarrow> bytes \<Rightarrow> u16" where
  "getle16 i xs = of_nat (le_val (slice i (i + 2) xs))"

definition putVirtioNetHdr :: "virtioNetHdr \<Rightarrow> bytes" where
  "putVirtioNetHdr h = [vh_flags h, vh_gsoType h] @ le16 (vh_hdrLen h) @ le16 (vh_gsoSize h) @ le16 (vh_csumStart h) @ le16 (vh_csumOffset h)"

definition parseVirtioNetHdr :: "bytes \<Rightarrow> virtioNetHdr" where
  "parseVirtioNetHdr b = \<lparr>vh_flags = b ! 0, vh_gsoType = b ! 1, vh_hdrLen = getle16 2 b, vh_gsoSize = getle16 4 b,
     vh_csumStart = getle16 6 b, vh_csumOffset = getle16 8 b\<rparr>"

definition completePartialChecksum :: "bytes \<Rightarrow> int \<Rightarrow> int \<Rightarrow> bytes" where
  "completePartialChecksum pkt start offset =
     (if start < 0 \<or> offset < 0 \<or> start + offset + 2 > int (length pkt) then pkt
      else put_at (nat (start + offset)) (be16 (NOT (foldSum (onesComplementSum 0 (drop (nat start) pkt))))) pkt)"

section \<open>Segmentation\<close>

datatype tso_error = TSONotIPv4 | TSOBounds | TSONotTCP byte

text \<open>Both checksums of a segment, computed over fields that were zeroed first.\<close>

definition stamp_checksums :: "nat \<Rightarrow> bytes \<Rightarrow> bytes" where
  "stamp_checksums ihl seg =
     (let seg = put_at 10 [0, 0] seg;
          seg = put_at 10 (be16 (NOT (foldSum (onesComplementSum 0 (take ihl seg))))) seg;
          seg = put_at (ihl + 16) [0, 0] seg;
          acc = onesComplementSum 0 (slice 12 20 seg);
          acc = acc + (6 + of_nat (length seg - ihl));
          acc = onesComplementSum acc (drop ihl seg)
      in put_at (ihl + 16) (be16 (NOT (foldSum acc))) seg)"

definition tso_segment :: "bytes \<Rightarrow> nat \<Rightarrow> nat \<Rightarrow> nat \<Rightarrow> nat \<Rightarrow> nat \<Rightarrow> bytes" where
  "tso_segment pkt ihl hdrsLen gso nseg i =
     (let payload = drop hdrsLen pkt;
          off = i * gso;
          chunk = min gso (length payload - off);
          segLen = hdrsLen + chunk;
          seg = take hdrsLen pkt @ slice off (off + chunk) payload;
          seg = put_at 2 (be16 (of_nat segLen)) seg;
          seg = put_at 4 (be16 (get16 4 pkt + of_nat i)) seg;
          seg = put_at (ihl + 4) (be32 (get32 (ihl + 4) pkt + of_nat off)) seg;
          seg = (if i \<noteq> nseg - 1 then seg[ihl + 13 := seg ! (ihl + 13) AND NOT (1 OR 8)] else seg)
      in stamp_checksums ihl seg)"

definition segmentTSO4 :: "bytes \<Rightarrow> virtioNetHdr \<Rightarrow> tso_error + bytes list" where
  "segmentTSO4 pkt hdr =
     (if length pkt < 20 \<or> drop_bit 4 (pkt ! 0) \<noteq> 4 then Err TSONotIPv4
      else let ihl = unat (pkt ! 0 AND 0x0f) * 4 in
      if ihl < 20 \<or> length pkt < ihl + 20 then Err TSOBounds
      else if pkt ! 9 \<noteq> 6 then Err (TSONotTCP (pkt ! 9))
      else let thl = unat (drop_bit 4 (pkt ! (ihl + 12))) * 4 in
      if thl < 20 \<or> length pkt < ihl + thl then Err TSOBounds
      else let hdrsLen = ihl + thl; payload = drop hdrsLen pkt; gso = unat (vh_gsoSize hdr) in
      if gso = 0 \<or> payload = [] then Err TSOBounds
      else let nseg = (length payload + gso - 1) div gso in
      if nseg > 256 then Err TSOBounds
      else Ok (map (tso_segment pkt ihl hdrsLen gso nseg) [0..<nseg]))"

section \<open>Coalescing groups\<close>

datatype tun_write = PlainWrite bytes | GSOWrite bytes bytes

record groGroup =
  g_mem :: "nat \<Rightarrow> byte"
  g_buflen :: nat
  g_length :: nat
  g_segs :: nat
  g_gsoSize :: nat
  g_nextSeq :: u32
  g_nextID :: u16
  g_closed :: bool

definition mem_write :: "nat \<Rightarrow> bytes \<Rightarrow> (nat \<Rightarrow> byte) \<Rightarrow> nat \<Rightarrow> byte" where
  "mem_write a xs m = (\<lambda>i. if a \<le> i \<and> i < a + length xs then xs ! (i - a) else m i)"

definition mem_read :: "nat \<Rightarrow> nat \<Rightarrow> (nat \<Rightarrow> byte) \<Rightarrow> bytes" where
  "mem_read a b m = map m [a..<b]"

definition coalescible :: "bytes \<Rightarrow> bool" where
  "coalescible pkt =
     (if length pkt < 40 \<or> pkt ! 0 \<noteq> 0x45 \<or> pkt ! 9 \<noteq> 6 then False
      else if unat (get16 2 pkt) \<noteq> length pkt then False
      else if get16 6 pkt \<noteq> 0x4000 then False
      else let thl = unat (drop_bit 4 (pkt ! 32)) * 4 in
      if thl < 20 \<or> length pkt < 20 + thl then False
      else let flags = pkt ! 33 AND 0x3f in
      if flags AND NOT (0x10 OR 8 OR 1) \<noteq> 0 \<or> flags AND 0x10 = 0 then False
      else length pkt > 20 + thl)"

definition tcpChecksumOK :: "bytes \<Rightarrow> bool" where
  "tcpChecksumOK pkt =
     (let acc = onesComplementSum 0 (slice 12 20 pkt);
          acc = acc + (6 + of_nat (length pkt - 20));
          acc = onesComplementSum acc (drop 20 pkt)
      in foldSum acc = 0xffff)"

definition sameFlow :: "groGroup \<Rightarrow> bytes \<Rightarrow> bool" where
  "sameFlow g pkt \<longleftrightarrow> mem_read 12 24 (g_mem g) = slice 12 24 pkt"

definition canAppend :: "groGroup \<Rightarrow> bytes \<Rightarrow> bool option" where
  "canAppend g pkt =
     (if g_closed g then Some False
      else let payload = length pkt - 40 in
      if drop_bit 4 (pkt ! 32) \<noteq> 5 then Some False
      else if g_buflen g \<le> 32 then None
      else if drop_bit 4 (g_mem g 32) \<noteq> 5 then Some False
      else if payload > g_gsoSize g \<or> g_length g + payload > 65535 then Some False
      else if get32 24 pkt \<noteq> g_nextSeq g then Some False
      else if get16 4 pkt \<noteq> g_nextID g then Some False
      else if pkt ! 1 \<noteq> g_mem g 1 \<or> pkt ! 8 \<noteq> g_mem g 8 then Some False
      else if slice 28 32 pkt \<noteq> mem_read 28 32 (g_mem g) \<or> slice 34 36 pkt \<noteq> mem_read 34 36 (g_mem g)
           \<or> slice 38 40 pkt \<noteq> mem_read 38 40 (g_mem g) then Some False
      else if g_buflen g \<le> 33 then None
      else Some (pkt ! 33 AND 0x3f AND NOT (8 OR 1) = g_mem g 33 AND 0x3f AND NOT (8 OR 1)))"

definition gro_start :: "bytes \<Rightarrow> groGroup \<Rightarrow> groGroup" where
  "gro_start pkt g =
     (let gso = length pkt - 40 in
      \<lparr>g_mem = mem_write 0 pkt (g_mem g), g_buflen = length pkt, g_length = length pkt, g_segs = 1, g_gsoSize = gso,
       g_nextSeq = get32 24 pkt + of_nat gso, g_nextID = get16 4 pkt + 1,
       g_closed = (pkt ! 33 AND (8 OR 1) \<noteq> 0 \<or> drop_bit 4 (pkt ! 32) \<noteq> 5)\<rparr>)"

definition gro_append :: "bytes \<Rightarrow> groGroup \<Rightarrow> groGroup option" where
  "gro_append pkt g =
     (let payload = drop 40 pkt;
          m = mem_write (g_length g) payload (g_mem g);
          n = g_length g + length payload;
          flags = pkt ! 33 AND (8 OR 1);
          g' = g\<lparr>g_mem := m, g_buflen := n, g_length := n, g_segs := g_segs g + 1,
                 g_nextSeq := g_nextSeq g + of_nat (length payload), g_nextID := g_nextID g + 1\<rparr>
      in if flags \<noteq> 0 \<and> n \<le> 33 then None
         else let g' = (if flags \<noteq> 0 then g'\<lparr>g_mem := m(33 := m 33 OR flags), g_closed := True\<rparr> else g')
              in Some (if length payload < g_gsoSize g then g'\<lparr>g_closed := True\<rparr> else g'))"

definition gro_flush :: "groGroup \<Rightarrow> (tun_write list \<times> groGroup) option" where
  "gro_flush g =
     (if g_segs g = 0 then Some ([], g)
      else if g_segs g = 1 then Some ([PlainWrite (mem_read 0 (g_length g) (g_mem g))], g\<lparr>g_segs := 0, g_length := 0\<rparr>)
      else if g_length g \<le> 11 then None
      else let m = mem_write 2 (be16 (of_nat (g_length g))) (g_mem g);
               m = mem_write 10 [0, 0] m;
               m = mem_write 10 (be16 (NOT (foldSum (onesComplementSum 0 (mem_read 0 20 m))))) m;
               l4len = of_int (int (g_length g) - 20);
               acc = onesComplementSum 0 (mem_read 12 20 m) + (6 + l4len);
               m = mem_write 36 (be16 (foldSum acc)) m;
               hdr = putVirtioNetHdr \<lparr>vh_flags = 1, vh_gsoType = 1, vh_hdrLen = 40, vh_gsoSize = of_nat (g_gsoSize g),
                       vh_csumStart = 20, vh_csumOffset = 16\<rparr>
           in Some ([GSOWrite hdr (mem_read 0 (g_length g) m)], g\<lparr>g_mem := m, g_segs := 0, g_length := 0\<rparr>))"

section \<open>The table\<close>

text \<open>
  \<^verbatim>\<open>grab\<close> may hand out the storage of an earlier batch.  \<^verbatim>\<open>start\<close> follows at once and overwrites every
  field and the first octets of the buffer, at least the headers, so a fresh group stands for it.
\<close>

definition new_group :: groGroup where
  "new_group = \<lparr>g_mem = (\<lambda>_. 0), g_buflen = 0, g_length = 0, g_segs = 0, g_gsoSize = 0, g_nextSeq = 0, g_nextID = 0, g_closed = False\<rparr>"

fun flush_matching :: "bytes \<Rightarrow> groGroup list \<Rightarrow> (tun_write list \<times> groGroup list) option" where
  "flush_matching pkt [] = Some ([], [])"
| "flush_matching pkt (g # gs) =
     (if g_segs g > 0 \<and> sameFlow g pkt then map_option (\<lambda>(ws, g). (ws, g # gs)) (gro_flush g)
      else map_option (\<lambda>(ws, gs). (ws, g # gs)) (flush_matching pkt gs))"

definition flushSameFlow :: "bytes \<Rightarrow> groGroup list \<Rightarrow> (tun_write list \<times> groGroup list) option" where
  "flushSameFlow pkt gs =
     (if length pkt < 24 \<or> pkt ! 0 \<noteq> 0x45 \<or> pkt ! 9 \<noteq> 6 then Some ([], gs) else flush_matching pkt gs)"

fun gro_offer :: "bytes \<Rightarrow> groGroup list \<Rightarrow> (tun_write list \<times> groGroup list) option" where
  "gro_offer pkt [] = Some ([], [gro_start pkt new_group])"
| "gro_offer pkt (g # gs) =
     (if \<not> sameFlow g pkt then map_option (\<lambda>(ws, gs). (ws, g # gs)) (gro_offer pkt gs)
      else case canAppend g pkt of
        None \<Rightarrow> None
      | Some True \<Rightarrow> map_option (\<lambda>g. ([], g # gs)) (gro_append pkt g)
      | Some False \<Rightarrow> map_option (\<lambda>(ws, g). (ws, gro_start pkt g # gs)) (gro_flush g))"

definition gro_add :: "bytes \<Rightarrow> groGroup list \<Rightarrow> (bool \<times> tun_write list \<times> groGroup list) option" where
  "gro_add pkt gs =
     (if \<not> coalescible pkt \<or> \<not> tcpChecksumOK pkt then map_option (Pair False) (flushSameFlow pkt gs)
      else map_option (Pair True) (gro_offer pkt gs))"

fun flush_groups :: "groGroup list \<Rightarrow> tun_write list option" where
  "flush_groups [] = Some []"
| "flush_groups (g # gs) = (case gro_flush g of
     None \<Rightarrow> None
   | Some (ws, _) \<Rightarrow> map_option ((@) ws) (flush_groups gs))"

section \<open>What the device's user sees of a write\<close>

definition delivered :: "tun_write \<Rightarrow> bytes list" where
  "delivered w = (case w of
     PlainWrite p \<Rightarrow> [p]
   | GSOWrite h f \<Rightarrow> (case segmentTSO4 f (parseVirtioNetHdr h) of Inr segs \<Rightarrow> segs | Inl _ \<Rightarrow> []))"

lemma delivered_Plain [simp]: "delivered (PlainWrite p) = [p]"
  by (simp add: delivered_def)

lemma virtio_roundtrip: "parseVirtioNetHdr (putVirtioNetHdr h) = h"
proof -
  have le: "length (le16 w) = 2" "of_nat (le_val (le16 w)) = w" for w
    using unsigned_less [of w, where 'a = nat] by (simp_all add: le16_def le_val_le_bytes)
  obtain a b c d a' b' c' d' where e: "le16 (vh_hdrLen h) = [a, a']" "le16 (vh_gsoSize h) = [b, b']"
      "le16 (vh_csumStart h) = [c, c']" "le16 (vh_csumOffset h) = [d, d']"
    using list_of_2 [OF le(1)] by metis
  show ?thesis
    using le(2) [of "vh_hdrLen h"] le(2) [of "vh_gsoSize h"] le(2) [of "vh_csumStart h"] le(2) [of "vh_csumOffset h"]
    unfolding e by (simp add: parseVirtioNetHdr_def putVirtioNetHdr_def getle16_def slice_def e)
qed

section \<open>Chunks of a payload\<close>

lemma concat_chunk:
  assumes "\<And>j. j < length xss - 1 \<Longrightarrow> length (xss ! j) = g" and "i < length xss" and "length (last xss) \<le> g"
  shows "min g (length (concat xss) - i * g) = length (xss ! i)"
    and "slice (i * g) (i * g + length (xss ! i)) (concat xss) = xss ! i"
proof -
  have "min g (length (concat xss) - i * g) = length (xss ! i) \<and> slice (i * g) (i * g + length (xss ! i)) (concat xss) = xss ! i"
    using assms
  proof (induction xss arbitrary: i)
    case Nil
    then show ?case by simp
  next
    case (Cons x xs)
    show ?case
    proof (cases xs)
      case Nil
      then show ?thesis using Cons.prems by (simp add: slice_def)
    next
      case (Cons y ys)
      then have x: "length x = g" using Cons.prems(1) [of 0] by simp
      show ?thesis
      proof (cases i)
        case 0
        then show ?thesis using x by (simp add: slice_def)
      next
        case (Suc j)
        have "min g (length (concat xs) - j * g) = length (xs ! j) \<and> slice (j * g) (j * g + length (xs ! j)) (concat xs) = xs ! j"
        proof (rule Cons.IH)
          show "length (xs ! k) = g" if "k < length xs - 1" for k using Cons.prems(1) [of "Suc k"] that by simp
        qed (use Cons.prems Suc Cons in simp_all)
        then show ?thesis using x Suc by (simp add: slice_def)
      qed
    qed
  qed
  then show "min g (length (concat xss) - i * g) = length (xss ! i)"
    and "slice (i * g) (i * g + length (xss ! i)) (concat xss) = xss ! i" by simp_all
qed

lemma length_concat_chunks:
  assumes "\<And>j. j < length xss - 1 \<Longrightarrow> length (xss ! j) = g" and "xss \<noteq> []"
  shows "length (concat xss) = (length xss - 1) * g + length (last xss)"
  using assms
proof (induction xss)
  case (Cons x xs)
  show ?case
  proof (cases "xs = []")
    case False
    have "length x = g" using Cons.prems(1) [of 0] False by simp
    moreover have "length (xs ! k) = g" if "k < length xs - 1" for k using Cons.prems(1) [of "Suc k"] that by simp
    ultimately show ?thesis using Cons.IH False by (cases "length xs") simp_all
  qed simp
qed simp

lemma chunk_count:
  assumes "0 < l" and "l \<le> g" and "0 < (n :: nat)"
  shows "((n - 1) * g + l + g - 1) div g = n"
proof -
  obtain m where n: "n = Suc m" using assms(3) by (cases n) auto
  show ?thesis unfolding n by (rule div_nat_eqI) (use assms in \<open>auto simp: algebra_simps\<close>)
qed

section \<open>Segments\<close>

lemma put_at_twice: "length ys = length zs \<Longrightarrow> a + length ys \<le> length xs \<Longrightarrow> put_at a ys (put_at a zs xs) = put_at a ys xs"
  by (cases zs) (auto simp: put_at_def min_def)

lemma nth_put_slice:
  "a < b \<Longrightarrow> b \<le> length p \<Longrightarrow> b \<le> length xs \<Longrightarrow> k < length xs \<Longrightarrow>
   put_at a (slice a b p) xs ! k = (if a \<le> k \<and> k < b then p ! k else xs ! k)"
  by (subst nth_put_at) (auto simp: nth_slice)

text \<open>The stamped checksums depend on the rest of the packet only.\<close>

lemma stamp_cong:
  assumes len: "length x = length y" "40 \<le> length x"
    and eq: "\<And>k. k < length x \<Longrightarrow> k \<notin> {10, 11, 36, 37} \<Longrightarrow> x ! k = y ! k"
  shows "stamp_checksums 20 x = stamp_checksums 20 y"
proof -
  have n: "put_at a [b, c] z ! k = (if k = a then b else if k = Suc a then c else z ! k)"
    if "a + 2 \<le> length z" "k < length z" for a k and b c :: byte and z
    using that by (subst nth_put_at) (auto simp: nth_Cons')
  have z: "put_at 36 [0, 0] (put_at 10 [b, c] x) = put_at 36 [0, 0] (put_at 10 [b, c] y)" for b c
    by (rule nth_equalityI) (use len eq in \<open>auto simp: n\<close>)
  have z': "put_at 36 [0, 0] (put_at 10 (be16 w) x) = put_at 36 [0, 0] (put_at 10 (be16 w) y)" for w
    using list_of_2 [OF length_be16 [of w]] z by auto
  have t: "take 20 (put_at 10 [0, 0] x) = take 20 (put_at 10 [0, 0] y)"
    by (rule nth_equalityI) (use len eq in \<open>auto simp: n\<close>)
  show ?thesis
    unfolding stamp_checksums_def Let_def using len by (simp add: t put_at_twice z')
qed

text \<open>\<open>p\<close> carries the headers of \<open>h\<close> as the \<open>i\<close>th segment after it.\<close>

definition follows :: "bytes \<Rightarrow> nat \<Rightarrow> bytes \<Rightarrow> bool" where
  "follows h i p \<longleftrightarrow> 40 < length p \<and> length p \<le> length h \<and> unat (get16 2 p) = length p \<and> stamp_checksums 20 p = p
     \<and> get16 4 p = get16 4 h + of_nat i \<and> get32 24 p = get32 24 h + of_nat (i * (length h - 40))
     \<and> (\<forall>k<40. k \<notin> {2, 3, 4, 5, 10, 11, 24, 25, 26, 27, 33, 36, 37} \<longrightarrow> p ! k = h ! k)
     \<and> p ! 33 AND NOT 9 = h ! 33 AND NOT 9"

lemma flags_split: "(a AND NOT 9) OR (a AND 9) = (a :: byte)"
  by (simp add: bit_eq_iff bit_simps) blast

lemma flags_merge:
  assumes "b AND NOT 9 = a AND NOT 9"
  shows "(a AND NOT 9) OR (b AND 9) = (b :: byte)"
  using assms flags_split by metis


lemma get_eqI:
  assumes "\<And>k. a \<le> k \<Longrightarrow> k < a + n \<Longrightarrow> x ! k = y ! k" and "a + n \<le> length x" and "a + n \<le> length y"
  shows "slice a (a + n) x = slice a (a + n) y"
  by (rule nth_equalityI) (use assms in \<open>auto simp: nth_slice\<close>)

text \<open>A super-frame that carries the headers of \<open>hd ps\<close> and the payloads of \<open>ps\<close>.\<close>

definition frame_of :: "bytes list \<Rightarrow> bytes \<Rightarrow> bool" where
  "frame_of ps f \<longleftrightarrow> 40 \<le> length f \<and> drop 40 f = concat (map (drop 40) ps)
     \<and> (\<forall>k<40. k \<notin> {2, 3, 10, 11, 33, 36, 37} \<longrightarrow> f ! k = hd ps ! k)
     \<and> f ! 33 = hd ps ! 33 OR (last ps ! 33 AND 9)"

definition train :: "bytes list \<Rightarrow> bool" where
  "train ps \<longleftrightarrow> ps \<noteq> [] \<and> (\<forall>i<length ps. follows (hd ps) i (ps ! i))
     \<and> (\<forall>i<length ps - 1. length (ps ! i) = length (hd ps) \<and> ps ! i ! 33 AND 9 = 0)"

lemma train_length: "train ps \<Longrightarrow> i < length ps \<Longrightarrow> length (ps ! i) \<le> length (hd ps)"
  unfolding train_def follows_def by blast

lemma train_chunks:
  assumes "train ps" and "i < length ps"
  shows "min (length (hd ps) - 40) (length (concat (map (drop 40) ps)) - i * (length (hd ps) - 40)) = length (ps ! i) - 40"
    and "slice (i * (length (hd ps) - 40)) (i * (length (hd ps) - 40) + (length (ps ! i) - 40)) (concat (map (drop 40) ps)) = drop 40 (ps ! i)"
proof -
  have l: "length (last (map (drop 40) ps)) \<le> length (hd ps) - 40"
    using train_length [OF assms(1), of "length ps - 1"] assms by (simp add: last_map last_conv_nth train_def diff_le_mono)
  have c: "\<And>j. j < length (map (drop 40) ps) - 1 \<Longrightarrow> length (map (drop 40) ps ! j) = length (hd ps) - 40"
    using assms(1) unfolding train_def by simp
  show "min (length (hd ps) - 40) (length (concat (map (drop 40) ps)) - i * (length (hd ps) - 40)) = length (ps ! i) - 40"
    using concat_chunk(1) [OF c _ l, of i] assms(2) by simp
  show "slice (i * (length (hd ps) - 40)) (i * (length (hd ps) - 40) + (length (ps ! i) - 40)) (concat (map (drop 40) ps)) = drop 40 (ps ! i)"
    using concat_chunk(2) [OF c _ l, of i] assms(2) by simp
qed

lemma train_flags:
  assumes t: "train ps" and f: "f33 = hd ps ! 33 OR (last ps ! 33 AND 9)" and i: "i < length ps"
  shows "(if i \<noteq> length ps - 1 then f33 AND NOT (1 OR 8) else f33) = ps ! i ! 33"
proof -
  have n: "1 OR 8 = (9 :: byte)" by simp
  have fo: "ps ! i ! 33 AND NOT 9 = hd ps ! 33 AND NOT 9" using t i unfolding train_def follows_def by blast
  show ?thesis
  proof (cases "i = length ps - 1")
    case False
    then have "ps ! i ! 33 AND 9 = 0" using t i unfolding train_def by simp
    then have "ps ! i ! 33 = hd ps ! 33 AND NOT 9" using fo flags_split [of "ps ! i ! 33"] by simp
    moreover have "(a OR (b AND 9)) AND NOT 9 = a AND NOT (9 :: byte)" for a b
      by (simp add: bit_eq_iff bit_simps) blast
    ultimately show ?thesis using False by (simp add: f n)
  next
    case True
    then have l: "last ps = ps ! i" using t by (simp add: train_def last_conv_nth)
    have "hd ps ! 33 OR (ps ! i ! 33 AND 9) = ps ! i ! 33"
    proof (cases "i = 0")
      case True
      then have "hd ps = ps ! i" using t by (simp add: train_def hd_conv_nth)
      then show ?thesis by (simp add: bit_eq_iff bit_simps)
    next
      case False
      then have "hd ps ! 33 AND 9 = 0" using t True i unfolding train_def by (simp add: hd_conv_nth)
      then have "hd ps ! 33 = hd ps ! 33 AND NOT 9" using flags_split [of "hd ps ! 33"] by simp
      then show ?thesis using flags_merge [OF fo] by metis
    qed
    then show ?thesis using True by (simp add: f l)
  qed
qed

lemma tso_segment_train:
  assumes t: "train ps" and f: "frame_of ps f" and i: "i < length ps"
  shows "tso_segment f 20 40 (length (hd ps) - 40) (length ps) i = ps ! i"
proof -
  define h p g where "h = hd ps" and "p = ps ! i" and "g = length h - 40"
  have fo: "follows h i p" and h0: "follows h 0 h"
    using t i unfolding train_def h_def p_def by (auto simp: hd_conv_nth)
  have fk: "f ! k = h ! k" if "k < 40" "k \<notin> {2, 3, 10, 11, 33, 36, 37}" for k
    using f that unfolding frame_of_def h_def by blast
  have pk: "p ! k = h ! k" if "k < 40" "k \<notin> {2, 3, 4, 5, 10, 11, 24, 25, 26, 27, 33, 36, 37}" for k
    using fo that unfolding follows_def by blast
  have len: "40 < length p" "40 < length h" "40 \<le> length f" using fo h0 f unfolding follows_def frame_of_def by auto
  have c: "min g (length (drop 40 f) - i * g) = length p - 40" "slice (i * g) (i * g + (length p - 40)) (drop 40 f) = drop 40 p"
    using train_chunks [OF t i] f unfolding frame_of_def g_def h_def p_def by simp_all
  have "get16 4 f = get16 4 h" "get32 24 f = get32 24 h"
    unfolding get16_def get32_def using get_eqI [of 4 2 f h] get_eqI [of 24 4 f h] fk len by simp_all
  moreover have "of_nat (length p) = get16 2 p"
  proof -
    have "unat (get16 2 p) = length p" using fo unfolding follows_def by blast
    from this [symmetric] show ?thesis by simp
  qed
  ultimately have fields: "be16 (of_nat (40 + (length p - 40))) = slice 2 4 p" "be16 (get16 4 f + of_nat i) = slice 4 6 p"
      "be32 (get32 24 f + of_nat (i * g)) = slice 24 28 p"
    using fo be16_get16 [of 2 p] be16_get16 [of 4 p] be32_get32 [of 24 p] len unfolding follows_def g_def
    by simp_all
  define x0 where "x0 = put_at 24 (slice 24 28 p) (put_at 4 (slice 4 6 p) (put_at 2 (slice 2 4 p) (take 40 f @ drop 40 p)))"
  define x where "x = (if i \<noteq> length ps - 1 then x0[33 := x0 ! 33 AND NOT (1 OR 8)] else x0)"
  have l0: "length x0 = length p" using len by (simp add: x0_def)
  have n0: "x0 ! k = (if k \<in> {2, 3, 4, 5, 24, 25, 26, 27} then p ! k else (take 40 f @ drop 40 p) ! k)" if "k < length p" for k
    using that len unfolding x0_def by (subst nth_put_slice; simp)+ auto
  have x33: "x ! 33 = p ! 33"
    using train_flags [OF t, of "f ! 33" i] f i n0 [of 33] l0 len unfolding frame_of_def x_def p_def
    by (auto simp: nth_append split: if_splits)
  have "tso_segment f 20 40 g (length ps) i = stamp_checksums 20 x"
  proof -
    have a: "(20 :: nat) + 4 = 24" "(20 :: nat) + 13 = 33" by simp_all
    show ?thesis by (simp only: tso_segment_def Let_def c a fields x_def x0_def)
  qed
  also have "\<dots> = stamp_checksums 20 p"
  proof (rule stamp_cong)
    show "length x = length p" "40 \<le> length x" using l0 len by (simp_all add: x_def)
    fix k assume k: "k < length x" "k \<notin> {10, 11, 36, 37}"
    show "x ! k = p ! k"
    proof (cases "k = 33")
      case False
      then have "x ! k = x0 ! k" by (simp add: x_def)
      then show ?thesis using k False n0 [of k] fk [of k] pk [of k] len l0 by (auto simp: x_def nth_append split: if_splits)
    qed (use x33 in simp)
  qed
  also have "\<dots> = p" using fo unfolding follows_def by blast
  finally show ?thesis by (simp add: g_def h_def p_def)
qed


text \<open>The segments of a super-frame built from a train are the train.\<close>

lemma segmentTSO4_train:
  assumes t: "train ps" and f: "frame_of ps f" and n: "length ps \<le> 256"
    and h: "hd ps ! 0 = 0x45" "hd ps ! 9 = 6" "drop_bit 4 (hd ps ! 32) = 5" "length (hd ps) \<le> 65535"
    and gso: "vh_gsoSize v = of_nat (length (hd ps) - 40)"
  shows "segmentTSO4 f v = Ok ps"
proof -
  define g where "g = length (hd ps) - 40"
  have ne: "ps \<noteq> []" using t by (simp add: train_def)
  have fo: "follows (hd ps) (length ps - 1) (last ps)" and h0: "follows (hd ps) 0 (hd ps)"
    using t ne unfolding train_def by (auto simp: hd_conv_nth last_conv_nth)
  have g0: "0 < g" "unat (vh_gsoSize v) = g"
  proof -
    show "0 < g" using h0 unfolding follows_def g_def by simp
    have "g < 2 ^ LENGTH(16)" using h(4) by (simp add: g_def)
    then show "unat (vh_gsoSize v) = g" unfolding gso g_def [symmetric] by (rule unat_of_nat_small)
  qed
  have fk: "f ! 0 = 0x45" "f ! 9 = 6" "f ! 32 = hd ps ! 32" and fl: "40 \<le> length f"
    using f h unfolding frame_of_def by auto
  have pl: "length f - 40 = (length ps - 1) * g + (length (last ps) - 40)"
  proof -
    have "drop 40 f = concat (map (drop 40) ps)" using f unfolding frame_of_def by blast
    then have "length f - 40 = length (concat (map (drop 40) ps))" using length_drop [of 40 f] by metis
    also have "\<dots> = (length ps - 1) * g + length (last (map (drop 40) ps))"
      using length_concat_chunks [of "map (drop 40) ps" g] t ne unfolding train_def g_def by simp
    finally show ?thesis using ne by (simp add: last_map)
  qed
  have l: "0 < length (last ps) - 40" "length (last ps) - 40 \<le> g" using fo unfolding follows_def g_def by auto
  have big: "40 < length f" and gne: "g \<noteq> 0" using pl l g0(1) by linarith+
  have seg: "(length f - 40 + g - 1) div g = length ps"
    unfolding pl using chunk_count [OF l] ne by simp
  have seg': "(length f + g - 41) div g = length ps" using seg big by simp
  have "map (tso_segment f 20 40 g (length ps)) [0..<length ps] = ps"
    by (rule nth_equalityI) (simp_all add: tso_segment_train [OF t f] g_def)
  then show ?thesis
    unfolding segmentTSO4_def Let_def using n big by (simp add: fk g0(2) gne h(3) seg')
qed

section \<open>Stamped and completed checksums verify\<close>

lemma checksumFold_foldSum: "checksumFold s = NOT (foldSum s)"
  by (induction s rule: foldSum.induct) (subst checksumFold.simps, subst foldSum.simps, simp)

lemma onesComplementSum_wsum: "onesComplementSum acc b = acc + of_nat (wsum b)"
proof -
  have "onesComplementSum acc b = checksumAccumulate acc b"
  proof (induction acc b rule: onesComplementSum.induct)
    case (1 acc a b r)
    have u: "(push_bit 8 (ucast a) OR ucast b :: u32) = push_bit 8 (ucast a) + ucast b"
    proof (rule disjunctive_add [symmetric])
      show "\<not> bit (push_bit 8 (ucast a) :: u32) n \<or> \<not> bit (ucast b :: u32) n" for n
        by (auto simp: bit_simps dest: bit_imp_le_length)
    qed
    have g: "(ucast (get16 0 [a, b]) :: u32) = of_nat (unat a * 256 + unat b)"
      unfolding get16_pair [symmetric] by simp
    have "(push_bit 8 (ucast a) OR ucast b :: u32) = ucast (get16 0 [a, b])"
      unfolding u g by (simp add: push_bit_eq_mult)
    then show ?case using 1 by simp
  qed simp_all
  then show ?thesis by (simp add: checksumAccumulate_wsum)
qed

lemma tcpChecksumOK_wsum:
  "tcpChecksumOK p \<longleftrightarrow> checksumFold (of_nat (wsum (slice 12 20 p) + 6 + (length p - 20) + wsum (drop 20 p))) = 0"
proof -
  have "NOT x = 0 \<longleftrightarrow> x = 0xffff" for x :: u16
  proof -
    have "NOT x = 0 \<longleftrightarrow> x = NOT 0" by (metis bit.double_compl)
    moreover have "(NOT 0 :: u16) = 0xffff"
      by (subst word_unat_eq_iff) (simp add: unsigned_minus_1_eq_mask mask_eq_exp_minus_1)
    ultimately show ?thesis by metis
  qed
  then show ?thesis
    by (simp add: tcpChecksumOK_def Let_def onesComplementSum_wsum checksumFold_foldSum add.assoc)
qed

lemma drop_put_at: "n \<le> a \<Longrightarrow> a + length ys \<le> length xs \<Longrightarrow> drop n (put_at a ys xs) = put_at (a - n) ys (drop n xs)"
  by (simp add: put_at_def drop_take min_def)

lemma stamp_verifies:
  assumes l: "40 \<le> length p" "length p \<le> 65535"
  shows "tcpChecksumOK (stamp_checksums 20 p)"
proof -
  define p1 where "p1 = put_at 10 (be16 (NOT (foldSum (onesComplementSum 0 (take 20 (put_at 10 [0, 0] p)))))) (put_at 10 [0, 0] p)"
  define p2 where "p2 = put_at 36 [0, 0] p1"
  have lp: "length p1 = length p" "length p2 = length p" using l by (simp_all add: p1_def p2_def)
  define ps where "ps = wsum (slice 12 20 p2) + 6 + (length p - 20)"
  define w where "w = checksumFold (of_nat (ps + wsum (drop 20 p2)))"
  have st: "stamp_checksums 20 p = put_at 36 (be16 w) p2"
    unfolding stamp_checksums_def Let_def p1_def [symmetric]
    by (simp add: p2_def [symmetric] lp w_def ps_def checksumFold_foldSum onesComplementSum_wsum add.assoc)
  have "slice 12 20 (put_at 36 (be16 w) p2) = slice 12 20 p2" using l lp by (intro slice_put_at_other) simp_all
  moreover have "drop 20 (put_at 36 (be16 w) p2) = put_at 16 (be16 w) (drop 20 p2)" using l lp by (simp add: drop_put_at)
  moreover have "checksumFold (of_nat (ps + wsum (put_at 16 (be16 w) (drop 20 p2)))) = 0"
    unfolding w_def
  proof (rule stored_checksum_verifies)
    have "slice 36 38 p2 = [0, 0]" using slice_put_at_same [of 36 "[0, 0]" p1] l lp by (simp add: p2_def)
    then show "slice 16 (16 + 2) (drop 20 p2) = [0, 0]" by (simp add: slice_def)
    have "wsum (slice 12 20 p2) \<le> 2147450880" "wsum (drop 20 p2) \<le> 65535 * 32758"
      using wsum_bound [of "slice 12 20 p2"] wsum_bound [of "drop 20 p2"] l lp by simp_all
    moreover have "wsum (slice 12 20 p2) \<le> 65535 * 5" using wsum_bound [of "slice 12 20 p2"] l lp by simp
    ultimately show "ps + wsum (drop 20 p2) + 65535 < 2 ^ 32" using l by (simp add: ps_def)
  qed (use l lp in simp_all)
  ultimately show ?thesis
    using l lp by (simp add: st tcpChecksumOK_wsum ps_def)
qed

text \<open>A packet whose TCP checksum field holds the pseudo-header sum verifies once it is completed.\<close>

lemma completed_verifies:
  assumes l: "40 \<le> length p" "length p \<le> 65535"
    and f: "get16 36 p = foldSum (onesComplementSum 0 (slice 12 20 p) + (6 + of_nat (length p - 20)))"
  shows "tcpChecksumOK (completePartialChecksum p 20 16)"
proof -
  define p0 where "p0 = put_at 36 [0, 0] p"
  define n where "n = wsum (slice 12 20 p) + 6 + (length p - 20)"
  define z where "z = wsum (drop 20 p0)"
  have lp: "length p0 = length p" using l by (simp add: p0_def)
  have s36: "slice 16 (16 + 2) (drop 20 p0) = [0, 0]"
    using slice_put_at_same [of 36 "[0, 0]" p] l by (simp add: p0_def slice_def)
  have put: "put_at 36 (be16 w) p0 = put_at 36 (be16 w) p" for w using l by (simp add: p0_def put_at_twice)
  have sum: "wsum (drop 20 (put_at 36 (be16 w) p)) = z + unat w" for w
  proof -
    have "drop 20 (put_at 36 (be16 w) p) = put_at 16 (be16 w) (drop 20 p0)" using l lp by (simp add: drop_put_at flip: put)
    then show ?thesis using wsum_put16 [OF _ _ s36] l lp by (simp add: z_def)
  qed
  have "put_at 36 (be16 (get16 36 p)) p = p"
    using be16_get16 [of 36 p] slice_parts [of 36 38 p] l by (simp add: put_at_def)
  then have zp: "wsum (drop 20 p) = z + unat (get16 36 p)" using sum [of "get16 36 p"] by simp
  have n32: "n + 65535 * 2 < 2 ^ 31" using wsum_bound [of "slice 12 20 p"] l by (simp add: n_def)
  have z32: "z \<le> 65535 * 32758" using wsum_bound [of "drop 20 p0"] l lp by (simp add: z_def)
  have res: "unat (foldSum (of_nat k)) mod 65535 = k mod 65535 \<and> unat (foldSum (of_nat k)) < 65536 \<and> (unat (foldSum (of_nat k)) = 0 \<longleftrightarrow> k = 0)"
    if k: "k < 2 ^ 32" for k
  proof -
    have u: "unat (of_nat k :: u32) = k" using k by (intro unat_of_nat_small) simp
    obtain c where c: "checksumFold (of_nat k) = NOT (of_nat c)" "c < 65536" "c mod 65535 = k mod 65535" "c = 0 \<longleftrightarrow> k = 0"
      using checksumFold_residue [of "of_nat k"] unfolding u by blast
    have "foldSum (of_nat k) = of_nat c" using c(1) unfolding checksumFold_foldSum by (metis bit.double_compl)
    moreover have "unat (of_nat c :: u16) = c" using c(2) by (intro unat_of_nat_small) simp
    ultimately show ?thesis using c by simp
  qed
  define a c where "a = unat (get16 36 p)" and "c = unat (foldSum (of_nat (z + a)))"
  have "get16 36 p = foldSum (of_nat n)" unfolding f n_def by (simp add: onesComplementSum_wsum add.assoc)
  then have a: "a mod 65535 = n mod 65535" "a < 65536" using res [of n] n32 by (simp_all add: a_def)
  have c: "c mod 65535 = (z + a) mod 65535" "c < 65536" using res [of "z + a"] a z32 by (simp_all add: c_def)
  define r where "r = NOT (foldSum (of_nat (z + a)))"
  have r: "unat r = 65535 - c" by (simp add: r_def c_def unat_NOT)
  have cp: "completePartialChecksum p 20 16 = put_at 36 (be16 r) p"
    using l by (simp add: completePartialChecksum_def onesComplementSum_wsum zp r_def a_def)
  have "(n + (z + (65535 - c))) mod 65535 = 0"
  proof -
    have "(n + (z + (65535 - c))) mod 65535 = (a + (z + (65535 - c))) mod 65535" using a(1) by (metis mod_add_left_eq)
    also have "\<dots> = ((z + a) + (65535 - c)) mod 65535" by (simp add: add_ac)
    also have "\<dots> = (c + (65535 - c)) mod 65535" using c(1) by (metis mod_add_left_eq)
    finally show ?thesis using c(2) by simp
  qed
  moreover have u: "unat (of_nat (n + (z + (65535 - c))) :: u32) = n + (z + (65535 - c))"
    using n32 z32 by (intro unat_of_nat_small) simp
  ultimately have "checksumFold (of_nat (n + (z + (65535 - c)))) = 0"
    using checksumFold_zero_iff [of "of_nat (n + (z + (65535 - c)))"] by (simp only: u) (simp add: n_def)
  moreover have "slice 12 20 (put_at 36 (be16 r) p) = slice 12 20 p" using l by (intro slice_put_at_other) simp_all
  ultimately show ?thesis using l by (simp add: cp tcpChecksumOK_wsum sum r n_def add.assoc)
qed

section \<open>A group and the packets it holds\<close>

lemma mem_read_nth: "i < b - a \<Longrightarrow> mem_read a b m ! i = m (a + i)"
  by (simp add: mem_read_def)

lemma length_mem_read [simp]: "length (mem_read a b m) = b - a"
  by (simp add: mem_read_def)

lemma mem_read_write: "mem_read a (a + length xs) (mem_write a xs m) = xs"
  by (rule nth_equalityI) (simp_all add: mem_read_nth mem_write_def)

lemma mem_read_write0: "mem_read 0 (length xs) (mem_write 0 xs m) = xs"
  using mem_read_write [of 0 xs m] by simp

lemma mem_read_split: "a \<le> b \<Longrightarrow> b \<le> c \<Longrightarrow> mem_read a c m = mem_read a b m @ mem_read b c m"
  using upt_add_eq_append [of a b "c - b"] by (simp add: mem_read_def)

lemma mem_read_cong: "(\<And>k. a \<le> k \<Longrightarrow> k < b \<Longrightarrow> m k = m' k) \<Longrightarrow> mem_read a b m = mem_read a b m'"
  by (simp add: mem_read_def)

text \<open>A packet of the kind the table holds, with the checksums a sender computes.\<close>

definition gro_clean :: "bytes \<Rightarrow> bool" where
  "gro_clean p \<longleftrightarrow> coalescible p \<and> stamp_checksums 20 p = p"

lemma coalescibleD:
  assumes "coalescible p"
  shows "p ! 0 = 0x45" "p ! 9 = 6" "unat (get16 2 p) = length p" "get16 6 p = 0x4000" "40 < length p" "length p \<le> 65535"
proof -
  have "length p \<noteq> 40"
    using assms unfolding coalescible_def Let_def by (auto split: if_splits)
  moreover show l: "unat (get16 2 p) = length p" using assms unfolding coalescible_def by (auto split: if_splits)
  ultimately show "p ! 0 = 0x45" "p ! 9 = 6" "get16 6 p = 0x4000" "40 < length p"
    using assms unfolding coalescible_def by (auto split: if_splits)
  show "length p \<le> 65535" using unsigned_less [of "get16 2 p", where 'a = nat] l by simp
qed

lemma gro_clean_verified: "gro_clean p \<Longrightarrow> tcpChecksumOK p"
  using stamp_verifies [of p] coalescibleD(5,6) [of p] by (simp add: gro_clean_def)

text \<open>A group that holds the packets \<open>ps\<close>.\<close>

definition holds :: "groGroup \<Rightarrow> bytes list \<Rightarrow> bool" where
  "holds g ps \<longleftrightarrow> train ps \<and> (\<forall>p\<in>set ps. gro_clean p) \<and> g_segs g = length ps
     \<and> g_gsoSize g = length (hd ps) - 40 \<and> g_buflen g = g_length g \<and> g_length g \<le> 65535 \<and> 40 \<le> g_length g
     \<and> mem_read 40 (g_length g) (g_mem g) = concat (map (drop 40) ps)
     \<and> (\<forall>k<40. k \<noteq> 33 \<longrightarrow> g_mem g k = hd ps ! k) \<and> g_mem g 33 = hd ps ! 33 OR (last ps ! 33 AND 9)
     \<and> (\<not> g_closed g \<longrightarrow> length (last ps) = length (hd ps) \<and> last ps ! 33 AND 9 = 0
          \<and> g_nextSeq g = get32 24 (hd ps) + of_nat (length ps * g_gsoSize g) \<and> g_nextID g = get16 4 (hd ps) + of_nat (length ps))
     \<and> (length ps = 1 \<or> drop_bit 4 (hd ps ! 32) = 5)"

lemma holds_start:
  assumes "gro_clean p"
  shows "holds (gro_start p g) [p]"
proof -
  note c = coalescibleD [of p]
  have cl: "coalescible p" "stamp_checksums 20 p = p" using assms by (simp_all add: gro_clean_def)
  have "train [p]" using c cl by (simp add: train_def follows_def)
  moreover have "mem_read 40 (length p) (mem_write 0 p (g_mem g)) = drop 40 p"
    by (rule nth_equalityI) (simp_all add: mem_read_nth mem_write_def less_diff_conv add.commute)
  moreover have "p ! 33 OR (p ! 33 AND 9) = p ! 33" by (simp add: bit_eq_iff bit_simps)
  ultimately show ?thesis
    using assms c cl by (auto simp: holds_def gro_start_def Let_def mem_write_def)
qed

section \<open>Concrete checksums\<close>

lemma foldSum_step: "drop_bit 16 acc = 0 \<Longrightarrow> foldSum acc = ucast acc"
  "drop_bit 16 acc \<noteq> 0 \<Longrightarrow> foldSum acc = foldSum ((acc AND 0xffff) + drop_bit 16 acc)"
  by (subst foldSum.simps; simp)+


text \<open>A packet that carries the checksums computed over its zeroed fields is left alone by the stamping.\<close>

lemma stamp_fixed:
  assumes l: "40 \<le> length p" and c: "be16 (NOT (foldSum (onesComplementSum 0 (take 20 (put_at 10 [0, 0] p))))) = slice 10 12 p"
    and d: "be16 (NOT (foldSum (onesComplementSum (onesComplementSum 0 (slice 12 20 p) + (6 + of_nat (length p - 20)))
              (drop 20 (put_at 36 [0, 0] p))))) = slice 36 38 p"
  shows "stamp_checksums 20 p = p"
proof -
  have i: "put_at a (slice a (a + 2) p) (put_at a [0, 0] p) = p" if "a + 2 \<le> length p" for a
  proof (rule nth_equalityI)
    fix k assume "k < length (put_at a (slice a (a + 2) p) (put_at a [0, 0] p))"
    then have k: "k < length p" using that by simp
    then have n: "put_at a [0, 0] p ! k = p ! k" if "\<not> (a \<le> k \<and> k < a + 2)"
      using that \<open>a + 2 \<le> length p\<close> by (subst nth_put_at) auto
    show "put_at a (slice a (a + 2) p) (put_at a [0, 0] p) ! k = p ! k"
      using that k n by (subst nth_put_slice) auto
  qed (use that in simp)
  have s: "slice 12 20 (put_at 36 [0, 0] p) = slice 12 20 p" using l by (intro slice_put_at_other) auto
  show ?thesis
    unfolding stamp_checksums_def Let_def c using l d i [of 10] i [of 36] by (simp add: s)
qed

end
