(* ===== verification/Gro_Table.thy ===== *)
theory Gro_Table
  imports Gro
begin

text \<open>
  The coalescing table keeps every flow in order: what a group holds is the train of packets it was given, the merge rules only
  extend the train, a flush delivers it, and so a batch delivers each flow's packets as they came.
\<close>

section \<open>Flushing and extending a group\<close>

lemma holdsD:
  assumes "holds g ps"
  shows "train ps" "ps \<noteq> []" "gro_clean (hd ps)" "g_segs g = length ps" "g_gsoSize g = length (hd ps) - 40"
    "g_buflen g = g_length g" "g_length g \<le> 65535" "40 \<le> g_length g"
    "mem_read 40 (g_length g) (g_mem g) = concat (map (drop 40) ps)"
    "k < 40 \<Longrightarrow> k \<noteq> 33 \<Longrightarrow> g_mem g k = hd ps ! k" "g_mem g 33 = hd ps ! 33 OR (last ps ! 33 AND 9)"
    "length ps = 1 \<or> drop_bit 4 (hd ps ! 32) = 5"
  using assms unfolding holds_def by (simp_all add: train_def)

lemma holds_open:
  assumes "holds g ps" and "\<not> g_closed g"
  shows "length (last ps) = length (hd ps)" "last ps ! 33 AND 9 = 0"
    "g_nextSeq g = get32 24 (hd ps) + of_nat (length ps * g_gsoSize g)" "g_nextID g = get16 4 (hd ps) + of_nat (length ps)"
  using assms unfolding holds_def by simp_all

lemma flags_absorb: "(x :: byte) OR (x AND 9) = x"
  by (simp add: bit_eq_iff bit_simps)

lemma holds_flush:
  assumes h: "holds g ps" and n: "length ps \<le> 256"
  shows "\<exists>w g'. gro_flush g = Some ([w], g') \<and> delivered w = ps"
proof (cases "length ps = 1")
  case True
  then obtain p where ps: "ps = [p]" by (cases ps) auto
  have "mem_read 0 40 (g_mem g) = take 40 p"
  proof (rule nth_equalityI)
    show "length (mem_read 0 40 (g_mem g)) = length (take 40 p)" using coalescibleD(5) [of p] holdsD(3) [OF h] by (simp add: gro_clean_def ps)
    fix i assume "i < length (mem_read 0 40 (g_mem g))"
    then show "mem_read 0 40 (g_mem g) ! i = take 40 p ! i"
      using holdsD(10,11) [OF h] by (cases "i = 33") (simp_all add: mem_read_nth ps flags_absorb)
  qed
  then have "mem_read 0 (g_length g) (g_mem g) = p"
    using holdsD(8,9) [OF h] mem_read_split [of 0 40 "g_length g" "g_mem g"] by (simp add: ps)
  then show ?thesis using holdsD(4) [OF h] by (simp add: gro_flush_def ps)
next
  case False
  note hd = holdsD [OF h]
  have c: "coalescible (hd ps)" using hd(3) by (simp add: gro_clean_def)
  define L where "L = g_length g"
  have keep: "mem_write a (be16 x) m k = m k" "mem_write a [0, 0] m k = m k" if "k \<noteq> a" "k \<noteq> Suc a" for a x m k
    using that by (auto simp: mem_write_def)
  obtain hdr m where f: "gro_flush g = Some ([GSOWrite hdr (mem_read 0 L m)], g\<lparr>g_mem := m, g_segs := 0, g_length := 0\<rparr>)"
      and v: "vh_gsoSize (parseVirtioNetHdr hdr) = of_nat (g_gsoSize g)"
      and m: "\<And>k. k \<notin> {2, 3, 10, 11, 36, 37} \<Longrightarrow> m k = g_mem g k"
    using False hd(2,4,8) unfolding gro_flush_def L_def Let_def
    by (auto simp: virtio_roundtrip keep)
  have "frame_of ps (mem_read 0 L m)"
  proof -
    have "drop 40 (mem_read 0 L m) = mem_read 40 L m"
      using mem_read_split [of 0 40 L m] hd(8) by (simp add: L_def)
    also have "\<dots> = mem_read 40 L (g_mem g)" by (rule mem_read_cong) (simp add: m)
    finally show ?thesis using hd(8,9,10,11) m by (simp add: frame_of_def mem_read_nth L_def)
  qed
  then have "segmentTSO4 (mem_read 0 L m) (parseVirtioNetHdr hdr) = Ok ps"
    using segmentTSO4_train [OF hd(1) _ n coalescibleD(1,2) [OF c] _ coalescibleD(6) [OF c]] hd(5,12) False v by simp
  then show ?thesis using f by (simp add: delivered_def)
qed

lemma canAppendD:
  assumes "canAppend g p = Some True"
  shows "\<not> g_closed g" "drop_bit 4 (p ! 32) = 5" "drop_bit 4 (g_mem g 32) = 5" "length p - 40 \<le> g_gsoSize g"
    "g_length g + (length p - 40) \<le> 65535" "get32 24 p = g_nextSeq g" "get16 4 p = g_nextID g"
    "p ! 1 = g_mem g 1" "p ! 8 = g_mem g 8" "slice 28 32 p = mem_read 28 32 (g_mem g)"
    "slice 34 36 p = mem_read 34 36 (g_mem g)" "slice 38 40 p = mem_read 38 40 (g_mem g)"
    "p ! 33 AND 0x3f AND NOT 9 = g_mem g 33 AND 0x3f AND NOT 9"
  using assms unfolding canAppend_def Let_def by (auto split: if_splits)

lemma canAppend_panics: "canAppend g p = None \<Longrightarrow> g_buflen g \<le> 33"
  by (auto simp: canAppend_def Let_def split: if_splits)

text \<open>The bits of the TCP header the merge rules leave out: the reserved bits and the two ECN flags.\<close>

definition same_ecn :: "bytes \<Rightarrow> bytes \<Rightarrow> bool" where
  "same_ecn p q \<longleftrightarrow> p ! 32 AND 0x0f = q ! 32 AND 0x0f \<and> p ! 33 AND 0xc0 = q ! 33 AND 0xc0"

lemma octet_halves: "drop_bit 4 a = drop_bit 4 b \<Longrightarrow> a AND 0x0f = b AND 0x0f \<Longrightarrow> a = (b :: byte)"
proof -
  assume d: "drop_bit 4 a = drop_bit 4 b" and l: "a AND 0x0f = b AND 0x0f"
  have "x AND 0x0f = take_bit 4 x" for x :: byte by (simp add: take_bit_eq_mask mask_eq_exp_minus_1)
  then have "take_bit 4 a = take_bit 4 b" using l by simp
  then show "a = b" using d bits_ident [of 4 a] bits_ident [of 4 b] by metis
qed

lemma flag_masks:
  assumes "a AND 0x3f AND NOT 9 = b AND 0x3f AND NOT (9 :: byte)" and "a AND 0xc0 = b AND 0xc0"
  shows "a AND NOT 9 = b AND NOT 9"
proof -
  have "x AND NOT 9 = (x AND 0x3f AND NOT 9) OR (x AND 0xc0)" for x :: byte
  proof -
    have "NOT 9 = (0x3f AND NOT 9) OR (0xc0 :: byte)" by simp
    then show ?thesis by (metis bit.conj_disj_distrib and.assoc)
  qed
  then show ?thesis using assms by metis
qed

lemma slice_nthD: "slice a b p = mem_read a b m \<Longrightarrow> a \<le> k \<Longrightarrow> k < b \<Longrightarrow> b \<le> length p \<Longrightarrow> p ! k = m k"
proof -
  assume e: "slice a b p = mem_read a b m" and k: "a \<le> k" "k < b" "b \<le> length p"
  have "slice a b p ! (k - a) = mem_read a b m ! (k - a)" by (simp only: e)
  then show "p ! k = m k" using k by (simp add: nth_slice mem_read_nth)
qed


text \<open>What the merge rules let in continues the train.\<close>

lemma holds_follows:
  assumes h: "holds g ps" and p: "gro_clean p" and f: "sameFlow g p" and c: "canAppend g p = Some True"
    and e: "same_ecn p (hd ps)"
  shows "follows (hd ps) (length ps) p"
proof -
  note hd = holdsD [OF h] and ca = canAppendD [OF c]
  note op = holds_open [OF h ca(1)]
  have cp: "coalescible p" "stamp_checksums 20 p = p" and ch: "coalescible (hd ps)"
    using p hd(3) by (simp_all add: gro_clean_def)
  note pD = coalescibleD [OF cp(1)] and hD = coalescibleD [OF ch]
  have m: "p ! k = hd ps ! k" if "k \<in> {1, 8} \<union> {12..<24} \<union> {28..<32} \<union> {34..<36} \<union> {38..<40}" for k
  proof -
    have "p ! k = g_mem g k"
      using that ca(8,9) slice_nthD [OF f [unfolded sameFlow_def, symmetric], of k] slice_nthD [OF ca(10), of k]
        slice_nthD [OF ca(11), of k] slice_nthD [OF ca(12), of k] pD(5) by auto
    then show ?thesis using that hd(10) [of k] by auto
  qed
  have d: "slice 6 8 p = slice 6 8 (hd ps)"
    using be16_get16 [of 6 p] be16_get16 [of 6 "hd ps"] pD(4,5) hD(4,5) by simp
  have k67: "p ! k = hd ps ! k" if "k \<in> {6, 7}" for k
    using arg_cong [OF d, of "\<lambda>x. x ! (k - 6)"] that pD(5) hD(5) by (auto simp: nth_slice)
  have k32: "p ! 32 = hd ps ! 32"
    using octet_halves [of "p ! 32" "hd ps ! 32"] ca(2,3) hd(10) [of 32] e by (simp add: same_ecn_def)
  have "g_mem g 33 = hd ps ! 33" using hd(11) op(2) by simp
  then have k33: "p ! 33 AND NOT 9 = hd ps ! 33 AND NOT 9"
    using flag_masks [of "p ! 33" "hd ps ! 33"] ca(13) e by (simp add: same_ecn_def)
  have rest: "p ! k = hd ps ! k" if "k < 40" "k \<notin> {2, 3, 4, 5, 10, 11, 24, 25, 26, 27, 33, 36, 37}" for k
  proof -
    have "k \<in> {0, 9, 32} \<union> {6, 7} \<union> ({1, 8} \<union> {12..<24} \<union> {28..<32} \<union> {34..<36} \<union> {38..<40})"
      using that by (simp, presburger)
    then show ?thesis using m [of k] k67 [of k] k32 pD(1,2) hD(1,2) by (elim UnE) auto
  qed
  have "length p \<le> length (hd ps)" using ca(4) hd(5) pD(5) hD(5) by simp
  then show ?thesis
    unfolding follows_def using pD(3,5) cp(2) ca(6,7) op(3,4) hd(5) k33 rest by simp
qed

lemma train_snoc:
  assumes t: "train ps" and f: "follows (hd ps) (length ps) p"
    and l: "length (last ps) = length (hd ps)" "last ps ! 33 AND 9 = 0"
  shows "train (ps @ [p])"
proof -
  have ne: "ps \<noteq> []" using t by (simp add: train_def)
  have "follows (hd ps) i ((ps @ [p]) ! i)" if "i < Suc (length ps)" for i
    using t f that unfolding train_def by (cases "i = length ps") (simp_all add: nth_append)
  moreover have "length (ps ! i) = length (hd ps) \<and> ps ! i ! 33 AND 9 = 0" if "i < length ps" for i
    using t that l ne unfolding train_def by (cases "i = length ps - 1") (simp_all add: last_conv_nth)
  ultimately show ?thesis using ne by (simp add: train_def nth_append)
qed

lemma holds_append:
  assumes h: "holds g ps" and p: "gro_clean p" and f: "sameFlow g p" and c: "canAppend g p = Some True"
    and e: "same_ecn p (hd ps)"
  shows "\<exists>g'. gro_append p g = Some g' \<and> holds g' (ps @ [p])"
proof -
  note hd = holdsD [OF h] and ca = canAppendD [OF c]
  note op = holds_open [OF h ca(1)]
  have fo: "follows (hd ps) (length ps) p" by (rule holds_follows [OF assms])
  have t: "train (ps @ [p])" by (rule train_snoc [OF hd(1) fo op(1,2)])
  have cp: "\<forall>q\<in>set (ps @ [p]). gro_clean q" using h p by (simp add: holds_def)
  define L where "L = g_length g"
  have L: "40 \<le> L" using hd(8) by (simp add: L_def)
  define m where "m = mem_write L (drop 40 p) (g_mem g)"
  define m' where "m' = (if p ! 33 AND 9 \<noteq> 0 then m(33 := m 33 OR (p ! 33 AND 9)) else m)"
  have mk: "m k = g_mem g k" if "k < L" for k using that by (simp add: m_def mem_write_def)
  have "mem_read 40 (L + (length p - 40)) m' = mem_read 40 L (g_mem g) @ drop 40 p"
  proof -
    have "mem_read 40 L m' = mem_read 40 L (g_mem g)" by (rule mem_read_cong) (simp add: m'_def mk)
    moreover have "mem_read L (L + (length p - 40)) m' = mem_read L (L + (length p - 40)) m"
      by (rule mem_read_cong) (use L in \<open>simp add: m'_def\<close>)
    moreover have "mem_read L (L + (length p - 40)) m = drop 40 p"
      using mem_read_write [of L "drop 40 p"] by (simp add: m_def)
    ultimately show ?thesis using mem_read_split [of 40 L "L + (length p - 40)" m'] L by simp
  qed
  then have mem: "mem_read 40 (L + (length p - 40)) m' = concat (map (drop 40) (ps @ [p]))" using hd(9) by (simp add: L_def)
  have low: "\<forall>k<40. k \<noteq> 33 \<longrightarrow> m' k = hd ps ! k" using mk L hd(10) by (simp add: m'_def)
  have m33: "m' 33 = hd ps ! 33 OR (p ! 33 AND 9)"
    using mk [of 33] L hd(11) op(2) by (simp add: m'_def)
  have o: "1 OR 8 = (9 :: byte)" "8 OR 1 = (9 :: byte)" by simp_all
  define cl where "cl \<longleftrightarrow> p ! 33 AND 9 \<noteq> 0 \<or> length p - 40 < g_gsoSize g"
  have len: "40 < length p" "length p \<le> length (hd ps)" using fo unfolding follows_def by blast+
  define g' where "g' = g\<lparr>g_mem := m', g_buflen := L + (length p - 40), g_length := L + (length p - 40), g_segs := Suc (length ps),
     g_nextSeq := g_nextSeq g + of_nat (length p - 40), g_nextID := g_nextID g + 1, g_closed := cl\<rparr>"
  have ap: "gro_append p g = Some g'"
    using L hd(4) ca(1) unfolding gro_append_def Let_def o L_def [symmetric] m_def [symmetric] g'_def m'_def cl_def
    by auto
  have g': "g_mem g' = m'" "g_buflen g' = L + (length p - 40)"
      "g_length g' = L + (length p - 40)" "g_segs g' = Suc (length ps)" "g_gsoSize g' = g_gsoSize g"
      "g_nextSeq g' = g_nextSeq g + of_nat (length p - 40)" "g_nextID g' = g_nextID g + 1" "g_closed g' = cl"
    by (simp_all add: g'_def)
  have nxt: "g_nextSeq g' = get32 24 (hd ps) + of_nat (Suc (length ps) * g_gsoSize g)"
    "g_nextID g' = get16 4 (hd ps) + of_nat (Suc (length ps))" if "length p = length (hd ps)"
  proof -
    have "length p - 40 = g_gsoSize g" using that hd(5) by simp
    then show "g_nextSeq g' = get32 24 (hd ps) + of_nat (Suc (length ps) * g_gsoSize g)"
      "g_nextID g' = get16 4 (hd ps) + of_nat (Suc (length ps))"
      using g'(6,7) op(3,4) by (simp_all add: add_ac)
  qed
  have tail: "length p = length (hd ps) \<and> p ! 33 AND 9 = 0" if "\<not> g_closed g'"
    using that len hd(5) unfolding g'(8) cl_def by auto
  have "drop_bit 4 (hd ps ! 32) = 5" using ca(3) hd(10) [of 32] by simp
  then have "holds g' (ps @ [p])"
    unfolding holds_def using t cp g'(1-5) hd(2,5) ca(5) L mem low m33 nxt tail by (simp add: L_def)
  then show ?thesis using ap by blast
qed

section \<open>Flows\<close>

text \<open>The flow the table orders by, for packets that parse far enough to name one.\<close>

definition flow_of :: "bytes \<Rightarrow> bytes option" where
  "flow_of p = (if length p < 24 \<or> p ! 0 \<noteq> 0x45 \<or> p ! 9 \<noteq> 6 then None else Some (slice 12 24 p))"

definition of_flow :: "bytes option \<Rightarrow> bytes list \<Rightarrow> bytes list" where
  "of_flow f = filter (\<lambda>p. flow_of p = f)"

lemma of_flow_simps [simp]: "of_flow f [] = []" "of_flow f (ps @ qs) = of_flow f ps @ of_flow f qs"
  by (simp_all add: of_flow_def)

lemma of_flow_Cons: "of_flow f (p # ps) = of_flow f [p] @ of_flow f ps"
  by (simp add: of_flow_def)

lemma of_flow_none: "(\<And>q. q \<in> set ps \<Longrightarrow> flow_of q \<noteq> f) \<Longrightarrow> of_flow f ps = []"
  by (simp add: of_flow_def)

lemma clean_flow:
  assumes "gro_clean p"
  shows "flow_of p = Some (slice 12 24 p)"
  using coalescibleD [of p] assms by (simp add: flow_of_def gro_clean_def)

lemma flowless_passes:
  assumes "flow_of p = None"
  shows "gro_add p gs = Some (False, [], gs)"
  using assms coalescibleD(1,2,5) [of p]
  by (cases "coalescible p") (auto simp: flow_of_def gro_add_def flushSameFlow_def split: if_splits)

lemma holds_flow:
  assumes h: "holds g ps"
  shows "gro_clean p \<Longrightarrow> sameFlow g p \<longleftrightarrow> flow_of p = flow_of (hd ps)"
    and "q \<in> set ps \<Longrightarrow> flow_of q = flow_of (hd ps)"
proof -
  note hd = holdsD [OF h]
  have ch: "coalescible (hd ps)" and len: "40 < length (hd ps)"
    using hd(3) coalescibleD(5) [of "hd ps"] by (simp_all add: gro_clean_def)
  have "mem_read 12 24 (g_mem g) = slice 12 24 (hd ps)"
    by (rule nth_equalityI) (use len hd(10) in \<open>simp_all add: mem_read_nth nth_slice\<close>)
  then show "gro_clean p \<Longrightarrow> sameFlow g p \<longleftrightarrow> flow_of p = flow_of (hd ps)"
    by (auto simp: sameFlow_def clean_flow hd(3))
  assume q: "q \<in> set ps"
  then obtain i where "i < length ps" "q = ps ! i" by (auto simp: in_set_conv_nth)
  then have fo: "follows (hd ps) i q" using hd(1) by (simp add: train_def)
  have "slice 12 (12 + 12) q = slice 12 (12 + 12) (hd ps)"
    by (rule get_eqI) (use fo len in \<open>auto simp: follows_def\<close>)
  then show "flow_of q = flow_of (hd ps)" using q h by (simp add: clean_flow hd(3) holds_def)
qed

section \<open>The table keeps every flow in order\<close>

abbreviation flows :: "bytes list list \<Rightarrow> bytes option list" where
  "flows pss \<equiv> map (\<lambda>ps. flow_of (hd ps)) pss"

definition table_holds :: "groGroup list \<Rightarrow> bytes list list \<Rightarrow> bool" where
  "table_holds gs pss \<longleftrightarrow> list_all2 holds gs pss \<and> distinct (flows pss)"

lemma table_flow:
  "list_all2 holds gs pss \<Longrightarrow> q \<in> set (concat pss) \<Longrightarrow> flow_of q \<in> set (flows pss) \<and> flow_of q \<noteq> None"
proof (induction rule: list_all2_induct)
  case (Cons g gs ps pss)
  show ?case
  proof (cases "q \<in> set ps")
    case True
    then show ?thesis using holds_flow(2) [OF Cons.hyps(1)] clean_flow [OF holdsD(3) [OF Cons.hyps(1)]] by simp
  qed (use Cons in auto)
qed simp

lemma other_flow: "list_all2 holds gs pss \<Longrightarrow> f \<notin> set (flows pss) \<Longrightarrow> of_flow f (concat pss) = []"
  using table_flow by (intro of_flow_none) blast

abbreviation all_delivered :: "tun_write list \<Rightarrow> bytes list" where
  "all_delivered ws \<equiv> concat (map delivered ws)"

text \<open>Offering a packet: what goes out and what is held is, flow by flow, what was held and then the packet.\<close>

definition offered :: "bytes \<Rightarrow> bytes list list \<Rightarrow> tun_write list \<Rightarrow> bytes list list \<Rightarrow> bool" where
  "offered p pss ws pss' \<longleftrightarrow>
     (\<forall>f. of_flow f (all_delivered ws) @ of_flow f (concat pss') = of_flow f (concat pss) @ of_flow f [p])
     \<and> (\<forall>q\<in>set (all_delivered ws). flow_of q = flow_of p) \<and> set (flows pss') = insert (flow_of p) (set (flows pss))
     \<and> length (concat pss') \<le> length (concat pss) + 1 \<and> set (concat pss') \<subseteq> insert p (set (concat pss))"

lemma offered_here:
  assumes h: "holds g ps" and t: "list_all2 holds gs pss" "flow_of (hd ps) \<notin> set (flows pss)"
    and p: "flow_of p = flow_of (hd ps)"
  shows "offered p (ps # pss) [] ((ps @ [p]) # pss)"
    and "delivered w = ps \<Longrightarrow> offered p (ps # pss) [w] ([p] # pss)"
proof -
  note ne = holdsD(2) [OF h] and o = other_flow [OF t]
  have f: "of_flow f [p] @ of_flow f (concat pss) = of_flow f (concat pss) @ of_flow f [p]" for f
    using o p by (cases "f = flow_of (hd ps)") (simp_all add: of_flow_def)
  have e: "of_flow f (concat ((ps @ [p]) # pss)) = of_flow f (concat (ps # pss)) @ of_flow f [p]"
    "of_flow f ps @ of_flow f (concat ([p] # pss)) = of_flow f (concat (ps # pss)) @ of_flow f [p]" for f
    using f [of f] by (simp_all only: concat.simps of_flow_simps append_assoc)
  have fl: "set (flows ((ps @ [p]) # pss)) = insert (flow_of p) (set (flows (ps # pss)))"
    "set (flows ([p] # pss)) = insert (flow_of p) (set (flows (ps # pss)))"
    using p ne by simp_all
  have st: "set (concat ((ps @ [p]) # pss)) \<subseteq> insert p (set (concat (ps # pss)))"
    "set (concat ([p] # pss)) \<subseteq> insert p (set (concat (ps # pss)))" by auto
  show "offered p (ps # pss) [] ((ps @ [p]) # pss)"
    unfolding offered_def using e(1) fl(1) st(1) by simp
  assume w: "delivered w = ps"
  have "\<forall>q\<in>set ps. flow_of q = flow_of p" using holds_flow(2) [OF h] p by simp
  then show "offered p (ps # pss) [w] ([p] # pss)"
    unfolding offered_def using e(2) fl(2) st(2) w by simp
qed

lemma offered_later:
  assumes h: "holds g ps" and p: "flow_of p \<noteq> flow_of (hd ps)" and o: "offered p pss ws pss'"
  shows "offered p (ps # pss) ws (ps # pss')"
proof -
  have c: "of_flow f (all_delivered ws) @ of_flow f ps = of_flow f ps @ of_flow f (all_delivered ws)" for f
  proof (cases "f = flow_of p")
    case True
    then have "of_flow f ps = []" using holds_flow(2) [OF h] p by (intro of_flow_none) simp
    then show ?thesis by simp
  next
    case False
    then have "of_flow f (all_delivered ws) = []" using o by (intro of_flow_none) (auto simp: offered_def)
    then show ?thesis by simp
  qed
  have e: "of_flow f (all_delivered ws) @ of_flow f (concat pss') = of_flow f (concat pss) @ of_flow f [p]" for f
    using o unfolding offered_def by blast
  have "of_flow f (all_delivered ws) @ of_flow f (concat (ps # pss')) = of_flow f (concat (ps # pss)) @ of_flow f [p]" for f
    using arg_cong [OF c [of f], of "\<lambda>x. x @ of_flow f (concat pss')"] e [of f] by simp
  then show ?thesis using o unfolding offered_def by auto
qed

lemma gro_offer_ok:
  assumes "table_holds gs pss" and p: "gro_clean p" and n: "length (concat pss) \<le> 256"
    and e: "\<And>q. q \<in> set (concat pss) \<Longrightarrow> flow_of q = flow_of p \<Longrightarrow> same_ecn p q"
  shows "\<exists>ws gs' pss'. gro_offer p gs = Some (ws, gs') \<and> table_holds gs' pss' \<and> offered p pss ws pss'"
proof -
  have "list_all2 holds gs pss" and "distinct (flows pss)" using assms(1) by (simp_all add: table_holds_def)
  then show ?thesis using n e
  proof (induction rule: list_all2_induct)
    case Nil
    have "table_holds [gro_start p new_group] [[p]]" using holds_start [OF p] by (simp add: table_holds_def)
    moreover have "offered p [] [] [[p]]" by (simp add: offered_def)
    ultimately show ?case by auto
  next
    case (Cons g gs ps pss)
    note h = Cons.hyps(1) and t = Cons.hyps(2)
    have nin: "flow_of (hd ps) \<notin> set (flows pss)" and d: "distinct (flows pss)" using Cons.prems(1) by auto
    note same = holds_flow(1) [OF h p]
    show ?case
    proof (cases "flow_of p = flow_of (hd ps)")
      case False
      obtain ws gs' pss' where r: "gro_offer p gs = Some (ws, gs')" "table_holds gs' pss'" "offered p pss ws pss'"
        using Cons.IH d Cons.prems(2,3) by auto
      have o: "offered p (ps # pss) ws (ps # pss')" by (rule offered_later [OF h False r(3)])
      have "flow_of (hd ps) \<notin> set (flows pss')" using r(3) False nin unfolding offered_def by auto
      then have "table_holds (g # gs') (ps # pss')" using r(2) h by (simp add: table_holds_def)
      then show ?thesis using r(1) o same False by auto
    next
      case True
      then have sf: "sameFlow g p" using same by simp
      have keep: "table_holds (g' # gs) (ps' # pss)" if "holds g' ps'" "flow_of (hd ps') = flow_of (hd ps)" for g' ps'
        using that t d nin by (simp add: table_holds_def)
      have ecn: "same_ecn p (hd ps)" using Cons.prems(3) [of "hd ps"] True holdsD(2) [OF h] by simp
      have "canAppend g p \<noteq> None" using canAppend_panics [of g p] holdsD(6,8) [OF h] by auto
      then consider "canAppend g p = Some True" | "canAppend g p = Some False" by (metis (full_types) not_None_eq)
      then show ?thesis
      proof cases
        case 1
        obtain g' where g': "gro_append p g = Some g'" "holds g' (ps @ [p])" using holds_append [OF h p sf 1 ecn] by blast
        have "table_holds (g' # gs) ((ps @ [p]) # pss)" by (rule keep [OF g'(2)]) (simp add: holdsD(2) [OF h])
        then show ?thesis using g'(1) 1 sf offered_here(1) [OF h t nin True] by auto
      next
        case 2
        have "length ps \<le> 256" using Cons.prems(2) by simp
        then obtain w g' where w: "gro_flush g = Some ([w], g')" "delivered w = ps" using holds_flush [OF h] by blast
        have "table_holds (gro_start p g' # gs) ([p] # pss)" by (rule keep [OF holds_start [OF p]]) (simp add: True)
        then show ?thesis using w 2 sf offered_here(2) [OF h t nin True w(2)] by auto
      qed
    qed
  qed
qed

section \<open>A batch\<close>

text \<open>The inner packets of a batch, offered in order; a packet the table does not take is written through.\<close>

fun gro_run :: "bytes list \<Rightarrow> groGroup list \<Rightarrow> (tun_write list \<times> groGroup list) option" where
  "gro_run [] gs = Some ([], gs)"
| "gro_run (p # ps) gs = (case gro_add p gs of
     None \<Rightarrow> None
   | Some (taken, ws, gs) \<Rightarrow> map_option (\<lambda>(ws', gs). (ws @ (if taken then [] else [PlainWrite p]) @ ws', gs)) (gro_run ps gs))"

definition gro_safe :: "bytes list \<Rightarrow> bool" where
  "gro_safe ps \<longleftrightarrow> length ps \<le> 256 \<and> (\<forall>p\<in>set ps. flow_of p = None \<or> gro_clean p)
     \<and> (\<forall>p\<in>set ps. \<forall>q\<in>set ps. flow_of p = flow_of q \<and> flow_of p \<noteq> None \<longrightarrow> same_ecn p q)"

lemma gro_run_ok:
  assumes "table_holds gs pss" and "length (concat pss) + length qs \<le> 256"
    and "\<forall>p\<in>set qs. flow_of p = None \<or> gro_clean p"
    and "\<And>p q. p \<in> set qs \<Longrightarrow> q \<in> set (concat pss) \<union> set qs \<Longrightarrow> flow_of q = flow_of p \<Longrightarrow> flow_of p \<noteq> None \<Longrightarrow> same_ecn p q"
  shows "\<exists>ws gs' pss'. gro_run qs gs = Some (ws, gs') \<and> table_holds gs' pss' \<and> length (concat pss') \<le> 256
     \<and> (\<forall>f. of_flow f (all_delivered ws) @ of_flow f (concat pss') = of_flow f (concat pss) @ of_flow f qs)"
  using assms
proof (induction qs arbitrary: gs pss)
  case Nil
  then show ?case by auto
next
  case (Cons p qs)
  show ?case
  proof (cases "flow_of p = None")
    case True
    obtain ws gs' pss' where r: "gro_run qs gs = Some (ws, gs')" "table_holds gs' pss'" "length (concat pss') \<le> 256"
        "\<forall>f. of_flow f (all_delivered ws) @ of_flow f (concat pss') = of_flow f (concat pss) @ of_flow f qs"
      using Cons.IH [of gs pss] Cons.prems by auto
    have none: "of_flow None (concat pss) = []"
      using table_flow [of gs pss] Cons.prems(1) unfolding table_holds_def by (intro of_flow_none) blast
    have "of_flow f [p] @ of_flow f (concat pss) = of_flow f (concat pss) @ of_flow f [p]" for f
      using none True by (cases "f = None") (simp_all add: of_flow_def)
    then have "of_flow f [p] @ of_flow f (concat pss) @ of_flow f qs = of_flow f (concat pss) @ of_flow f [p] @ of_flow f qs" for f
      by (metis append_assoc)
    then have "of_flow f ([p] @ all_delivered ws) @ of_flow f (concat pss') = of_flow f (concat pss) @ of_flow f ([p] @ qs)" for f
      using r(4) by (simp only: of_flow_simps append_assoc)
    then show ?thesis using r flowless_passes [OF True] by auto
  next
    case False
    then have p: "gro_clean p" using Cons.prems(3) by auto
    obtain ws gs1 pss1 where o: "gro_offer p gs = Some (ws, gs1)" "table_holds gs1 pss1" "offered p pss ws pss1"
      using gro_offer_ok [OF Cons.prems(1) p] Cons.prems(2,4) False by auto
    have ol: "length (concat pss1) \<le> length (concat pss) + 1" "set (concat pss1) \<subseteq> insert p (set (concat pss))"
      and oe: "\<And>f. of_flow f (all_delivered ws) @ of_flow f (concat pss1) = of_flow f (concat pss) @ of_flow f [p]"
      using o(3) unfolding offered_def by blast+
    have "\<exists>ws gs' pss'. gro_run qs gs1 = Some (ws, gs') \<and> table_holds gs' pss' \<and> length (concat pss') \<le> 256
      \<and> (\<forall>f. of_flow f (all_delivered ws) @ of_flow f (concat pss') = of_flow f (concat pss1) @ of_flow f qs)"
    proof (rule Cons.IH [OF o(2)])
      show "length (concat pss1) + length qs \<le> 256" using ol(1) Cons.prems(2) by simp
      show "same_ecn x y" if "x \<in> set qs" "y \<in> set (concat pss1) \<union> set qs" "flow_of y = flow_of x" "flow_of x \<noteq> None" for x y
        using that ol(2) by (intro Cons.prems(4)) auto
    qed (use Cons.prems(3) in simp)
    then obtain ws2 gs' pss' where r: "gro_run qs gs1 = Some (ws2, gs')" "table_holds gs' pss'" "length (concat pss') \<le> 256"
        "\<And>f. of_flow f (all_delivered ws2) @ of_flow f (concat pss') = of_flow f (concat pss1) @ of_flow f qs" by blast
    have add: "gro_add p gs = Some (True, ws, gs1)" using p o(1) gro_clean_verified [OF p] by (simp add: gro_add_def gro_clean_def)
    have "of_flow f (all_delivered (ws @ ws2)) @ of_flow f (concat pss') = of_flow f (concat pss) @ of_flow f ([p] @ qs)" for f
      using oe [of f] r(4) [of f] append_assoc [of "of_flow f (all_delivered ws)" "of_flow f (concat pss1)" "of_flow f qs"]
      by (simp only: of_flow_simps map_append concat_append append_assoc)
    then show ?thesis using r(1-3) add by auto
  qed
qed

lemma flush_groups_ok:
  assumes "list_all2 holds gs pss" and "length (concat pss) \<le> 256"
  shows "\<exists>ws. flush_groups gs = Some ws \<and> all_delivered ws = concat pss"
  using assms
proof (induction rule: list_all2_induct)
  case (Cons g gs ps pss)
  obtain ws where ws: "flush_groups gs = Some ws" "all_delivered ws = concat pss" using Cons.IH Cons.prems by auto
  obtain w g' where w: "gro_flush g = Some ([w], g')" "delivered w = ps"
    using holds_flush [OF Cons.hyps(1)] Cons.prems by auto
  then show ?case using ws by simp
qed simp

lemma gro_batch_ok:
  assumes "gro_safe qs"
  shows "\<exists>ws gs ws'. gro_run qs [] = Some (ws, gs) \<and> flush_groups gs = Some ws'
     \<and> (\<forall>f. of_flow f (all_delivered (ws @ ws')) = of_flow f qs)"
proof -
  have s: "length qs \<le> 256" "\<forall>p\<in>set qs. flow_of p = None \<or> gro_clean p"
    "\<And>p q. p \<in> set qs \<Longrightarrow> q \<in> set qs \<Longrightarrow> flow_of q = flow_of p \<Longrightarrow> flow_of p \<noteq> None \<Longrightarrow> same_ecn p q"
    using assms unfolding gro_safe_def by simp_all
  have "table_holds [] []" by (simp add: table_holds_def)
  from gro_run_ok [OF this, of qs] s obtain ws gs pss where r: "gro_run qs [] = Some (ws, gs)" "table_holds gs pss"
      "length (concat pss) \<le> 256" "\<And>f. of_flow f (all_delivered ws) @ of_flow f (concat pss) = of_flow f qs"
    by auto
  obtain ws' where w: "flush_groups gs = Some ws'" "all_delivered ws' = concat pss"
    using flush_groups_ok [of gs pss] r(2,3) by (auto simp: table_holds_def)
  have "of_flow f (all_delivered (ws @ ws')) = of_flow f qs" for f using r(4) [of f] w(2) by simp
  then show ?thesis using r(1) w(1) by blast
qed

end
