(* ===== verification/Gro_Batch.thy ===== *)
theory Gro_Batch
  imports Pump Gro_Table
begin

text \<open>
  The batch path of the pump on a device with virtio-net headers, \<^verbatim>\<open>handleInboundBatchGRO\<close> and \<^verbatim>\<open>groMulti\<close> of
  \<^verbatim>\<open>dataplane/gro_linux.go\<close>.  What the batch writes to the device is returned in order beside the pump, whose own
  \<open>tun_out\<close> records the unbatched path.
\<close>

section \<open>The batch path of the pump\<close>

text \<open>Which writes the device took; a refused write of a flush is only logged.\<close>

fun write_ok :: "('t, 'w) tunnel_env \<Rightarrow> (bytes \<Rightarrow> bytes \<Rightarrow> bool) \<Rightarrow> tun_write \<Rightarrow> bool" where
  "write_ok e ga (PlainWrite p) = tun_accepts e p"
| "write_ok e ga (GSOWrite h f) = ga h f"

text \<open>Offer one inner packet: the writes attempted, whether a write of its own failed, the table.\<close>

definition gro_deliver ::
    "('t, 'w) tunnel_env \<Rightarrow> bytes \<Rightarrow> groGroup list \<Rightarrow> (bool \<times> tun_write list \<times> groGroup list) option" where
  "gro_deliver e inner gs = (case gro_add inner gs of
     None \<Rightarrow> None
   | Some (True, ws, gs) \<Rightarrow> Some (True, ws, gs)
   | Some (False, ws, gs) \<Rightarrow> Some (tun_accepts e inner, ws @ [PlainWrite inner], gs))"

fun groMulti_loop ::
    "('t, 'w) tunnel_env \<Rightarrow> 't bound \<Rightarrow> int \<Rightarrow> bytes list \<Rightarrow> groGroup list \<Rightarrow> ('t, 'w) Pump \<Rightarrow> (tun_write list \<times> groGroup list \<times> ('t, 'w) Pump) option" where
  "groMulti_loop e b now [] gs p = Some ([], gs, p)"
| "groMulti_loop e b now (inner # rest) gs p =
     (if length inner = 0 then groMulti_loop e b now rest gs p
      else case sourceOK b inner p of
        (False, p) \<Rightarrow> groMulti_loop e b now rest gs p
      | (True, p) \<Rightarrow>
          let p = count_block (bc b) (countRx (length inner) now) p in
          case gro_deliver e inner gs of
            None \<Rightarrow> None
          | Some (True, ws, gs) \<Rightarrow> map_option (\<lambda>(ws', r). (ws @ ws', r)) (groMulti_loop e b now rest gs p)
          | Some (False, ws, gs) \<Rightarrow> Some (ws, gs, drop_for DropTUNWrite p))"

definition groMulti ::
    "('t, 'w) tunnel_env \<Rightarrow> 't bound \<Rightarrow> bytes \<Rightarrow> UDPAddr option \<Rightarrow> int \<Rightarrow> groGroup list \<Rightarrow> ('t, 'w) Pump \<Rightarrow> (tun_write list \<times> groGroup list \<times> ('t, 'w) Pump) option" where
  "groMulti e b pkt from now gs p = (case decapMulti e b pkt from now p of
     (None, p) \<Rightarrow> Some ([], gs, p)
   | (Some inners, p) \<Rightarrow> groMulti_loop e b now inners gs p)"

fun gro_datagrams ::
    "('t, 'w) tunnel_env \<Rightarrow> int \<Rightarrow> (bytes \<times> UDPAddr option) list \<Rightarrow> groGroup list \<Rightarrow> ('t, 'w) Pump \<Rightarrow> (tun_write list \<times> groGroup list \<times> ('t, 'w) Pump) option" where
  "gro_datagrams e now [] gs p = Some ([], gs, p)"
| "gro_datagrams e now ((pkt, from) # ds) gs p =
     (case lookupInbound e pkt p of
        (None, p) \<Rightarrow> gro_datagrams e now ds gs p
      | (Some b, p) \<Rightarrow>
          if b_multi b then
            (case groMulti e b pkt from now gs p of
               None \<Rightarrow> None
             | Some (ws, gs, p) \<Rightarrow> map_option (\<lambda>(ws', r). (ws @ ws', r)) (gro_datagrams e now ds gs p))
          else case decapInbound e b pkt from now p of
            (None, p) \<Rightarrow> gro_datagrams e now ds gs p
          | (Some inner, p) \<Rightarrow>
              let p = count_block (bc b) (countRx (length inner) now) p in
              case gro_deliver e inner gs of
                None \<Rightarrow> None
              | Some (ok, ws, gs) \<Rightarrow>
                  map_option (\<lambda>(ws', r). (ws @ ws', r)) (gro_datagrams e now ds gs (if ok then p else drop_for DropTUNWrite p)))"

definition handleInboundBatchGRO ::
    "('t, 'w) tunnel_env \<Rightarrow> (bytes \<Rightarrow> bytes \<Rightarrow> bool) \<Rightarrow> (bytes \<times> UDPAddr option) list \<Rightarrow> int \<Rightarrow> ('t, 'w) Pump \<Rightarrow> (tun_write list \<times> ('t, 'w) Pump) option" where
  "handleInboundBatchGRO e ga ds now p = (case gro_datagrams e now ds [] p of
     None \<Rightarrow> None
   | Some (ws, gs, p) \<Rightarrow> map_option (\<lambda>ws'. (filter (write_ok e ga) (ws @ ws'), p)) (flush_groups gs))"

text \<open>The batch on a device without virtio-net headers: one datagram after the other.\<close>

definition HandleInboundBatch :: "('t, 'w) tunnel_env \<Rightarrow> (bytes \<times> UDPAddr option) list \<Rightarrow> int \<Rightarrow> ('t, 'w) Pump \<Rightarrow> ('t, 'w) Pump" where
  "HandleInboundBatch e ds now p = fold (\<lambda>(pkt, from) p. handleInbound e pkt from now p) ds p"

section \<open>The batch offers what the single path writes\<close>

abbreviation set_tun :: "bytes list \<Rightarrow> ('t, 'w) Pump \<Rightarrow> ('t, 'w) Pump" where
  "set_tun t p \<equiv> p\<lparr>tun_out := t\<rparr>"

lemma tun_lookup:
  "lookupInbound e pkt (set_tun t p) = map_prod id (set_tun t) (lookupInbound e pkt p)"
  "tun_out (snd (lookupInbound e pkt p)) = tun_out p"
  by (simp_all add: lookupInbound_def drop_for_def split: option.splits)

lemma tun_source:
  "sourceOK b x (set_tun t p) = map_prod id (set_tun t) (sourceOK b x p)"
  "tun_out (snd (sourceOK b x p)) = tun_out p"
  by (simp_all add: sourceOK_def drop_for_def split: option.splits)

lemma tun_count:
  "count_block c f (set_tun t p) = set_tun t (count_block c f p)" "tun_out (count_block c f p) = tun_out p"
  by (simp_all add: count_block_def)

lemma tun_roam:
  "roam b from (set_tun t p) = set_tun t (roam b from p)" "tun_out (roam b from p) = tun_out p"
  by (simp_all add: roam_def split: option.splits)

lemma tun_decapMulti:
  "decapMulti e b pkt from now (set_tun t p) = map_prod id (set_tun t) (decapMulti e b pkt from now p)"
  "tun_out (snd (decapMulti e b pkt from now p)) = tun_out p"
  by (auto simp: decapMulti_def drop_for_def roam_def split: option.splits prod.splits)

lemma tun_decapInbound:
  "decapInbound e b pkt from now (set_tun t p) = map_prod id (set_tun t) (decapInbound e b pkt from now p)"
  "tun_out (snd (decapInbound e b pkt from now p)) = tun_out p"
  by (auto simp: decapInbound_def drop_for_def roam_def sourceOK_def count_block_def Let_def split: option.splits prod.splits)

lemma gro_run_append:
  "gro_run (xs @ ys) gs = (case gro_run xs gs of None \<Rightarrow> None
     | Some (ws, gs) \<Rightarrow> map_option (\<lambda>(ws', r). (ws @ ws', r)) (gro_run ys gs))"
proof (induction xs arbitrary: gs)
  case Nil
  show ?case by (cases "gro_run ys gs") auto
next
  case (Cons x xs)
  show ?case
    by (cases "gro_add x gs") (auto simp: Cons.IH option.map_comp o_def case_prod_unfold split: option.splits)
qed

lemma gro_deliver_accepted:
  assumes "\<forall>x. tun_accepts e x"
  shows "gro_deliver e x gs = map_option (\<lambda>(ws, gs). (True, ws, gs)) (gro_run [x] gs)"
  using assms by (auto simp: gro_deliver_def split: option.splits bool.splits)

text \<open>A step of the batch puts \<open>xs\<close> through the table where the single path writes \<open>xs\<close>.\<close>

definition offers :: "bytes list \<Rightarrow> ('t, 'w) Pump \<Rightarrow> ('t, 'w) Pump \<Rightarrow> (groGroup list \<Rightarrow> ('t, 'w) Pump \<Rightarrow> (tun_write list \<times> groGroup list \<times> ('t, 'w) Pump) option) \<Rightarrow> bool" where
  "offers xs p p' step \<longleftrightarrow> tun_out p' = tun_out p @ xs
     \<and> (\<forall>gs t. step gs (set_tun t p) = map_option (\<lambda>(ws, gs). (ws, gs, set_tun t p')) (gro_run xs gs))"

lemma groMulti_loop_offers:
  assumes a: "\<forall>x. tun_accepts e x"
  shows "\<exists>xs. offers xs p (deliver e b now inners p) (groMulti_loop e b now inners)"
proof (induction inners arbitrary: p)
  case Nil
  show ?case by (rule exI [of _ "[]"]) (simp add: offers_def)
next
  case (Cons x inners)
  show ?case
  proof (cases "length x = 0")
    case True
    then show ?thesis using Cons.IH by (simp add: offers_def deliver.simps)
  next
    case ne: False
    obtain ok p1 where s: "sourceOK b x p = (ok, p1)" by (cases "sourceOK b x p")
    have t1: "tun_out p1 = tun_out p" and s': "\<And>t. sourceOK b x (set_tun t p) = (ok, set_tun t p1)"
      using tun_source(2) [of b x p] tun_source(1) [of b x _ p] s by simp_all
    show ?thesis
    proof (cases ok)
      case False
      then show ?thesis using Cons.IH [of p1] ne s s' t1 by (simp add: offers_def deliver.simps)
    next
      case True
      define p2 where "p2 = count_block (bc b) (countRx (length x) now) p1"
      have t2: "tun_out p2 = tun_out p" by (simp add: p2_def tun_count t1)
      obtain xs where xs: "offers xs (set_tun (tun_out p @ [x]) p2) (deliver e b now inners (set_tun (tun_out p @ [x]) p2)) (groMulti_loop e b now inners)"
        using Cons.IH by blast
      have d: "deliver e b now (x # inners) p = deliver e b now inners (set_tun (tun_out p @ [x]) p2)"
        using ne s True a t2 by (simp add: deliver.simps p2_def [symmetric] writeTUN_def)
      have l: "groMulti_loop e b now (x # inners) gs (set_tun t p) = (case gro_run [x] gs of None \<Rightarrow> None
          | Some (ws, gs) \<Rightarrow> map_option (\<lambda>(ws', r). (ws @ ws', r)) (groMulti_loop e b now inners gs (set_tun t p2)))" for gs t
        using ne True by (simp add: s' tun_count p2_def [symmetric] gro_deliver_accepted [OF a] del: gro_run.simps split: option.splits)
      have "offers ([x] @ xs) p (deliver e b now (x # inners) p) (groMulti_loop e b now (x # inners))"
        using xs unfolding offers_def d l gro_run_append
        by (auto simp: option.map_comp o_def case_prod_unfold del: gro_run.simps split: option.splits)
      then show ?thesis by blast
    qed
  qed
qed


lemma handleInbound_offers:
  assumes a: "\<forall>x. tun_accepts e x"
  shows "\<exists>xs. offers xs p (handleInbound e pkt from now p) (gro_datagrams e now [(pkt, from)])"
proof -
  obtain ob p1 where l: "lookupInbound e pkt p = (ob, p1)" by (cases "lookupInbound e pkt p")
  have t1: "tun_out p1 = tun_out p" and l': "\<And>t. lookupInbound e pkt (set_tun t p) = (ob, set_tun t p1)"
    using tun_lookup(2) [of e pkt p] tun_lookup(1) [of e pkt _ p] l by simp_all
  show ?thesis
  proof (cases ob)
    case None
    then show ?thesis by (intro exI [of _ "[]"]) (simp add: offers_def handleInbound_def l l' t1)
  next
    case (Some b)
    show ?thesis
    proof (cases "b_multi b")
      case True
      obtain oi p2 where m: "decapMulti e b pkt from now p1 = (oi, p2)" by (cases "decapMulti e b pkt from now p1")
      have t2: "tun_out p2 = tun_out p" and m': "\<And>t. decapMulti e b pkt from now (set_tun t p1) = (oi, set_tun t p2)"
        using tun_decapMulti(2) [of e b pkt "from" now p1] tun_decapMulti(1) [of e b pkt "from" now _ p1] m t1 by simp_all
      show ?thesis
      proof (cases oi)
        case None
        then show ?thesis
          using Some True by (intro exI [of _ "[]"]) (simp add: offers_def handleInbound_def handleInboundMulti_def groMulti_def l l' m m' t2)
      next
        case (Some inners)
        obtain xs where "offers xs p2 (deliver e b now inners p2) (groMulti_loop e b now inners)"
          using groMulti_loop_offers [OF a] by blast
        then show ?thesis
          using \<open>ob = Some b\<close> True Some
          by (intro exI [of _ xs]) (auto simp: offers_def handleInbound_def handleInboundMulti_def groMulti_def l l' m m' t2
            option.map_comp o_def case_prod_unfold split: option.splits)
      qed
    next
      case False
      obtain oi p2 where m: "decapInbound e b pkt from now p1 = (oi, p2)" by (cases "decapInbound e b pkt from now p1")
      have t2: "tun_out p2 = tun_out p" and m': "\<And>t. decapInbound e b pkt from now (set_tun t p1) = (oi, set_tun t p2)"
        using tun_decapInbound(2) [of e b pkt "from" now p1] tun_decapInbound(1) [of e b pkt "from" now _ p1] m t1 by simp_all
      show ?thesis
      proof (cases oi)
        case None
        then show ?thesis
          using Some False by (intro exI [of _ "[]"]) (simp add: offers_def handleInbound_def l l' m m' t2)
      next
        case (Some x)
        then show ?thesis
          using \<open>ob = Some b\<close> False a
          by (intro exI [of _ "[x]"]) (auto simp: offers_def handleInbound_def l l' m m' t2 tun_count writeTUN_def Let_def
            gro_deliver_accepted [OF a] simp del: gro_run.simps split: option.splits)
      qed
    qed
  qed
qed

lemma gro_datagrams_Cons:
  "gro_datagrams e now (d # ds) gs p = (case gro_datagrams e now [d] gs p of None \<Rightarrow> None
     | Some (ws, gs, p) \<Rightarrow> map_option (\<lambda>(ws', r). (ws @ ws', r)) (gro_datagrams e now ds gs p))"
proof -
  have i: "map_option (\<lambda>(ws', r). (ws', r)) x = x" for x :: "('x \<times> 'y) option" by (cases x) auto
  show ?thesis
    by (cases d) (auto simp: i Let_def option.map_id split: prod.splits option.splits)
qed

lemma batch_offers:
  assumes a: "\<forall>x. tun_accepts e x"
  shows "\<exists>xs. offers xs p (HandleInboundBatch e ds now p) (gro_datagrams e now ds)"
proof (induction ds arbitrary: p)
  case Nil
  show ?case by (rule exI [of _ "[]"]) (simp add: offers_def HandleInboundBatch_def)
next
  case (Cons d ds)
  obtain pkt "from" where d: "d = (pkt, from)" by (cases d)
  define p1 where "p1 = handleInbound e pkt from now p"
  obtain xs where x: "offers xs p p1 (gro_datagrams e now [d])" using handleInbound_offers [OF a] unfolding d p1_def by blast
  obtain ys where y: "offers ys p1 (HandleInboundBatch e ds now p1) (gro_datagrams e now ds)" using Cons.IH by blast
  have b: "HandleInboundBatch e (d # ds) now p = HandleInboundBatch e ds now p1" by (simp add: HandleInboundBatch_def d p1_def)
  have "offers (xs @ ys) p (HandleInboundBatch e (d # ds) now p) (gro_datagrams e now (d # ds))"
    using x y unfolding offers_def b gro_datagrams_Cons [of e now d ds] gro_run_append
    by (auto simp: option.map_comp o_def case_prod_unfold split: option.splits)
  then show ?case by blast
qed

text \<open>The batch in two halves: the packets the single path writes go through the table, and the table is flushed.\<close>

lemma batch_GRO:
  assumes a: "\<forall>x. tun_accepts e x" and g: "\<forall>h f. ga h f"
    and x: "tun_out (HandleInboundBatch e ds now p) = tun_out p @ xs"
  shows "handleInboundBatchGRO e ga ds now p = (case gro_run xs [] of None \<Rightarrow> None
     | Some (ws, gs) \<Rightarrow> map_option (\<lambda>ws'. (ws @ ws', set_tun (tun_out p) (HandleInboundBatch e ds now p))) (flush_groups gs))"
proof -
  obtain ys where y: "offers ys p (HandleInboundBatch e ds now p) (gro_datagrams e now ds)" using batch_offers [OF a] by blast
  then have "ys = xs" using x by (simp add: offers_def)
  moreover have "write_ok e ga w" for w using a g by (cases w) simp_all
  moreover have "gro_datagrams e now ds [] (set_tun (tun_out p) p) =
      map_option (\<lambda>(ws, gs). (ws, gs, set_tun (tun_out p) (HandleInboundBatch e ds now p))) (gro_run ys [])"
    using y unfolding offers_def by blast
  ultimately show ?thesis
    unfolding handleInboundBatchGRO_def by (auto split: option.splits)
qed

text \<open>A segment appended to a flushed group, whose buffer is empty and whose header fields are not.\<close>

lemma headerless_append:
  "Option.bind (gro_append b (g\<lparr>g_segs := 0, g_length := 0\<rparr>)) (\<lambda>g. flush_groups [g]) =
     (let flags = b ! 33 AND 9; pl = drop 40 b
      in if flags = 0 then Some [PlainWrite pl]
         else if length pl \<le> 33 then None
         else Some [PlainWrite (pl[33 := pl ! 33 OR flags])])"
proof -
  have o: "8 OR 1 = (9 :: byte)" by simp
  define pl where "pl = drop 40 b"
  have u: "mem_read 0 (length pl) ((mem_write 0 pl m)(33 := v)) = pl[33 := v]" if "33 < length pl" for m v
    by (rule nth_equalityI) (use that in \<open>auto simp: mem_read_nth mem_write_def nth_list_update\<close>)
  have r: "mem_write 0 pl m 33 = pl ! 33" if "33 < length pl" for m using that by (simp add: mem_write_def)
  have z: "mem_read 0 (length pl) (mem_write 0 pl m) = pl" for m by (rule mem_read_write0)
  show ?thesis
    unfolding gro_append_def Let_def o pl_def [symmetric] by (simp add: gro_flush_def u r z)
qed

section \<open>Properties\<close>

text \<open>
  C38: Coalescing changes no flow.  When the device takes every write, and the packets that the datagrams of a batch decapsulate to
  are at most 256, each either outside the flows the table knows or a TCP data segment with the checksums a sender computes,
  and the segments of a flow agree in their ECN and reserved bits, then the batch path leaves the pump as the datagram-by-datagram
  path does, apart from the device, and the segments of what it writes are, in every flow, the packets that path writes, in their
  order.
\<close>

theorem gro_batch_delivers_each_flow:
  assumes "\<forall>x. tun_accepts e x" and "\<forall>h f. ga h f"
    and "tun_out (HandleInboundBatch e ds now p) = tun_out p @ xs" and "gro_safe xs"
  shows "\<exists>ws. handleInboundBatchGRO e ga ds now p = Some (ws, (HandleInboundBatch e ds now p)\<lparr>tun_out := tun_out p\<rparr>)
     \<and> (\<forall>f. of_flow f (concat (map delivered ws)) = of_flow f xs)"
proof -
  obtain ws gs ws' where "gro_run xs [] = Some (ws, gs)" "flush_groups gs = Some ws'"
      "\<forall>f. of_flow f (all_delivered (ws @ ws')) = of_flow f xs"
    using gro_batch_ok [OF assms(4)] by blast
  then show ?thesis using batch_GRO [OF assms(1-3)] by (intro exI [of _ "ws @ ws'"]) simp
qed


text \<open>
  C39: A flushed group still takes segments, without its headers.  Take a batch whose datagrams decapsulate to a TCP segment \<open>a\<close>
  that stays open, a packet \<open>x\<close> of the same flow that is not merged, and a verified segment \<open>b\<close> of that flow that the merge
  rules accept after \<open>a\<close>.  The packet \<open>x\<close> flushes the group, the group keeps the header fields it compares with, and \<open>b\<close> is
  appended to an empty buffer: what goes to the device for \<open>b\<close> is its TCP payload, octets its sender chose, in place of an IP packet.
  With PSH or FIN set the flags are merged into octet 33 of that payload, and a payload of at most 33 octets panics.
\<close>

theorem gro_flushed_group_loses_headers:
  assumes "\<forall>x. tun_accepts e x" and "\<forall>h f. ga h f"
    and "tun_out (HandleInboundBatch e ds now p) = tun_out p @ [a, x, b]"
    and "coalescible a" and "tcpChecksumOK a" and "coalescible b" and "tcpChecksumOK b"
    and "flow_of x = flow_of a" and "flow_of b = flow_of a" and "\<not> (coalescible x \<and> tcpChecksumOK x)"
    and "canAppend (gro_start a new_group) b = Some True"
  shows "handleInboundBatchGRO e ga ds now p =
     (let flags = b ! 33 AND 9; pl = drop 40 b; p' = (HandleInboundBatch e ds now p)\<lparr>tun_out := tun_out p\<rparr>
      in if flags = 0 then Some ([PlainWrite a, PlainWrite x, PlainWrite pl], p')
         else if length pl \<le> 33 then None
         else Some ([PlainWrite a, PlainWrite x, PlainWrite (pl[33 := pl ! 33 OR flags])], p'))"
proof -
  define g where "g = (gro_start a new_group)\<lparr>g_segs := 0, g_length := 0\<rparr>"
  have fx: "\<not> (length x < 24 \<or> x ! 0 \<noteq> 0x45 \<or> x ! 9 \<noteq> 6)" "slice 12 24 x = slice 12 24 a" "slice 12 24 b = slice 12 24 a"
    using assms(8,9) coalescibleD(1,2,5) [OF assms(4)] coalescibleD(1,2,5) [OF assms(6)]
    by (auto simp: flow_of_def split: if_splits)
  have s: "sameFlow (gro_start a new_group) y \<longleftrightarrow> slice 12 24 a = slice 12 24 y" for y
  proof -
    have "mem_read 12 24 (g_mem (gro_start a new_group)) = slice 12 24 a"
      by (rule nth_equalityI)
        (use coalescibleD(5) [OF assms(4)] in \<open>simp_all add: mem_read_nth nth_slice gro_start_def Let_def mem_write_def\<close>)
    then show ?thesis by (simp add: sameFlow_def)
  qed
  have f1: "gro_flush (gro_start a new_group) = Some ([PlainWrite a], g)"
    by (simp add: gro_flush_def g_def gro_start_def Let_def mem_read_write0)
  have ra: "gro_add a [] = Some (True, [], [gro_start a new_group])" using assms(4,5) by (simp add: gro_add_def)
  have rx: "gro_add x [gro_start a new_group] = Some (False, [PlainWrite a], [g])"
    using assms(10) fx s [of x] f1 by (auto simp: gro_add_def flushSameFlow_def gro_start_def Let_def)
  have "sameFlow g b" using s [of b] fx by (simp add: sameFlow_def g_def)
  moreover have "canAppend g b = Some True"
    using assms(11) coalescibleD(6) [OF assms(6)] by (auto simp: canAppend_def Let_def g_def split: if_splits)
  ultimately have rb: "gro_add b [g] = map_option (\<lambda>g. (True, [], [g])) (gro_append b g)"
    using assms(6,7) by (simp add: gro_add_def option.map_comp o_def)
  have run: "gro_run [a, x, b] [] = map_option (\<lambda>g. ([PlainWrite a, PlainWrite x], [g])) (gro_append b g)"
    by (cases "gro_append b g") (simp_all add: ra rx rb)
  have whole: "(case map_option (\<lambda>g. ([PlainWrite a, PlainWrite x], [g])) (gro_append b g) of None \<Rightarrow> None
      | Some (ws, gs) \<Rightarrow> map_option (\<lambda>ws'. (ws @ ws', q)) (flush_groups gs)) =
    map_option (\<lambda>ws'. (PlainWrite a # PlainWrite x # ws', q)) (Option.bind (gro_append b g) (\<lambda>g. flush_groups [g]))" for q
    by (cases "gro_append b g") simp_all
  show ?thesis
    unfolding batch_GRO [OF assms(1-3)] run whole headerless_append [of b "gro_start a new_group", folded g_def]
    by (simp add: Let_def)
qed

section \<open>Concrete batches\<close>

text \<open>Two segments of one connection, the second with PSH, as the example protocol carries them.\<close>

definition example_seg1 :: bytes where
  "example_seg1 = [69, 0, 0, 42, 0, 5, 64, 0, 64, 6, 32, 183, 10, 1, 0, 2, 8, 8, 8, 8, 3, 232, 0, 80, 0, 0, 0, 100, 0, 0, 0, 7, 80, 16, 1, 0, 39, 180, 0, 0, 104, 105]"

definition example_seg2 :: bytes where
  "example_seg2 = [69, 0, 0, 41, 0, 6, 64, 0, 64, 6, 32, 183, 10, 1, 0, 2, 8, 8, 8, 8, 3, 232, 0, 80, 0, 0, 0, 102, 0, 0, 0, 7, 80, 24, 1, 0, 111, 20, 0, 0, 33]"

text \<open>A segment, a pure acknowledgement, and a segment whose payload is an IPv4 header with a source outside the tunnel's routes.\<close>

definition example_open :: bytes where
  "example_open = [69, 0, 0, 60, 0, 5, 64, 0, 64, 6, 32, 165, 10, 1, 0, 2, 8, 8, 8, 8, 3, 232, 0, 80, 0, 0, 0, 100, 0, 0, 0, 7, 80, 16, 1, 0, 144, 11, 0, 0, 0, 0, 0, 0, 0, 0, 0, 0, 0, 0, 0, 0, 0, 0, 0, 0, 0, 0, 0, 0]"

definition example_ack :: bytes where
  "example_ack = [69, 0, 0, 40, 0, 9, 64, 0, 64, 6, 32, 181, 10, 1, 0, 2, 8, 8, 8, 8, 3, 232, 0, 80, 0, 0, 0, 120, 0, 0, 0, 7, 80, 16, 1, 0, 144, 11, 0, 0]"

definition example_payload :: bytes where
  "example_payload = [69, 0, 0, 60, 0, 6, 64, 0, 64, 6, 32, 164, 10, 1, 0, 2, 8, 8, 8, 8, 3, 232, 0, 80, 0, 0, 0, 120, 0, 0, 0, 7, 80, 16, 1, 0, 58, 24, 0, 0, 69, 0, 0, 20, 0, 0, 0, 0, 64, 17, 0, 0, 192, 168, 0, 1, 8, 8, 8, 8]"

lemmas packet_evals = Let_def foldSum_step eval_simps

lemma example_clean: "gro_clean example_seg1" "gro_clean example_seg2"
proof -
  have "coalescible example_seg1" "coalescible example_seg2"
    by (simp_all add: coalescible_def example_seg1_def example_seg2_def packet_evals)
  moreover have "stamp_checksums 20 example_seg1 = example_seg1" "stamp_checksums 20 example_seg2 = example_seg2"
    by (rule stamp_fixed; simp add: example_seg1_def example_seg2_def packet_evals)+
  ultimately show "gro_clean example_seg1" "gro_clean example_seg2" by (simp_all add: gro_clean_def)
qed

lemma example_safe: "gro_safe [example_seg1, example_seg2]"
  using example_clean by (auto simp: gro_safe_def same_ecn_def example_seg1_def example_seg2_def)

lemma example_ack_passes: "\<not> coalescible example_ack"
  by (simp add: coalescible_def example_ack_def packet_evals)

lemma example_open_ok: "coalescible example_open" "tcpChecksumOK example_open" "coalescible example_payload" "tcpChecksumOK example_payload"
  by (simp_all add: coalescible_def tcpChecksumOK_def example_open_def example_payload_def packet_evals)

lemma example_flows: "flow_of example_ack = flow_of example_open" "flow_of example_payload = flow_of example_open"
  by (simp_all add: flow_of_def example_ack_def example_open_def example_payload_def slice_def)

lemma example_continues: "canAppend (gro_start example_open new_group) example_payload = Some True"
proof -
  define m where "m = g_mem (gro_start example_open new_group)"
  have m: "m k = example_open ! k" if "k < 60" for k
    using that by (simp add: m_def gro_start_def Let_def mem_write_def example_open_def)
  have r: "mem_read a b m = slice a b example_open" if "b \<le> 60" for a b
    by (rule nth_equalityI) (use that m in \<open>auto simp: mem_read_nth nth_slice example_open_def\<close>)
  have g: "g_closed (gro_start example_open new_group) = False" "g_buflen (gro_start example_open new_group) = 60"
      "g_length (gro_start example_open new_group) = 60" "g_gsoSize (gro_start example_open new_group) = 20"
      "g_nextSeq (gro_start example_open new_group) = 120" "g_nextID (gro_start example_open new_group) = 6"
    by (simp_all add: gro_start_def example_open_def packet_evals)
  show ?thesis
    unfolding canAppend_def Let_def g m_def [symmetric]
    by (simp add: m r) (simp add: example_open_def example_payload_def packet_evals)
qed

lemma example_tunnel:
  assumes q: "byKey q 1 = byKey example_pump 1" and x: "x \<noteq> []" "SourceWithin x [\<lparr>pfx_addr = Addr4 0x0a010000, pfx_bits = 16\<rparr>]"
  shows "tun_out (handleInbound example_env ([0, 0, 0, 1] @ x) None now q) = tun_out q @ [x]"
    and "byKey (handleInbound example_env ([0, 0, 0, 1] @ x) None now q) 1 = byKey example_pump 1"
  using assms
  by (simp_all add: handleInbound_def lookupInbound_def decapInbound_def sourceOK_def roam_def count_block_def writeTUN_def
    example_simps SPIDemux_def get32_def slice_def be_val_Cons Let_def)

lemma example_batch:
  assumes "\<And>x. x \<in> set xs \<Longrightarrow> x \<noteq> [] \<and> SourceWithin x [\<lparr>pfx_addr = Addr4 0x0a010000, pfx_bits = 16\<rparr>]"
  shows "tun_out (HandleInboundBatch example_env (map (\<lambda>x. ([0, 0, 0, 1] @ x, None)) xs) now example_pump) = tun_out example_pump @ xs"
proof -
  have "tun_out (HandleInboundBatch example_env (map (\<lambda>x. ([0, 0, 0, 1] @ x, None)) xs) now q) = tun_out q @ xs"
    if "byKey q 1 = byKey example_pump 1" for q
    using assms that
  proof (induction xs arbitrary: q)
    case (Cons x xs)
    then show ?case using example_tunnel [of q x now] unfolding HandleInboundBatch_def by simp
  qed (simp add: HandleInboundBatch_def)
  then show ?thesis by simp
qed

lemma example_sources:
  "x \<in> {example_seg1, example_seg2, example_open, example_ack, example_payload} \<Longrightarrow>
   x \<noteq> [] \<and> SourceWithin x [\<lparr>pfx_addr = Addr4 0x0a010000, pfx_bits = 16\<rparr>]"
  by (auto simp: SourceWithin_def InnerSource_def version_def AddrFrom4_def Contains_def example_seg1_def example_seg2_def example_open_def example_ack_def example_payload_def eval_simps)

theorem gro_batch_delivers_each_flow_witness:
  "\<exists>ws. handleInboundBatchGRO example_env (\<lambda>h f. True) (map (\<lambda>x. ([0, 0, 0, 1] @ x, None)) [example_seg1, example_seg2]) 5 example_pump
        = Some (ws, (HandleInboundBatch example_env (map (\<lambda>x. ([0, 0, 0, 1] @ x, None)) [example_seg1, example_seg2]) 5 example_pump)
            \<lparr>tun_out := tun_out example_pump\<rparr>)
     \<and> (\<forall>f. of_flow f (concat (map delivered ws)) = of_flow f [example_seg1, example_seg2])"
proof (rule gro_batch_delivers_each_flow)
  show "\<forall>x. tun_accepts example_env x" by (simp add: example_env_def)
  show "tun_out (HandleInboundBatch example_env (map (\<lambda>x. ([0, 0, 0, 1] @ x, None)) [example_seg1, example_seg2]) 5 example_pump)
      = tun_out example_pump @ [example_seg1, example_seg2]"
    by (rule example_batch) (use example_sources in auto)
qed (simp_all add: example_safe)

theorem gro_flushed_group_loses_headers_witness:
  "handleInboundBatchGRO example_env (\<lambda>h f. True) (map (\<lambda>x. ([0, 0, 0, 1] @ x, None)) [example_open, example_ack, example_payload]) 5 example_pump
     = Some ([PlainWrite example_open, PlainWrite example_ack, PlainWrite (drop 40 example_payload)],
         (HandleInboundBatch example_env (map (\<lambda>x. ([0, 0, 0, 1] @ x, None)) [example_open, example_ack, example_payload]) 5 example_pump)
            \<lparr>tun_out := tun_out example_pump\<rparr>)
   \<and> SourceWithin example_payload [\<lparr>pfx_addr = Addr4 0x0a010000, pfx_bits = 16\<rparr>]
   \<and> \<not> SourceWithin (drop 40 example_payload) [\<lparr>pfx_addr = Addr4 0x0a010000, pfx_bits = 16\<rparr>]"
proof -
  let ?ds = "map (\<lambda>x. ([0, 0, 0, 1] @ x, None)) [example_open, example_ack, example_payload]"
  have a: "\<forall>x. tun_accepts example_env x" by (simp add: example_env_def)
  have t: "tun_out (HandleInboundBatch example_env ?ds 5 example_pump) = tun_out example_pump @ [example_open, example_ack, example_payload]"
    by (rule example_batch) (use example_sources in auto)
  have g: "\<forall>h f. (\<lambda>h f. True) (h :: bytes) (f :: bytes)" by simp
  have n: "\<not> (coalescible example_ack \<and> tcpChecksumOK example_ack)" using example_ack_passes by simp
  have f: "example_payload ! 33 AND 9 = 0" by (simp add: example_payload_def)
  have s: "\<not> SourceWithin (drop 40 example_payload) [\<lparr>pfx_addr = Addr4 0x0a010000, pfx_bits = 16\<rparr>]"
    by (simp add: SourceWithin_def InnerSource_def version_def AddrFrom4_def Contains_def example_payload_def eval_simps)
  show ?thesis
    using gro_flushed_group_loses_headers [OF a g t example_open_ok(1,2) example_open_ok(3,4) example_flows n example_continues]
      f s example_sources [of example_payload] by (simp add: Let_def)
qed

end
