(* ===== verification/Replay.thy ===== *)
theory Replay
  imports Prelude
begin

text \<open>
  The anti-replay windows.  The repository holds six of them:
  \<^verbatim>\<open>internal/replay\<close> (nebula and toy), the RFC 6479 ring of WireGuard, the 64-packet bitmaps of ESP,
  of the OpenVPN data channel, of the OpenVPN control wrapping, and of DTLS.  They share one contract, stated here as the locale
  \<open>replay_guard\<close>: seen over a whole run, a window accepts a counter exactly when the counter is
  valid, was never accepted before and is within the window behind the highest counter
  accepted so far.  Each window interprets the locale on its own state and operations.
\<close>

section \<open>The contract\<close>

text \<open>
  The specification keeps the set of every counter accepted so far.  \<open>fresh W A c\<close>: the
  counter is new, and less than \<open>W\<close> behind everything accepted.
\<close>

definition fresh :: "nat \<Rightarrow> nat set \<Rightarrow> nat \<Rightarrow> bool" where
  "fresh W A c \<longleftrightarrow> c \<notin> A \<and> (\<forall>a\<in>A. a < c + W)"

fun spec_accepted :: "nat \<Rightarrow> ('l::len word \<Rightarrow> bool) \<Rightarrow> nat set \<Rightarrow> 'l word list \<Rightarrow> 'l word list" where
  "spec_accepted W valid A [] = []"
| "spec_accepted W valid A (c # cs) =
     (if valid c \<and> fresh W A (unat c)
      then c # spec_accepted W valid (insert (unat c) A) cs
      else spec_accepted W valid A cs)"

text \<open>The counters an implementation accepts in a run; \<open>None\<close> if a call does not return.\<close>

fun accepted :: "('s \<Rightarrow> 'c \<Rightarrow> (bool \<times> 's) option) \<Rightarrow> 's \<Rightarrow> 'c list \<Rightarrow> 'c list option" where
  "accepted acc s [] = Some []"
| "accepted acc s (c # cs) =
     (case acc s c of
        None \<Rightarrow> None
      | Some (b, s') \<Rightarrow> map_option (\<lambda>ds. if b then c # ds else ds) (accepted acc s' cs))"

lemma spec_accepted_disjoint: "c \<in> set (spec_accepted W valid A cs) \<Longrightarrow> unat c \<notin> A"
  by (induction W valid A cs rule: spec_accepted.induct) (auto simp: fresh_def split: if_splits)

lemma spec_accepted_distinct: "distinct (spec_accepted W valid A cs)"
proof (induction W valid A cs rule: spec_accepted.induct)
  case (2 W valid A c cs)
  have "c \<notin> set (spec_accepted W valid (insert (unat c) A) cs)"
    using spec_accepted_disjoint by blast
  with 2 show ?case by simp
qed simp

lemma spec_accepted_subset: "set (spec_accepted W valid A cs) \<subseteq> {c \<in> set cs. valid c}"
  by (induction W valid A cs rule: spec_accepted.induct) auto

text \<open>
  Reordering that stays inside the window loses nothing: every counter of a run of distinct
  valid counters is accepted when none arrives \<open>W\<close> or more behind an earlier one.
\<close>

fun mildly_reordered :: "nat \<Rightarrow> 'l::len word list \<Rightarrow> bool" where
  "mildly_reordered W [] = True"
| "mildly_reordered W (c # cs) =
     ((\<forall>d\<in>set cs. unat c < unat d + W) \<and> mildly_reordered W cs)"

lemma spec_accepted_all:
  assumes "distinct cs" and "\<forall>c\<in>set cs. valid c" and "mildly_reordered W cs"
    and "\<forall>c\<in>set cs. \<forall>a\<in>A. a \<noteq> unat c \<and> a < unat c + W"
  shows "spec_accepted W valid A cs = cs"
  using assms
proof (induction W valid A cs rule: spec_accepted.induct)
  case (2 W valid A c cs)
  have "\<forall>d\<in>set cs. unat c \<noteq> unat d"
    using 2(3) by (auto dest: unsigned_word_eqI)
  with 2 show ?case by (auto simp: fresh_def)
qed simp

locale replay_guard =
  fixes width :: nat
    and valid :: "'l::len word \<Rightarrow> bool"
    and returns :: "'l word \<Rightarrow> bool"
    and init :: "'s"
    and acc :: "'s \<Rightarrow> 'l word \<Rightarrow> (bool \<times> 's) option"
    and rel :: "nat set \<Rightarrow> 's \<Rightarrow> bool"
  assumes rel_init: "rel {} init"
    and acc_step: "rel A s \<Longrightarrow> returns c \<Longrightarrow>
      \<exists>s'. acc s c = Some (valid c \<and> fresh width A (unat c), s')
         \<and> rel (if valid c \<and> fresh width A (unat c) then insert (unat c) A else A) s'"
begin

lemma accepted_from:
  assumes "rel A s" and "\<forall>c\<in>set cs. returns c"
  shows "accepted acc s cs = Some (spec_accepted width valid A cs)"
  using assms
proof (induction cs arbitrary: A s)
  case Nil
  then show ?case by simp
next
  case (Cons c cs)
  let ?b = "valid c \<and> fresh width A (unat c)"
  obtain s' where s': "acc s c = Some (?b, s')" and rel': "rel (if ?b then insert (unat c) A else A) s'"
    using acc_step [OF Cons.prems(1), of c] Cons.prems(2) by auto
  have "accepted acc s' cs = Some (spec_accepted width valid (if ?b then insert (unat c) A else A) cs)"
    using Cons.IH [OF rel'] Cons.prems(2) by simp
  then show ?case using s' by simp
qed

lemma accepted_spec:
  "\<forall>c\<in>set cs. returns c \<Longrightarrow> accepted acc init cs = Some (spec_accepted width valid {} cs)"
  using accepted_from [OF rel_init] by blast

lemma accepts_once:
  assumes "\<forall>c\<in>set cs. returns c"
  shows "\<exists>ds. accepted acc init cs = Some ds \<and> distinct ds \<and> set ds \<subseteq> {c \<in> set cs. valid c}"
  using accepted_spec [OF assms] spec_accepted_distinct spec_accepted_subset by blast

lemma accepts_reordered:
  assumes "\<forall>c\<in>set cs. returns c \<and> valid c" and "distinct cs" and "mildly_reordered width cs"
  shows "accepted acc init cs = Some cs"
  using accepted_spec [of cs] spec_accepted_all [of cs valid width "{}"] assms by simp

end

section \<open>internal/replay: a bitmap of booleans\<close>

record Window =
  highest :: u64
  seen :: "bool list"

definition Size :: nat where
  "Size = 1024"

definition NewSize :: "int \<Rightarrow> Window" where
  "NewSize n = \<lparr>highest = 0, seen = replicate (nat (if n \<le> 0 then int Size else n)) False\<rparr>"

definition New :: Window where
  "New = NewSize (int Size)"

text \<open>
  The loop that clears the slots the window slides past counts a 64-bit \<open>i\<close> up to \<open>counter\<close>.
  Nothing stops it when \<open>counter\<close> is the largest 64-bit value, since every \<open>i\<close> is then below it
  and \<open>i++\<close> wraps; not returning is \<open>None\<close>.
\<close>

partial_function (option) clear_slots :: "u64 \<Rightarrow> u64 \<Rightarrow> u64 \<Rightarrow> bool list \<Rightarrow> bool list option" where
  "clear_slots i counter n xs =
     (if i \<le> counter then clear_slots (i + 1) counter n (xs[unat (i mod n) := False])
      else Some xs)"

definition Accept :: "Window \<Rightarrow> u64 \<Rightarrow> (bool \<times> Window) option" where
  "Accept w counter =
     (let n = of_nat (length (seen w)) :: u64 in
      if highest w < counter then
        let gap = counter - highest w in
        map_option
          (\<lambda>xs. (True, w\<lparr>highest := counter, seen := xs[unat (counter mod n) := True]\<rparr>))
          (if n \<le> gap then Some (replicate (length (seen w)) False)
           else clear_slots (highest w + 1) counter n (seen w))
      else if n \<le> highest w - counter then Some (False, w)
      else if seen w ! unat (counter mod n) then Some (False, w)
      else Some (True, w\<lparr>seen := (seen w)[unat (counter mod n) := True]\<rparr>))"

partial_function (option) mark_from :: "u64 \<Rightarrow> u64 \<Rightarrow> Window \<Rightarrow> Window option" where
  "mark_from i upTo w =
     (if i \<le> upTo
      then Option.bind (Accept w i) (\<lambda>r. mark_from (i + 1) upTo (snd r))
      else Some w)"

definition MarkSeen :: "Window \<Rightarrow> u64 \<Rightarrow> Window option" where
  "MarkSeen w upTo = mark_from 1 upTo w"


subsection \<open>The clearing loop\<close>

lemma range_step:
  fixes a b :: nat
  assumes "a \<le> b"
  shows "(\<forall>j. a \<le> j \<and> j \<le> b \<longrightarrow> P j) \<longleftrightarrow> P a \<and> (\<forall>j. a + 1 \<le> j \<and> j \<le> b \<longrightarrow> P j)"
proof -
  have "a \<le> j \<longleftrightarrow> j = a \<or> a + 1 \<le> j" for j by linarith
  then show ?thesis using assms by auto
qed

lemma clear_slots_returns:
  assumes "counter < - 1" and "unat i \<le> unat counter + 1"
  shows "\<exists>ys. clear_slots i counter n xs = Some ys \<and> length ys = length xs \<and>
    (\<forall>k<length xs. ys ! k \<longleftrightarrow>
       xs ! k \<and> (\<forall>j. unat i \<le> j \<and> j \<le> unat counter \<longrightarrow> j mod unat n \<noteq> k))"
  using assms
proof (induction "unat counter + 1 - unat i" arbitrary: i xs)
  case 0
  then have "\<not> i \<le> counter"
    by (simp add: word_le_nat_alt)
  with 0 show ?case by (auto simp: clear_slots.simps word_le_nat_alt)
next
  case (Suc m)
  then have le: "i \<le> counter"
    by (simp add: word_le_nat_alt)
  with Suc.prems(1) have "i < - 1"
    by (rule le_less_trans [rotated])
  then have u: "unat (i + 1) = unat i + 1"
    by (rule unat_inc)
  let ?xs = "xs[unat (i mod n) := False]"
  obtain ys where ys: "clear_slots (i + 1) counter n ?xs = Some ys" "length ys = length ?xs"
    and nth: "\<forall>k<length ?xs. ys ! k \<longleftrightarrow>
       ?xs ! k \<and> (\<forall>j. unat (i + 1) \<le> j \<and> j \<le> unat counter \<longrightarrow> j mod unat n \<noteq> k)"
  proof -
    have "m = unat counter + 1 - unat (i + 1)" and "unat (i + 1) \<le> unat counter + 1"
      using Suc.hyps(2) le u by (simp_all add: word_le_nat_alt)
    from Suc.hyps(1) [OF this(1) Suc.prems(1) this(2), of ?xs] show thesis
      using that by blast
  qed
  have eq: "clear_slots i counter n xs = Some ys"
    using le ys(1) by (subst clear_slots.simps) simp
  have "ys ! k \<longleftrightarrow> xs ! k \<and> (\<forall>j. unat i \<le> j \<and> j \<le> unat counter \<longrightarrow> j mod unat n \<noteq> k)"
    if "k < length xs" for k
  proof -
    have "ys ! k \<longleftrightarrow> (k \<noteq> unat i mod unat n \<and> xs ! k) \<and>
        (\<forall>j. unat i + 1 \<le> j \<and> j \<le> unat counter \<longrightarrow> j mod unat n \<noteq> k)"
      using nth that u by (cases "k = unat i mod unat n") (auto simp: unat_mod)
    also have "\<dots> \<longleftrightarrow> xs ! k \<and> (\<forall>j. unat i \<le> j \<and> j \<le> unat counter \<longrightarrow> j mod unat n \<noteq> k)"
      using range_step [of "unat i" "unat counter" "\<lambda>j. j mod unat n \<noteq> k"] le
      by (auto simp: word_le_nat_alt)
    finally show ?thesis .
  qed
  with eq ys(2) show ?case by simp
qed

lemma clear_slots_hangs: "clear_slots i (- 1) n xs = None"
proof (rule ccontr)
  assume "clear_slots i (- 1) n xs \<noteq> None"
  then obtain ys where "clear_slots i (- 1) n xs = Some ys" by blast
  then have "- 1 \<noteq> (- 1 :: u64)"
  proof (rule clear_slots.raw_induct [where P = "\<lambda>i counter n xs ys. counter \<noteq> - 1", rotated])
    fix f and i counter n :: u64 and xs ys
    assume "\<And>i counter n xs ys. f i counter n xs = Some ys \<Longrightarrow> counter \<noteq> - 1"
      and "(if i \<le> counter then f (i + 1) counter n (xs[unat (i mod n) := False]) else Some xs) = Some ys"
    then show "counter \<noteq> (- 1 :: u64)"
      by (auto simp: word_order.extremum split: if_splits)
  qed
  then show False by simp
qed

subsection \<open>The window refines the contract\<close>

definition window_rel :: "nat \<Rightarrow> nat set \<Rightarrow> Window \<Rightarrow> bool" where
  "window_rel n A w \<longleftrightarrow>
     0 < n \<and> n < 2 ^ 64 \<and> length (seen w) = n
     \<and> (\<forall>a\<in>A. a \<le> unat (highest w)) \<and> (unat (highest w) \<in> A \<or> highest w = 0)
     \<and> (\<forall>c. c \<le> unat (highest w) \<and> unat (highest w) < c + n \<longrightarrow> (seen w ! (c mod n) \<longleftrightarrow> c \<in> A))"

lemma mod_eq_close: "a mod n = b mod n \<Longrightarrow> a \<le> b \<Longrightarrow> b < a + n \<Longrightarrow> a = (b :: nat)"
  by (metis add_diff_inverse_nat leD less_diff_conv2 mod_eq_dvd_iff_nat mod_less nat_dvd_not_less not_less_iff_gr_or_eq zero_less_diff add.commute)

lemma window_rel_init: "0 < n \<Longrightarrow> n < 2 ^ 64 \<Longrightarrow> window_rel n {} \<lparr>highest = 0, seen = replicate n False\<rparr>"
  by (simp add: window_rel_def)

lemma fresh_highest:
  assumes "\<forall>a\<in>A. a \<le> H" and "H \<in> A \<or> H = 0" and "0 < W"
  shows "fresh W A c \<longleftrightarrow> c \<notin> A \<and> H < c + W"
  using assms unfolding fresh_def by (metis add_gr_0 le_less_trans)

lemma window_slide:
  assumes rel: "window_rel n A w" and gt: "highest w < counter"
    and len: "length ys = n"
    and nth: "\<And>c. c \<le> unat counter \<Longrightarrow> unat counter < c + n \<Longrightarrow> c \<noteq> unat counter \<Longrightarrow>
      ys ! (c mod n) \<longleftrightarrow> c \<in> A"
  shows "window_rel n (insert (unat counter) A)
    (w\<lparr>highest := counter, seen := ys[unat counter mod n := True]\<rparr>)"
proof -
  have n: "0 < n" using rel by (simp add: window_rel_def)
  have "ys[unat counter mod n := True] ! (c mod n) \<longleftrightarrow> c \<in> insert (unat counter) A"
    if c: "c \<le> unat counter" "unat counter < c + n" for c
  proof (cases "c = unat counter")
    case True
    then show ?thesis using n len by simp
  next
    case False
    then have "c mod n \<noteq> unat counter mod n"
      using mod_eq_close c by blast
    then show ?thesis using nth [OF c False] False by simp
  qed
  moreover have "\<forall>a\<in>A. a \<le> unat counter"
    using rel gt by (fastforce simp: window_rel_def word_less_nat_alt)
  ultimately show ?thesis
    using rel len by (simp add: window_rel_def)
qed

lemma window_mark:
  assumes rel: "window_rel n A w" and c0: "c0 \<le> unat (highest w)" "unat (highest w) - c0 < n"
  shows "window_rel n (insert c0 A) (w\<lparr>seen := (seen w)[c0 mod n := True]\<rparr>)"
proof -
  have n: "0 < n" "length (seen w) = n" using rel by (auto simp: window_rel_def)
  have "(seen w)[c0 mod n := True] ! (c mod n) \<longleftrightarrow> c \<in> insert c0 A"
    if c: "c \<le> unat (highest w)" "unat (highest w) < c + n" for c
  proof (cases "c = c0")
    case True
    then show ?thesis using n by simp
  next
    case False
    have "c mod n \<noteq> c0 mod n"
    proof (cases "c \<le> c0")
      case True
      then show ?thesis using mod_eq_close [of c n c0] False c c0 by auto
    next
      case gt: False
      then have "c0 \<le> c" "c < c0 + n" using c c0 by linarith+
      then show ?thesis using mod_eq_close [of c0 n c] False by auto
    qed
    then show ?thesis using rel c False by (auto simp: window_rel_def)
  qed
  then show ?thesis using rel c0 by (auto simp: window_rel_def)
qed

text \<open>What the two clearing branches leave in the slots the slid window still covers.\<close>

definition cleared :: "Window \<Rightarrow> u64 \<Rightarrow> bool list option" where
  "cleared w counter =
     (if of_nat (length (seen w)) \<le> counter - highest w
      then Some (replicate (length (seen w)) False)
      else clear_slots (highest w + 1) counter (of_nat (length (seen w))) (seen w))"

lemma cleared_slots:
  assumes rel: "window_rel n A w" and ret: "counter < - 1" and slide: "highest w < counter"
  shows "\<exists>ys. cleared w counter = Some ys \<and> length ys = n \<and>
    (\<forall>c. c \<le> unat counter \<longrightarrow> unat counter < c + n \<longrightarrow> c \<noteq> unat counter \<longrightarrow> (ys ! (c mod n) \<longleftrightarrow> c \<in> A))"
proof -
  let ?h = "unat (highest w)"
  have n: "0 < n" "length (seen w) = n" and un: "unat (of_nat n :: u64) = n"
    and low: "\<forall>a\<in>A. a \<le> ?h"
    and slot: "\<And>c. c \<le> ?h \<Longrightarrow> ?h < c + n \<Longrightarrow> (seen w ! (c mod n) \<longleftrightarrow> c \<in> A)"
    using rel by (auto simp: window_rel_def unat_of_nat)
  have lt: "?h < unat counter" using slide by (simp add: word_less_nat_alt)
  have gap: "unat (counter - highest w) = unat counter - ?h"
    using slide by (simp add: unat_sub order_less_imp_le)
  show ?thesis
  proof (cases "of_nat n \<le> counter - highest w")
    case True
    then have far: "n \<le> unat counter - ?h" by (simp add: word_le_nat_alt un gap)
    have "\<not> c \<le> ?h" if "unat counter < c + n" for c
      using that far lt by linarith
    then show ?thesis using True low n by (fastforce simp: cleared_def)
  next
    case False
    have h1: "unat (highest w + 1) = ?h + 1"
      using slide ret by (intro unat_inc) (rule less_trans)
    have "unat (highest w + 1) \<le> unat counter + 1" using lt h1 by simp
    from clear_slots_returns [OF ret this, of "of_nat n" "seen w", unfolded h1 un n(2)]
    obtain ys where ys: "clear_slots (highest w + 1) counter (of_nat n) (seen w) = Some ys" "length ys = n"
      and nth: "\<And>k. k < n \<Longrightarrow> ys ! k \<longleftrightarrow> seen w ! k \<and>
        (\<forall>j. ?h + 1 \<le> j \<and> j \<le> unat counter \<longrightarrow> j mod n \<noteq> k)" by blast
    have "ys ! (c mod n) \<longleftrightarrow> c \<in> A" if c: "c \<le> unat counter" "unat counter < c + n" for c
    proof (cases "c \<le> ?h")
      case True
      have "j mod n \<noteq> c mod n" if "?h + 1 \<le> j \<and> j \<le> unat counter" for j
        using mod_eq_close [of c n j] that True c by auto
      then show ?thesis
        using nth [of "c mod n"] slot [OF True] c n(1) lt by simp
    next
      case False
      then have "c \<notin> A" using low by auto
      moreover have "\<not> ys ! (c mod n)"
        using nth [of "c mod n"] False c n(1) by (metis Suc_eq_plus1 mod_less_divisor not_less_eq_eq)
      ultimately show ?thesis by simp
    qed
    with False ys n(2) show ?thesis by (auto simp: cleared_def)
  qed
qed

lemma Accept_cases:
  assumes "window_rel n A w"
  shows "Accept w counter =
    (if highest w < counter
     then map_option (\<lambda>xs. (True, w\<lparr>highest := counter, seen := xs[unat counter mod n := True]\<rparr>)) (cleared w counter)
     else if unat counter \<in> A \<or> n \<le> unat (highest w) - unat counter then Some (False, w)
     else Some (True, w\<lparr>seen := (seen w)[unat counter mod n := True]\<rparr>))"
proof -
  have len: "length (seen w) = n" and un: "unat (of_nat n :: u64) = n"
    using assms by (simp_all add: window_rel_def unat_of_nat)
  have slot: "seen w ! (unat counter mod n) \<longleftrightarrow> unat counter \<in> A"
    if "\<not> highest w < counter" "\<not> n \<le> unat (highest w) - unat counter"
    using that assms by (auto simp: window_rel_def word_less_nat_alt)
  have "of_nat n \<le> highest w - counter \<longleftrightarrow> n \<le> unat (highest w) - unat counter"
    if "\<not> highest w < counter"
    using that by (simp add: word_le_nat_alt unat_sub un not_less)
  then show ?thesis
    using slot by (simp add: Accept_def Let_def cleared_def len unat_mod un)
qed

lemma Accept_step:
  assumes rel: "window_rel n A w" and ret: "counter < - 1"
  shows "\<exists>w'. Accept w counter = Some (fresh n A (unat counter), w')
    \<and> window_rel n (if fresh n A (unat counter) then insert (unat counter) A else A) w'"
proof -
  let ?h = "unat (highest w)"
  have low: "\<forall>a\<in>A. a \<le> ?h" and n: "0 < n" "length (seen w) = n"
    using rel by (auto simp: window_rel_def)
  have fr: "fresh n A c \<longleftrightarrow> c \<notin> A \<and> ?h < c + n" for c
    using rel by (intro fresh_highest) (auto simp: window_rel_def)
  consider (slide) "highest w < counter"
    | (seen) "\<not> highest w < counter" "unat counter \<in> A \<or> n \<le> ?h - unat counter"
    | (inside) "\<not> highest w < counter" "unat counter \<notin> A" "?h - unat counter < n"
    by linarith
  then show ?thesis
  proof cases
    case slide
    obtain ys where ys: "cleared w counter = Some ys" "length ys = n" and nth: "\<And>c. c \<le> unat counter \<Longrightarrow>
        unat counter < c + n \<Longrightarrow> c \<noteq> unat counter \<Longrightarrow> (ys ! (c mod n) \<longleftrightarrow> c \<in> A)"
      using cleared_slots [OF rel ret slide] by blast
    have "fresh n A (unat counter)"
      using slide low fr by (fastforce simp: word_less_nat_alt)
    then show ?thesis
      using Accept_cases [OF rel] slide ys(1) window_slide [OF rel slide ys(2) nth] by simp
  next
    case seen
    then have "\<not> fresh n A (unat counter)"
      using fr [of "unat counter"] by (auto simp: not_less word_le_nat_alt)
    then show ?thesis using Accept_cases [OF rel] seen rel by simp
  next
    case inside
    then have "fresh n A (unat counter)" using fr by auto
    moreover have "window_rel n (insert (unat counter) A) (w\<lparr>seen := (seen w)[unat counter mod n := True]\<rparr>)"
      using window_mark [OF rel] inside by (simp add: word_less_nat_alt)
    ultimately show ?thesis using Accept_cases [OF rel] inside by simp
  qed
qed

lemma window_guard:
  assumes "0 < n" and "n < 2 ^ 63"
  shows "replay_guard (nat n) (\<lambda>_. True) (\<lambda>c. c \<noteq> - 1) (NewSize n) Accept (window_rel (nat n))"
proof
  show "window_rel (nat n) {} (NewSize n)"
    using assms by (auto simp: NewSize_def intro!: window_rel_init)
next
  fix A s and c :: u64
  assume "window_rel (nat n) A s" and "c \<noteq> - 1"
  then show "\<exists>s'. Accept s c = Some (True \<and> fresh (nat n) A (unat c), s')
      \<and> window_rel (nat n) (if True \<and> fresh (nat n) A (unat c) then insert (unat c) A else A) s'"
    using Accept_step [of "nat n" A s c] by (simp add: word_order.not_eq_extremum)
qed

interpretation window: replay_guard Size "\<lambda>_. True" "\<lambda>c. c \<noteq> - 1" New Accept "window_rel Size"
  using window_guard [of "int Size"] by (simp add: New_def Size_def)

lemma mark_from_rel:
  assumes "upTo < - 1" and "unat i \<le> unat upTo + 1" and "0 < unat i" and "window_rel n {1..<unat i} w"
  shows "\<exists>w'. mark_from i upTo w = Some w' \<and> window_rel n {1..unat upTo} w'"
  using assms
proof (induction "unat upTo + 1 - unat i" arbitrary: i w)
  case 0
  then have "\<not> i \<le> upTo" and "unat i = unat upTo + 1" by (simp_all add: word_le_nat_alt)
  with 0 show ?case by (simp add: mark_from.simps atLeastLessThanSuc_atLeastAtMost)
next
  case (Suc m)
  then have le: "i \<le> upTo" by (simp add: word_le_nat_alt)
  then have ret: "i < - 1" using Suc.prems(1) by (rule le_less_trans)
  have u: "unat (i + 1) = unat i + 1" using ret by (rule unat_inc)
  have "n > 0" using Suc.prems(4) by (simp add: window_rel_def)
  then have "fresh n {1..<unat i} (unat i)" by (auto simp: fresh_def)
  then obtain w' where w': "Accept w i = Some (True, w')" and r: "window_rel n (insert (unat i) {1..<unat i}) w'"
    using Accept_step [OF Suc.prems(4) ret] by auto
  have "insert (unat i) {1..<unat i} = {1..<unat (i + 1)}" using Suc.prems(3) u by auto
  with r have r': "window_rel n {1..<unat (i + 1)} w'" by simp
  have "m = unat upTo + 1 - unat (i + 1)" and "unat (i + 1) \<le> unat upTo + 1"
    using Suc.hyps(2) le u by (simp_all add: word_le_nat_alt)
  from Suc.hyps(1) [OF this(1) Suc.prems(1) this(2) _ r'] u show ?case
    using le w' by (subst mark_from.simps) simp
qed

lemma MarkSeen_rel:
  assumes "upTo < - 1"
  shows "\<exists>w. MarkSeen New upTo = Some w \<and> window_rel Size {1..unat upTo} w"
  using mark_from_rel [OF assms, of 1 Size New] window.rel_init by (simp add: MarkSeen_def)

section \<open>64-packet bitmaps\<close>

text \<open>Bit \<open>i\<close> of the bitmap stands for the counter \<open>i\<close> below the highest accepted one.\<close>

definition bitmap_rel :: "nat \<Rightarrow> u64 \<Rightarrow> nat set \<Rightarrow> bool" where
  "bitmap_rel H m A \<longleftrightarrow> (\<forall>i<64. bit m i \<longleftrightarrow> i \<le> H \<and> H - i \<in> A)"

lemma bitmap_slide:
  assumes rel: "bitmap_rel H m A" and low: "\<forall>a\<in>A. a \<le> H" and gt: "H < c"
  shows "bitmap_rel c ((if 64 \<le> c - H then 0 else push_bit (c - H) m) OR 1) (insert c A)"
  unfolding bitmap_rel_def
proof (intro allI impI)
  fix i :: nat assume i: "i < 64"
  have old: "bit m j \<longleftrightarrow> j \<le> H \<and> H - j \<in> A" if "j < 64" for j
    using rel that by (simp add: bitmap_rel_def)
  show "bit ((if 64 \<le> c - H then 0 else push_bit (c - H) m) OR 1) i \<longleftrightarrow> i \<le> c \<and> c - i \<in> insert c A"
  proof (cases "i < c - H \<or> i = 0")
    case True
    then have "c - i \<in> A \<longrightarrow> i = 0 \<or> c < i" using low gt by auto
    with True i gt show ?thesis by (auto simp: bit_or_iff bit_push_bit_iff bit_1_iff)
  next
    case False
    then obtain j k where jk: "i = j + k" "c = H + k" "0 < k"
      using gt by (metis add_diff_inverse_nat le_add_diff_inverse2 less_imp_le_nat not_less zero_less_diff)
    then have "bit ((if 64 \<le> c - H then 0 else push_bit (c - H) m) OR 1) i \<longleftrightarrow> bit m j"
      using i by (simp add: bit_or_iff bit_push_bit_iff bit_1_iff)
    with jk i old [of j] show ?thesis by auto
  qed
qed

lemma bitmap_mark:
  assumes "bitmap_rel H m A" and "k < 64" and "k \<le> H"
  shows "bitmap_rel H (m OR 2 ^ k) (insert (H - k) A)"
  using assms by (auto simp: bitmap_rel_def bit_or_iff bit_exp_iff)

lemma bitmap_test: "k < 64 \<Longrightarrow> (m :: u64) AND 2 ^ k = 0 \<longleftrightarrow> \<not> bit m k"
  by (simp add: and_exp_eq_0_iff_not_bit)

lemma bitmap_first: "bitmap_rel H 1 {H}"
  by (auto simp: bitmap_rel_def bit_1_iff)

lemma bitmap_empty: "bitmap_rel H 0 {}"
  by (simp add: bitmap_rel_def)

subsection \<open>ESP (internal/ikev2/esp)\<close>

record esp_window =
  esp_top :: u32
  esp_mask :: u64

definition esp_window0 :: esp_window where
  "esp_window0 = \<lparr>esp_top = 0, esp_mask = 0\<rparr>"

text \<open>\<open>check\<close> is true for a replay.\<close>

definition esp_check :: "esp_window \<Rightarrow> u32 \<Rightarrow> bool" where
  "esp_check w seq =
     (if seq = 0 then True
      else if esp_top w < seq then False
      else let diff = esp_top w - seq in
        if 64 \<le> diff then True else esp_mask w AND push_bit (unat diff) 1 \<noteq> 0)"

definition esp_advance :: "esp_window \<Rightarrow> u32 \<Rightarrow> esp_window" where
  "esp_advance w seq =
     (if esp_top w < seq then
        let shift = seq - esp_top w;
            m = (if 64 \<le> shift then 0 else push_bit (unat shift) (esp_mask w))
        in w\<lparr>esp_mask := m OR 1, esp_top := seq\<rparr>
      else let diff = esp_top w - seq in
        if diff < 64 then w\<lparr>esp_mask := esp_mask w OR push_bit (unat diff) 1\<rparr> else w)"

text \<open>The two halves as \<open>SA.Decapsulate\<close> runs them once a packet has authenticated.\<close>

definition esp_accept :: "esp_window \<Rightarrow> u32 \<Rightarrow> bool \<times> esp_window" where
  "esp_accept w seq = (if esp_check w seq then (False, w) else (True, esp_advance w seq))"

definition esp_rel :: "nat set \<Rightarrow> esp_window \<Rightarrow> bool" where
  "esp_rel A w \<longleftrightarrow> (\<forall>a\<in>A. 0 < a \<and> a \<le> unat (esp_top w)) \<and> (unat (esp_top w) \<in> A \<or> esp_top w = 0)
     \<and> bitmap_rel (unat (esp_top w)) (esp_mask w) A"

lemma esp_check_iff:
  assumes "esp_rel A w"
  shows "esp_check w seq \<longleftrightarrow> \<not> (seq \<noteq> 0 \<and> fresh 64 A (unat seq))"
proof -
  have fr: "fresh 64 A (unat seq) \<longleftrightarrow> unat seq \<notin> A \<and> unat (esp_top w) < unat seq + 64"
    using assms by (intro fresh_highest) (auto simp: esp_rel_def)
  consider "seq = 0" | "seq \<noteq> 0" "esp_top w < seq" | "seq \<noteq> 0" "seq \<le> esp_top w" by fastforce
  then show ?thesis
  proof cases
    case 3
    then have d: "unat (esp_top w - seq) = unat (esp_top w) - unat seq" "unat seq \<le> unat (esp_top w)"
      by (simp_all add: unat_sub word_le_nat_alt)
    have "bit (esp_mask w) (unat (esp_top w) - unat seq) \<longleftrightarrow> unat seq \<in> A" if "unat (esp_top w) - unat seq < 64"
      using assms d(2) that by (auto simp: esp_rel_def bitmap_rel_def)
    moreover have "64 \<le> esp_top w - seq \<longleftrightarrow> 64 \<le> unat (esp_top w) - unat seq"
      by (simp add: word_le_nat_alt d)
    moreover have "\<not> esp_top w < seq" using 3 by (simp add: not_less)
    ultimately show ?thesis
      using 3(1) d fr bitmap_test [of "unat (esp_top w) - unat seq" "esp_mask w"]
      by (cases "64 \<le> unat (esp_top w) - unat seq") (auto simp: esp_check_def Let_def)
  qed (use assms fr in \<open>auto simp: esp_check_def esp_rel_def word_less_nat_alt\<close>)
qed

lemma esp_advance_rel:
  assumes rel: "esp_rel A w" and new: "seq \<noteq> 0" "fresh 64 A (unat seq)"
  shows "esp_rel (insert (unat seq) A) (esp_advance w seq)"
proof (cases "esp_top w < seq")
  case True
  then have s: "unat (seq - esp_top w) = unat seq - unat (esp_top w)" "unat (esp_top w) < unat seq"
    by (simp_all add: unat_sub word_less_nat_alt order_less_imp_le)
  have "bitmap_rel (unat seq) ((if 64 \<le> unat seq - unat (esp_top w) then 0
      else push_bit (unat seq - unat (esp_top w)) (esp_mask w)) OR 1) (insert (unat seq) A)"
    using rel s(2) by (intro bitmap_slide) (auto simp: esp_rel_def)
  moreover have "\<forall>a\<in>insert (unat seq) A. 0 < a \<and> a \<le> unat seq"
    using rel s(2) new(1) by (fastforce simp: esp_rel_def word_neq_0_conv word_less_nat_alt)
  ultimately show ?thesis
    using True s(1)
    by (cases "64 \<le> unat seq - unat (esp_top w)")
       (simp_all add: esp_rel_def esp_advance_def Let_def word_le_nat_alt)
next
  case False
  then have d: "unat (esp_top w - seq) = unat (esp_top w) - unat seq" "unat seq \<le> unat (esp_top w)"
    by (simp_all add: unat_sub word_le_nat_alt not_less)
  have near: "unat (esp_top w) - unat seq < 64"
    using fresh_highest [of A "unat (esp_top w)" 64 "unat seq"] rel new d by (auto simp: esp_rel_def)
  have "bitmap_rel (unat (esp_top w)) (esp_mask w OR 2 ^ (unat (esp_top w) - unat seq)) (insert (unat seq) A)"
    using bitmap_mark [of "unat (esp_top w)" "esp_mask w" A "unat (esp_top w) - unat seq"] rel near d by (simp add: esp_rel_def)
  moreover have "0 < unat seq" using new(1) by (simp add: word_neq_0_conv word_less_nat_alt)
  ultimately show ?thesis
    using rel False d near by (auto simp: esp_rel_def esp_advance_def Let_def word_less_nat_alt)
qed

interpretation esp: replay_guard 64 "\<lambda>c. c \<noteq> 0" "\<lambda>_. True" esp_window0 "\<lambda>w c. Some (esp_accept w c)" esp_rel
proof
  show "esp_rel {} esp_window0"
    by (simp add: esp_rel_def esp_window0_def bitmap_empty)
qed (use esp_check_iff esp_advance_rel in \<open>auto simp: esp_accept_def\<close>)

subsection \<open>OpenVPN and DTLS\<close>

text \<open>
  The OpenVPN data channel, its control wrapping and DTLS keep the highest counter, a bitmap
  and a flag that a first counter was seen.  They differ in the counter's width and in
  whether zero is refused; \<open>bitmap_accept\<close> is the step they share, on natural numbers.
\<close>

definition bitmap_accept :: "nat \<times> u64 \<times> bool \<Rightarrow> nat \<Rightarrow> bool \<times> nat \<times> u64 \<times> bool" where
  "bitmap_accept = (\<lambda>(H, m, st) c.
     if \<not> st then (True, c, 1, True)
     else if H < c then (True, c, (if 64 \<le> c - H then 0 else push_bit (c - H) m) OR 1, True)
     else if 64 \<le> H - c then (False, H, m, st)
     else if bit m (H - c) then (False, H, m, st)
     else (True, H, m OR 2 ^ (H - c), True))"

definition started_rel :: "nat set \<Rightarrow> nat \<times> u64 \<times> bool \<Rightarrow> bool" where
  "started_rel A = (\<lambda>(H, m, st).
     if st then H \<in> A \<and> (\<forall>a\<in>A. a \<le> H) \<and> bitmap_rel H m A else A = {})"

lemma bitmap_accept_step:
  assumes rel: "started_rel A (H, m, st)"
  shows "fst (bitmap_accept (H, m, st) c) = fresh 64 A c
    \<and> started_rel (if fresh 64 A c then insert c A else A) (snd (bitmap_accept (H, m, st) c))"
proof (cases st)
  case False
  then have A: "A = {}" using rel by (simp add: started_rel_def)
  then have "fresh 64 A c" by (simp add: fresh_def)
  then show ?thesis
    using False A by (simp add: bitmap_accept_def started_rel_def bitmap_first)
next
  case True
  then have A: "H \<in> A" "\<forall>a\<in>A. a \<le> H" "bitmap_rel H m A" using rel by (auto simp: started_rel_def)
  then have fr: "fresh 64 A c \<longleftrightarrow> c \<notin> A \<and> H < c + 64" by (intro fresh_highest) auto
  consider "H < c" | "c \<le> H" "64 \<le> H - c" | "c \<le> H" "H - c < 64" by linarith
  then show ?thesis
  proof cases
    case 1
    then have "fresh 64 A c" using fr A(2) by auto
    moreover have "\<forall>a\<in>insert c A. a \<le> c" using 1 A(2) by auto
    ultimately show ?thesis
      using bitmap_slide [OF A(3,2) 1] 1 True by (simp add: bitmap_accept_def started_rel_def)
  next
    case 2
    then have "\<not> fresh 64 A c" using fr by linarith
    with 2 show ?thesis using True rel by (simp add: bitmap_accept_def)
  next
    case 3
    have "bit m (H - c) \<longleftrightarrow> c \<in> A" using A(3) 3 by (simp add: bitmap_rel_def)
    moreover have "bitmap_rel H (m OR 2 ^ (H - c)) (insert c A)"
      using bitmap_mark [OF A(3), of "H - c"] 3 by simp
    ultimately show ?thesis using 3 fr True A by (auto simp: bitmap_accept_def started_rel_def)
  qed
qed

record ovpn_window =
  ov_highest :: u32
  ov_bitmap :: u64
  ov_started :: bool

definition ovpn_window0 :: ovpn_window where
  "ovpn_window0 = \<lparr>ov_highest = 0, ov_bitmap = 0, ov_started = False\<rparr>"

definition ovpn_accept :: "ovpn_window \<Rightarrow> u32 \<Rightarrow> bool \<times> ovpn_window" where
  "ovpn_accept w pid =
     (if pid = 0 then (False, w)
      else if \<not> ov_started w then (True, w\<lparr>ov_started := True, ov_highest := pid, ov_bitmap := 1\<rparr>)
      else if ov_highest w < pid then
        let shift = pid - ov_highest w;
            b = (if 64 \<le> shift then 0 else push_bit (unat shift) (ov_bitmap w))
        in (True, w\<lparr>ov_bitmap := b OR 1, ov_highest := pid\<rparr>)
      else let offset = ov_highest w - pid in
        if 64 \<le> offset then (False, w)
        else let mask = push_bit (unat offset) 1 in
          if ov_bitmap w AND mask \<noteq> 0 then (False, w)
          else (True, w\<lparr>ov_bitmap := ov_bitmap w OR mask\<rparr>))"

definition tlswrap_accept :: "ovpn_window \<Rightarrow> u32 \<Rightarrow> bool \<times> ovpn_window" where
  "tlswrap_accept w pid =
     (if \<not> ov_started w then (True, w\<lparr>ov_started := True, ov_highest := pid, ov_bitmap := 1\<rparr>)
      else if ov_highest w < pid then
        let shift = pid - ov_highest w;
            b = (if 64 \<le> shift then 0 else push_bit (unat shift) (ov_bitmap w))
        in (True, w\<lparr>ov_bitmap := b OR 1, ov_highest := pid\<rparr>)
      else let offset = ov_highest w - pid in
        if 64 \<le> offset then (False, w)
        else let mask = push_bit (unat offset) 1 in
          if ov_bitmap w AND mask \<noteq> 0 then (False, w)
          else (True, w\<lparr>ov_bitmap := ov_bitmap w OR mask\<rparr>))"

record dtls_window =
  dt_highest :: u64
  dt_bitmap :: u64
  dt_started :: bool

definition dtls_window0 :: dtls_window where
  "dtls_window0 = \<lparr>dt_highest = 0, dt_bitmap = 0, dt_started = False\<rparr>"

text \<open>\<open>check\<close> returns an error for a replay; the model returns whether it returned nil.\<close>

definition dtls_check :: "dtls_window \<Rightarrow> u64 \<Rightarrow> bool \<times> dtls_window" where
  "dtls_check w seq =
     (if \<not> dt_started w then (True, w\<lparr>dt_started := True, dt_highest := seq, dt_bitmap := 1\<rparr>)
      else if dt_highest w < seq then
        let shift = seq - dt_highest w;
            b = (if 64 \<le> shift then 1 else push_bit (unat shift) (dt_bitmap w) OR 1)
        in (True, w\<lparr>dt_bitmap := b, dt_highest := seq\<rparr>)
      else let back = dt_highest w - seq in
        if 64 \<le> back then (False, w)
        else let mask = push_bit (unat back) 1 in
          if dt_bitmap w AND mask \<noteq> 0 then (False, w)
          else (True, w\<lparr>dt_bitmap := dt_bitmap w OR mask\<rparr>))"

definition ovpn_abs :: "ovpn_window \<Rightarrow> nat \<times> u64 \<times> bool" where
  "ovpn_abs w = (unat (ov_highest w), ov_bitmap w, ov_started w)"

definition dtls_abs :: "dtls_window \<Rightarrow> nat \<times> u64 \<times> bool" where
  "dtls_abs w = (unat (dt_highest w), dt_bitmap w, dt_started w)"

lemma tlswrap_accept_abs:
  "bitmap_accept (ovpn_abs w) (unat pid) = (fst (tlswrap_accept w pid), ovpn_abs (snd (tlswrap_accept w pid)))"
proof (cases "ov_highest w < pid")
  case True
  then have "unat (pid - ov_highest w) = unat pid - unat (ov_highest w)"
    by (simp add: unat_sub order_less_imp_le)
  with True show ?thesis
    by (auto simp: bitmap_accept_def ovpn_abs_def tlswrap_accept_def Let_def word_less_nat_alt word_le_nat_alt)
next
  case False
  then have d: "unat (ov_highest w - pid) = unat (ov_highest w) - unat pid"
    by (simp add: unat_sub not_less)
  have "64 \<le> ov_highest w - pid \<longleftrightarrow> 64 \<le> unat (ov_highest w) - unat pid"
    by (simp add: word_le_nat_alt d)
  then show ?thesis
    using False d bitmap_test [of "unat (ov_highest w) - unat pid" "ov_bitmap w"]
    by (auto simp: bitmap_accept_def ovpn_abs_def tlswrap_accept_def Let_def word_less_nat_alt)
qed

lemma dtls_check_abs:
  "bitmap_accept (dtls_abs w) (unat seq) = (fst (dtls_check w seq), dtls_abs (snd (dtls_check w seq)))"
proof (cases "dt_highest w < seq")
  case True
  then have "unat (seq - dt_highest w) = unat seq - unat (dt_highest w)"
    by (simp add: unat_sub order_less_imp_le)
  with True show ?thesis
    by (auto simp: bitmap_accept_def dtls_abs_def dtls_check_def Let_def word_less_nat_alt word_le_nat_alt)
next
  case False
  then have d: "unat (dt_highest w - seq) = unat (dt_highest w) - unat seq"
    by (simp add: unat_sub not_less)
  have "64 \<le> dt_highest w - seq \<longleftrightarrow> 64 \<le> unat (dt_highest w) - unat seq"
    by (simp add: word_le_nat_alt d)
  then show ?thesis
    using False d bitmap_test [of "unat (dt_highest w) - unat seq" "dt_bitmap w"]
    by (auto simp: bitmap_accept_def dtls_abs_def dtls_check_def Let_def word_less_nat_alt)
qed

lemma ovpn_accept_tlswrap: "ovpn_accept w pid = (if pid = 0 then (False, w) else tlswrap_accept w pid)"
  by (simp add: ovpn_accept_def tlswrap_accept_def)

lemma tlswrap_step:
  assumes "started_rel A (ovpn_abs w)"
  shows "fst (tlswrap_accept w pid) = fresh 64 A (unat pid)
    \<and> started_rel (if fresh 64 A (unat pid) then insert (unat pid) A else A) (ovpn_abs (snd (tlswrap_accept w pid)))"
  using bitmap_accept_step [of A "unat (ov_highest w)" "ov_bitmap w" "ov_started w" "unat pid"] assms
    tlswrap_accept_abs [of w pid] by (simp add: ovpn_abs_def [of w])

interpretation ovpn: replay_guard 64 "\<lambda>c. c \<noteq> 0" "\<lambda>_. True" ovpn_window0
  "\<lambda>w c. Some (ovpn_accept w c)" "\<lambda>A w. started_rel A (ovpn_abs w)"
proof
  show "started_rel {} (ovpn_abs ovpn_window0)"
    by (simp add: started_rel_def ovpn_abs_def ovpn_window0_def)
next
  fix A w and c :: u32
  assume "started_rel A (ovpn_abs w)"
  then show "\<exists>s'. Some (ovpn_accept w c) = Some (c \<noteq> 0 \<and> fresh 64 A (unat c), s')
      \<and> started_rel (if c \<noteq> 0 \<and> fresh 64 A (unat c) then insert (unat c) A else A) (ovpn_abs s')"
    using tlswrap_step [of A w c] by (cases "tlswrap_accept w c") (auto simp: ovpn_accept_tlswrap)
qed

interpretation tlswrap: replay_guard 64 "\<lambda>_. True" "\<lambda>_. True" ovpn_window0
  "\<lambda>w c. Some (tlswrap_accept w c)" "\<lambda>A w. started_rel A (ovpn_abs w)"
proof
  show "started_rel {} (ovpn_abs ovpn_window0)"
    by (simp add: started_rel_def ovpn_abs_def ovpn_window0_def)
next
  fix A w and c :: u32
  assume "started_rel A (ovpn_abs w)"
  then show "\<exists>s'. Some (tlswrap_accept w c) = Some (True \<and> fresh 64 A (unat c), s')
      \<and> started_rel (if True \<and> fresh 64 A (unat c) then insert (unat c) A else A) (ovpn_abs s')"
    using tlswrap_step [of A w c] by (cases "tlswrap_accept w c") auto
qed

interpretation dtls: replay_guard 64 "\<lambda>_. True" "\<lambda>_. True" dtls_window0
  "\<lambda>w c. Some (dtls_check w c)" "\<lambda>A w. started_rel A (dtls_abs w)"
proof
  show "started_rel {} (dtls_abs dtls_window0)"
    by (simp add: started_rel_def dtls_abs_def dtls_window0_def)
next
  fix A w and c :: u64
  assume "started_rel A (dtls_abs w)"
  then show "\<exists>s'. Some (dtls_check w c) = Some (True \<and> fresh 64 A (unat c), s')
      \<and> started_rel (if True \<and> fresh 64 A (unat c) then insert (unat c) A else A) (dtls_abs s')"
    using bitmap_accept_step [of A "unat (dt_highest w)" "dt_bitmap w" "dt_started w" "unat c"]
      dtls_check_abs [of w c] by (cases "dtls_check w c") (auto simp: dtls_abs_def [of w])
qed

section \<open>WireGuard: a ring of 64-bit blocks (internal/wireguard/transport)\<close>

definition replayRingBlocks :: nat where
  "replayRingBlocks = 128"

definition replayWindowSize :: nat where
  "replayWindowSize = (replayRingBlocks - 1) * 64"

record replayFilter =
  wg_last :: u64
  ring :: "u64 list"

definition replayFilter0 :: replayFilter where
  "replayFilter0 = \<lparr>wg_last = 0, ring = replicate replayRingBlocks 0\<rparr>"

text \<open>
  The loop from \<open>current + 1\<close> to \<open>current + diff\<close>, by the blocks left to clear.  Block numbers
  are below \<open>2 ^ 58\<close>, so the 64-bit loop variable does not wrap.
\<close>

primrec clear_blocks :: "nat \<Rightarrow> u64 \<Rightarrow> u64 list \<Rightarrow> u64 list" where
  "clear_blocks 0 i r = r"
| "clear_blocks (Suc k) i r = clear_blocks k (i + 1) (r[unat (i AND 127) := 0])"

definition validate :: "replayFilter \<Rightarrow> u64 \<Rightarrow> bool \<times> replayFilter" where
  "validate f counter =
     (let indexBlock = drop_bit 6 counter in
      if wg_last f < counter \<or> wg_last f - counter \<le> of_nat replayWindowSize then
        let f' = (if wg_last f < counter then
                    let current = drop_bit 6 (wg_last f);
                        diff = min (indexBlock - current) (of_nat replayRingBlocks)
                    in f\<lparr>ring := clear_blocks (unat diff) (current + 1) (ring f), wg_last := counter\<rparr>
                  else f);
            ib = unat (indexBlock AND 127);
            b = push_bit (unat (counter AND 63)) 1;
            old = ring f' ! ib
        in (old AND b = 0, f'\<lparr>ring := (ring f')[ib := old OR b]\<rparr>)
      else (False, f))"

definition ring_bit :: "u64 list \<Rightarrow> nat \<Rightarrow> bool" where
  "ring_bit r c = bit (r ! (c div 64 mod 128)) (c mod 64)"

definition ring_holds :: "nat \<Rightarrow> nat set \<Rightarrow> u64 list \<Rightarrow> bool" where
  "ring_holds B A r \<longleftrightarrow>
     (\<forall>c. c div 64 \<le> B \<and> B < c div 64 + 128 \<longrightarrow> (ring_bit r c \<longleftrightarrow> c \<in> A))"

text \<open>The ring stands for the 128 blocks up to the one that holds the highest counter.\<close>

definition ring_rel :: "nat set \<Rightarrow> replayFilter \<Rightarrow> bool" where
  "ring_rel A f \<longleftrightarrow> length (ring f) = 128
     \<and> (\<forall>a\<in>A. a \<le> unat (wg_last f)) \<and> (unat (wg_last f) \<in> A \<or> wg_last f = 0)
     \<and> ring_holds (unat (wg_last f) div 64) A (ring f)"

lemma ring_rel_init: "ring_rel {} replayFilter0"
  by (auto simp: ring_rel_def ring_holds_def replayFilter0_def replayRingBlocks_def ring_bit_def)

lemma length_clear_blocks [simp]: "length (clear_blocks k i r) = length r"
  by (induction k arbitrary: i r) auto

lemma unat_and_127: "unat (x AND 127 :: u64) = unat x mod 128"
proof -
  have "x AND 127 = take_bit 7 x" by (simp add: take_bit_eq_mask mask_eq_exp_minus_1)
  then show ?thesis by (simp add: take_bit_eq_mod unat_mod)
qed

lemma unat_and_63: "unat (x AND 63 :: u64) = unat x mod 64"
proof -
  have "x AND 63 = take_bit 6 x" by (simp add: take_bit_eq_mask mask_eq_exp_minus_1)
  then show ?thesis by (simp add: take_bit_eq_mod unat_mod)
qed

lemma unat_block: "unat (drop_bit 6 x :: u64) = unat x div 64"
  by (simp add: drop_bit_eq_div unat_div)

lemma nth_clear_blocks:
  assumes "unat i + k < 2 ^ 64" and "s < length r" and "length r = 128"
  shows "clear_blocks k i r ! s =
    (if \<exists>j. unat i \<le> j \<and> j < unat i + k \<and> j mod 128 = s then 0 else r ! s)"
  using assms
proof (induction k arbitrary: i r)
  case 0
  then show ?case by auto
next
  case (Suc k)
  have i1: "unat (i + 1) = unat i + 1"
    using Suc.prems(1) by (simp add: unat_word_ariths)
  have "(\<exists>j. unat i \<le> j \<and> j < unat i + Suc k \<and> j mod 128 = s) \<longleftrightarrow>
    unat i mod 128 = s \<or> (\<exists>j. unat i + 1 \<le> j \<and> j < unat i + 1 + k \<and> j mod 128 = s)"
    using range_step [of "unat i" "unat i + k" "\<lambda>j. j mod 128 \<noteq> s"] by (auto simp: less_Suc_eq_le)
  then show ?case
    using Suc.IH [of "i + 1" "r[unat (i AND 127) := 0]"] Suc.prems i1
    by (auto simp: unat_and_127 nth_list_update)
qed

lemma ring_mark:
  assumes r: "ring_holds B A r" "length r = 128" and c: "c div 64 \<le> B" "B < c div 64 + 128"
  shows "ring_holds B (insert c A) (r[c div 64 mod 128 := r ! (c div 64 mod 128) OR 2 ^ (c mod 64)])"
  unfolding ring_holds_def
proof (intro allI impI)
  fix d :: nat
  let ?r = "r[c div 64 mod 128 := r ! (c div 64 mod 128) OR 2 ^ (c mod 64)]"
  assume d: "d div 64 \<le> B \<and> B < d div 64 + 128"
  have old: "ring_bit r d \<longleftrightarrow> d \<in> A" using r(1) d by (simp add: ring_holds_def)
  show "ring_bit ?r d \<longleftrightarrow> d \<in> insert c A"
  proof (cases "c div 64 = d div 64")
    case True
    then have "d = c \<longleftrightarrow> d mod 64 = c mod 64"
      by (metis div_mult_mod_eq)
    with True old r(2) show ?thesis
      by (auto simp: ring_bit_def bit_or_iff bit_exp_iff)
  next
    case False
    then have "c div 64 mod 128 \<noteq> d div 64 mod 128"
      using mod_eq_close [of "c div 64" 128 "d div 64"] mod_eq_close [of "d div 64" 128 "c div 64"] c d
      by linarith
    with False old show ?thesis by (auto simp: ring_bit_def)
  qed
qed

lemma residue_hit:
  assumes "s < n"
  shows "\<exists>j. a \<le> j \<and> j < a + n \<and> j mod n = (s :: nat)"
proof (cases "a mod n \<le> s")
  case True
  have "(a + (s - a mod n)) mod n = (n * (a div n) + s) mod n"
    using True by (metis add_diff_inverse_nat group_cancel.add1 mult_div_mod_eq not_less)
  then show ?thesis using assms True by (intro exI [of _ "a + (s - a mod n)"]) auto
next
  case False
  have r: "a mod n < n" using assms by simp
  have "a + (n + s - a mod n) = n * (a div n + 1) + s"
  proof -
    have "n * (a div n + 1) = n * (a div n) + n" by simp
    then show ?thesis using mult_div_mod_eq [of n a] r by linarith
  qed
  then have "(a + (n + s - a mod n)) mod n = s" using assms by (simp only: mod_mult_self4 mod_less)
  then show ?thesis using False r by (intro exI [of _ "a + (n + s - a mod n)"]) linarith
qed

lemma ring_slide:
  assumes rel: "ring_rel A f" and gt: "wg_last f < counter"
  defines "diff \<equiv> min (drop_bit 6 counter - drop_bit 6 (wg_last f)) (of_nat replayRingBlocks)"
  shows "ring_holds (unat counter div 64) A (clear_blocks (unat diff) (drop_bit 6 (wg_last f) + 1) (ring f))"
  unfolding ring_holds_def
proof (intro allI impI)
  fix c :: nat
  let ?B = "unat counter div 64" and ?C = "unat (wg_last f) div 64" and ?s = "c div 64 mod 128"
  assume c: "c div 64 \<le> ?B \<and> ?B < c div 64 + 128"
  have lt: "unat (wg_last f) < unat counter" using gt by (simp add: word_less_nat_alt)
  then have BC: "?C \<le> ?B" by (simp add: div_le_mono)
  have "unat (drop_bit 6 counter - drop_bit 6 (wg_last f)) = ?B - ?C"
    using BC by (simp add: unat_sub word_le_nat_alt unat_block)
  then have diff: "unat diff = min (?B - ?C) 128"
    by (simp add: diff_def replayRingBlocks_def min_def word_le_nat_alt)
  have small: "?C < 2 ^ 58" using unsigned_less [of "wg_last f", where ?'a = nat] by simp
  then have start: "unat (drop_bit 6 (wg_last f) + 1) = ?C + 1"
    by (simp add: unat_word_ariths unat_block)
  have len: "length (ring f) = 128" using rel by (simp add: ring_rel_def)
  have nth: "clear_blocks (unat diff) (drop_bit 6 (wg_last f) + 1) (ring f) ! ?s =
      (if \<exists>j. ?C + 1 \<le> j \<and> j < ?C + 1 + unat diff \<and> j mod 128 = ?s then 0 else ring f ! ?s)"
  proof -
    have "unat diff \<le> 128" using diff by simp
    then have "unat (drop_bit 6 (wg_last f) + 1) + unat diff < 2 ^ 64"
      using small start by simp
    from nth_clear_blocks [OF this, of ?s "ring f"] len start show ?thesis by simp
  qed
  show "ring_bit (clear_blocks (unat diff) (drop_bit 6 (wg_last f) + 1) (ring f)) c \<longleftrightarrow> c \<in> A"
  proof (cases "c div 64 \<le> ?C")
    case True
    have "j mod 128 \<noteq> ?s" if "?C + 1 \<le> j" "j < ?C + 1 + unat diff" for j
    proof -
      have "c div 64 < j" and "j < c div 64 + 128" using that True c diff by linarith+
      then show ?thesis using mod_eq_close [of "c div 64" 128 j] by auto
    qed
    with nth have "ring_bit (clear_blocks (unat diff) (drop_bit 6 (wg_last f) + 1) (ring f)) c = ring_bit (ring f) c"
      by (auto simp: ring_bit_def)
    then show ?thesis using rel True c BC by (simp add: ring_rel_def ring_holds_def)
  next
    case False
    then have "unat (wg_last f) < c" using div_le_mono [of c "unat (wg_last f)" 64] by linarith
    then have "c \<notin> A" using rel by (auto simp: ring_rel_def)
    moreover have "\<exists>j. ?C + 1 \<le> j \<and> j < ?C + 1 + unat diff \<and> j mod 128 = ?s"
    proof (cases "?B - ?C \<le> 128")
      case True
      then show ?thesis using False c diff by (intro exI [of _ "c div 64"]) auto
    next
      case far: False
      then show ?thesis using residue_hit [of ?s 128 "?C + 1"] diff by auto
    qed
    ultimately show ?thesis using nth by (simp add: ring_bit_def)
  qed
qed

lemma validate_unfold:
  assumes rel: "ring_rel A f" and f': "f' = (if wg_last f < counter
      then f\<lparr>ring := clear_blocks (unat (min (drop_bit 6 counter - drop_bit 6 (wg_last f)) (of_nat replayRingBlocks)))
              (drop_bit 6 (wg_last f) + 1) (ring f), wg_last := counter\<rparr> else f)"
    and near: "unat (wg_last f) < unat counter + (replayWindowSize + 1)"
  shows "validate f counter = (\<not> ring_bit (ring f') (unat counter),
    f'\<lparr>ring := (ring f')[unat counter div 64 mod 128 := ring f' ! (unat counter div 64 mod 128) OR 2 ^ (unat counter mod 64)]\<rparr>)"
proof -
  have "wg_last f < counter \<or> wg_last f - counter \<le> of_nat replayWindowSize"
  proof (cases "wg_last f < counter")
    case False
    then have "unat (wg_last f - counter) = unat (wg_last f) - unat counter"
      by (simp add: unat_sub not_less)
    moreover have "unat (wg_last f) - unat counter \<le> 8128"
      using near by (simp add: replayWindowSize_def replayRingBlocks_def)
    ultimately have "wg_last f - counter \<le> of_nat replayWindowSize"
      by (simp add: word_le_nat_alt replayWindowSize_def replayRingBlocks_def)
    then show ?thesis ..
  qed simp
  then have "validate f counter =
      (ring f' ! unat (drop_bit 6 counter AND 127) AND push_bit (unat (counter AND 63)) 1 = 0,
       f'\<lparr>ring := (ring f')[unat (drop_bit 6 counter AND 127) :=
          ring f' ! unat (drop_bit 6 counter AND 127) OR push_bit (unat (counter AND 63)) 1]\<rparr>)"
    unfolding validate_def f' Let_def by simp
  then show ?thesis
    by (simp add: unat_and_127 unat_and_63 unat_block ring_bit_def bitmap_test)
qed

lemma validate_step:
  assumes rel: "ring_rel A f"
  shows "fst (validate f counter) = fresh (replayWindowSize + 1) A (unat counter)
    \<and> ring_rel (if fresh (replayWindowSize + 1) A (unat counter) then insert (unat counter) A else A)
        (snd (validate f counter))"
proof -
  let ?c = "unat counter" and ?W = "replayWindowSize + 1"
  let ?f = "if wg_last f < counter
      then f\<lparr>ring := clear_blocks (unat (min (drop_bit 6 counter - drop_bit 6 (wg_last f)) (of_nat replayRingBlocks)))
              (drop_bit 6 (wg_last f) + 1) (ring f), wg_last := counter\<rparr> else f"
  have fr: "fresh ?W A ?c \<longleftrightarrow> ?c \<notin> A \<and> unat (wg_last f) < ?c + ?W"
    using rel by (intro fresh_highest) (auto simp: ring_rel_def)
  show ?thesis
  proof (cases "unat (wg_last f) < ?c + ?W")
    case False
    then have "\<not> wg_last f < counter" by (simp add: word_less_nat_alt)
    moreover from this have "unat (wg_last f - counter) = unat (wg_last f) - ?c"
      by (simp add: unat_sub not_less)
    moreover have "\<not> unat (wg_last f) - ?c \<le> replayWindowSize" using False by linarith
    ultimately have "validate f counter = (False, f)"
      by (simp add: validate_def word_le_nat_alt replayWindowSize_def replayRingBlocks_def)
    with False fr rel show ?thesis by simp
  next
    case True
    have holds: "ring_holds (unat (wg_last ?f) div 64) A (ring ?f)" and len: "length (ring ?f) = 128"
      using ring_slide [OF rel] rel by (auto simp: ring_rel_def)
    have top: "wg_last ?f = (if wg_last f < counter then counter else wg_last f)" by simp
    have rng: "?c div 64 \<le> unat (wg_last ?f) div 64" "unat (wg_last ?f) div 64 < ?c div 64 + 128"
      using True by (auto simp: top word_less_nat_alt replayWindowSize_def replayRingBlocks_def div_le_mono)
    have "ring_bit (ring ?f) ?c \<longleftrightarrow> ?c \<in> A"
      using holds rng by (simp add: ring_holds_def)
    moreover have "\<forall>a\<in>A. a \<le> unat (wg_last ?f)"
      using rel by (fastforce simp: ring_rel_def top word_less_nat_alt)
    moreover have "?c \<le> unat (wg_last ?f)" by (simp add: top word_less_nat_alt)
    moreover have "unat (wg_last ?f) \<in> insert ?c A \<or> wg_last ?f = 0"
      using rel by (auto simp: top ring_rel_def)
    ultimately show ?thesis
      using validate_unfold [OF rel refl True] ring_mark [OF holds len rng] fr True len
      by (auto simp: ring_rel_def insert_absorb)
  qed
qed

interpretation wg: replay_guard "replayWindowSize + 1" "\<lambda>_. True" "\<lambda>_. True" replayFilter0
  "\<lambda>f c. Some (validate f c)" ring_rel
proof
  show "ring_rel {} replayFilter0" by (rule ring_rel_init)
next
  fix A f and c :: u64
  assume "ring_rel A f"
  then show "\<exists>s'. Some (validate f c) = Some (True \<and> fresh (replayWindowSize + 1) A (unat c), s')
      \<and> ring_rel (if True \<and> fresh (replayWindowSize + 1) A (unat c) then insert (unat c) A else A) s'"
    using validate_step [of A f c] by (cases "validate f c") auto
qed

section \<open>Properties\<close>

text \<open>
  C17: Over any run of counters below the largest 64-bit value, a \<open>Window\<close> of size \<open>n\<close> returns for
  every one of them and accepts exactly the counters the contract allows: those not accepted
  before and less than \<open>n\<close> behind the highest accepted one.  In particular no counter is accepted twice.
\<close>

theorem window_accepts_exactly:
  assumes "0 < n" and "n < 2 ^ 63" and "\<forall>c\<in>set cs. c \<noteq> - 1"
  shows "\<exists>ds. accepted Accept (NewSize n) cs = Some ds
    \<and> ds = spec_accepted (nat n) (\<lambda>_. True) {} cs \<and> distinct ds"
  using replay_guard.accepted_spec [OF window_guard [OF assms(1,2)] assms(3)] spec_accepted_distinct by blast

lemma window_accepts_exactly_witness:
  "\<exists>ds. accepted Accept (NewSize 4) [1, 3, 2, 3, 9, 4, 6] = Some ds \<and> ds = [1, 3, 2, 9, 6] \<and> distinct ds"
  using window_accepts_exactly [of 4 "[1, 3, 2, 3, 9, 4, 6]"] by (simp add: fresh_def)

text \<open>
  C20: \<open>Accept\<close> returns for every counter but one.  It never returns exactly when the counter is the
  largest 64-bit value and the window slides to it by less than its own size: the clearing
  loop's 64-bit index then wraps to zero instead of passing the counter.  A peer that can authenticate
  such a counter stops the goroutine that called \<open>Accept\<close>, with the session lock held.
\<close>

theorem Accept_hangs_iff:
  assumes "0 < length (seen w)" and "length (seen w) < 2 ^ 63"
  shows "Accept w counter = None \<longleftrightarrow>
    counter = - 1 \<and> highest w \<noteq> - 1 \<and> unat (counter - highest w) < length (seen w)"
proof -
  let ?n = "of_nat (length (seen w)) :: u64"
  have un: "unat ?n = length (seen w)" using assms(2) by (simp add: unat_of_nat)
  have gap: "?n \<le> counter - highest w \<longleftrightarrow> length (seen w) \<le> unat (counter - highest w)"
    by (simp add: word_le_nat_alt un)
  show ?thesis
  proof (cases "highest w < counter")
    case False
    then have "highest w = - 1" if "counter = - 1"
      using that word_order.extremum_uniqueI by (metis not_less)
    with False show ?thesis by (auto simp: Accept_def Let_def)
  next
    case slide: True
    have "clear_slots (highest w + 1) counter ?n (seen w) = None \<longleftrightarrow> counter = - 1"
    proof (cases "counter = - 1")
      case True
      then show ?thesis by (simp add: clear_slots_hangs)
    next
      case False
      then have ret: "counter < - 1" by (simp add: word_order.not_eq_extremum)
      have "unat (highest w + 1) \<le> unat counter + 1"
        using unat_inc [of "highest w"] slide ret less_trans [of "highest w" counter "- 1"]
        by (simp add: word_less_nat_alt)
      from clear_slots_returns [OF ret this, of ?n "seen w"] obtain ys
        where "clear_slots (highest w + 1) counter ?n (seen w) = Some ys" by blast
      with False show ?thesis by simp
    qed
    moreover have "highest w \<noteq> - 1" using slide by (metis word_order.extremum_strict)
    ultimately show ?thesis using slide gap by (simp add: Accept_def Let_def not_le)
  qed
qed

lemma Accept_hangs_iff_witness:
  "Accept \<lparr>highest = - 2, seen = replicate 1024 False\<rparr> (- 1) = None"
  using Accept_hangs_iff [of "\<lparr>highest = - 2, seen = replicate 1024 False\<rparr>" "- 1"] by simp


end
