(* ===== verification/Channel.thy ===== *)
theory Channel
  imports Replay
begin

text \<open>
  What the data channels of the protocols share: a receiver that opens datagrams, keeps a replay window over their counters and
  delivers what they carry.  The contract of one step is a locale; what a whole run delivers follows from it
  once, for the ESP tunnel, the WireGuard session and the OpenVPN tunnel alike.
\<close>

text \<open>Which packet was sent under a counter.\<close>

definition packet_at :: "('w \<Rightarrow> 'c) \<Rightarrow> ('w \<times> 'p) list \<Rightarrow> 'c \<Rightarrow> 'p" where
  "packet_at ctr sent q = the (map_of (map (\<lambda>(w, pkt). (ctr w, pkt)) sent) q)"

lemma packet_at_in:
  assumes "(w, p) \<in> set sent" "distinct (map (\<lambda>x. ctr (fst x)) sent)"
  shows "packet_at ctr sent (ctr w) = p"
proof -
  have "(ctr w, p) \<in> set (map (\<lambda>(w, pkt). (ctr w, pkt)) sent)" using assms(1) by force
  moreover have "distinct (map fst (map (\<lambda>(w, pkt). (ctr w, pkt)) sent))" using assms(2) by (simp add: comp_def case_prod_unfold)
  ultimately show ?thesis by (simp add: packet_at_def map_of_is_SomeI)
qed

text \<open>A receiver handed datagrams in order; a datagram it refuses yields nothing.\<close>

fun receive_all :: "('s \<Rightarrow> 'w \<Rightarrow> ('e + 'p) \<times> 's) \<Rightarrow> 'w list \<Rightarrow> 's \<Rightarrow> 'p list" where
  "receive_all recv [] s = []"
| "receive_all recv (w # ws) s = (case recv s w of
     (Err _, s') \<Rightarrow> receive_all recv ws s'
   | (Ok pkt, s') \<Rightarrow> pkt # receive_all recv ws s')"

locale datagram_receiver =
  fixes width :: nat
    and valid :: "'l::len word \<Rightarrow> bool"
    and ctr :: "'w \<Rightarrow> 'l word"
    and recv :: "'s \<Rightarrow> 'w \<Rightarrow> ('e + 'p) \<times> 's"
    and carries :: "'w \<Rightarrow> 'p \<Rightarrow> bool"
    and refused :: "'w \<Rightarrow> bool"
    and holds :: "nat set \<Rightarrow> 's \<Rightarrow> bool"
  assumes genuine: "holds A s \<Longrightarrow> carries w pkt \<Longrightarrow> recv s w = (r, s') \<Longrightarrow>
      valid (ctr w) \<and> (if fresh width A (unat (ctr w)) then r = Ok pkt \<and> holds (insert (unat (ctr w)) A) s' else (\<exists>e. r = Err e) \<and> holds A s')"
    and forged: "holds A s \<Longrightarrow> refused w \<Longrightarrow> recv s w = (r, s') \<Longrightarrow> (\<exists>e. r = Err e) \<and> holds A s'"
begin

lemma receives:
  assumes "holds A s" "\<forall>(w, pkt) \<in> set sent. carries w pkt" "distinct (map (\<lambda>x. ctr (fst x)) sent)"
    and "\<forall>w \<in> set ws. w \<in> fst ` set sent \<or> refused w"
  shows "receive_all recv ws s = map (packet_at ctr sent) (spec_accepted width valid A (map ctr (filter (\<lambda>w. w \<in> fst ` set sent) ws)))"
  using assms(1,4)
proof (induction ws arbitrary: s A)
  case (Cons w ws)
  obtain r s' where rs: "recv s w = (r, s')" by (cases "recv s w")
  show ?case
  proof (cases "w \<in> fst ` set sent")
    case True
    then obtain p where p: "(w, p) \<in> set sent" by force
    then have g: "valid (ctr w) \<and> (if fresh width A (unat (ctr w)) then r = Ok p \<and> holds (insert (unat (ctr w)) A) s' else (\<exists>e. r = Err e) \<and> holds A s')"
      using genuine [OF Cons.prems(1) _ rs] assms(2) by auto
    show ?thesis using g rs True packet_at_in [OF p assms(3)] Cons.prems(2) Cons.IH [of A s'] Cons.IH [of "insert (unat (ctr w)) A" s']
      by (cases "fresh width A (unat (ctr w))") auto
  next
    case False
    then have "(\<exists>e. r = Err e) \<and> holds A s'" using forged [OF Cons.prems(1) _ rs] Cons.prems(2) by auto
    then show ?thesis using rs False Cons.prems(2) Cons.IH [of A s'] by auto
  qed
qed simp

lemma receives_all:
  assumes "holds {} s" "\<forall>(w, pkt) \<in> set sent. carries w pkt" "distinct (map (\<lambda>x. ctr (fst x)) sent)"
    and "\<forall>w \<in> set ws. w \<in> fst ` set sent \<or> refused w" and g: "g = filter (\<lambda>w. w \<in> fst ` set sent) ws"
    and "\<forall>w \<in> fst ` set sent. valid (ctr w)" "distinct (map ctr g)" "mildly_reordered width (map ctr g)"
  shows "receive_all recv ws s = map (packet_at ctr sent) (map ctr g)"
  using receives [OF assms(1-4)] spec_accepted_all [of "map ctr g" valid width "{}"] assms(6-8) unfolding g by auto

end

end
