(* ===== verification/Crypto.thy ===== *)
theory Crypto
  imports Prelude
begin

text \<open>
  The framing around the ciphers, \<^verbatim>\<open>internal/cryptoutil\<close>: the SK ciphers of IKE
  (\<^verbatim>\<open>cipher.go\<close>), the prepared ESP crypters (\<^verbatim>\<open>espcrypt.go\<close>), the PRF and the MAC
  transform (\<^verbatim>\<open>prf.go\<close>), and the IKEv2 registry that selects them by transform ID
  (\<^verbatim>\<open>internal/ikev2/transform\<close>).  The primitives of the libraries (AES-GCM, ChaCha20-Poly1305,
  AES-CBC, HMAC) are the functions of a record; \<open>prims_ok\<close> is what the code relies on: opening undoes sealing
  under the same key, nonce and associated data, and the lengths.  A MAC is a function of key and
  data, as \<^verbatim>\<open>newMAC\<close> is in the source.  \<^verbatim>\<open>rand.Read\<close> is an argument that maps the number
  of octets asked for to the octets read, or to \<open>None\<close> when reading fails.  Slicing out of range is
  the error \<open>Panic\<close>.
\<close>

section \<open>Primitives\<close>

datatype aead_alg = AESGCM | ChaCha20Poly1305

datatype hash_alg = SHA1 | SHA256 | SHA384 | SHA512

fun hash_size :: "hash_alg \<Rightarrow> nat" where
  "hash_size SHA1 = 20"
| "hash_size SHA256 = 32"
| "hash_size SHA384 = 48"
| "hash_size SHA512 = 64"

record prims =
  aead_seal :: "aead_alg \<Rightarrow> bytes \<Rightarrow> bytes \<Rightarrow> bytes \<Rightarrow> bytes \<Rightarrow> bytes"
  aead_open :: "aead_alg \<Rightarrow> bytes \<Rightarrow> bytes \<Rightarrow> bytes \<Rightarrow> bytes \<Rightarrow> bytes option"
  cbc_enc :: "bytes \<Rightarrow> bytes \<Rightarrow> bytes \<Rightarrow> bytes"
  cbc_dec :: "bytes \<Rightarrow> bytes \<Rightarrow> bytes \<Rightarrow> bytes"
  hmac :: "hash_alg \<Rightarrow> bytes \<Rightarrow> bytes \<Rightarrow> bytes"

definition prims_ok :: "prims \<Rightarrow> bool" where
  "prims_ok P \<longleftrightarrow>
     (\<forall>g k n ad pt. aead_open P g k n ad (aead_seal P g k n ad pt) = Some pt
        \<and> length (aead_seal P g k n ad pt) = length pt + 16)
     \<and> (\<forall>k iv pt. length pt mod 16 = 0 \<longrightarrow>
          cbc_dec P k iv (cbc_enc P k iv pt) = pt \<and> length (cbc_enc P k iv pt) = length pt)
     \<and> (\<forall>h k m. length (hmac P h k m) = hash_size h)"

type_synonym rand = "nat \<Rightarrow> bytes option"

definition rand_ok :: "rand \<Rightarrow> bool" where
  "rand_ok rnd \<longleftrightarrow> (\<forall>n b. rnd n = Some b \<longrightarrow> length b = n)"

text \<open>\<^verbatim>\<open>aes.NewCipher\<close> and \<^verbatim>\<open>chacha20poly1305.New\<close> refuse keys of any other length.\<close>

definition aes_key_ok :: "bytes \<Rightarrow> bool" where
  "aes_key_ok k \<longleftrightarrow> length k = 16 \<or> length k = 24 \<or> length k = 32"

definition ChaCha20Poly1305KeySize :: nat where
  "ChaCha20Poly1305KeySize = 32"

definition mkAEAD_ok :: "aead_alg \<Rightarrow> bytes \<Rightarrow> bool" where
  "mkAEAD_ok g k = (case g of AESGCM \<Rightarrow> aes_key_ok k | ChaCha20Poly1305 \<Rightarrow> length k = ChaCha20Poly1305KeySize)"

datatype crypt_error =
    Panic | BadKeyLength | KeySize | RandFailed
  | AEADShort | AEADOpen | AEADExhausted
  | CBCShort | CBCIntegrity | CBCAlign | CBCNotAligned
  | NeedsETM | LacksETM | NoIntegrity
  | UnsupportedENCR | UnsupportedPRF | UnsupportedInteg

text \<open>
  A concrete instance for the examples: a tag over key, nonce, data and plaintext behind the
  plaintext, and a shift by the key in place of CBC.
\<close>

definition example_tag :: "bytes \<Rightarrow> bytes \<Rightarrow> bytes \<Rightarrow> bytes \<Rightarrow> bytes" where
  "example_tag k n ad pt = replicate 16 (sum_list (k @ n @ ad @ pt))"

definition example_prims :: prims where
  "example_prims = \<lparr>
     aead_seal = \<lambda>g k n ad pt. pt @ example_tag k n ad pt,
     aead_open = \<lambda>g k n ad c. let pt = take (length c - 16) c in if c = pt @ example_tag k n ad pt then Some pt else None,
     cbc_enc = \<lambda>k iv pt. map (\<lambda>b. b + sum_list k) pt,
     cbc_dec = \<lambda>k iv ct. map (\<lambda>b. b - sum_list k) ct,
     hmac = \<lambda>h k m. replicate (hash_size h) (sum_list (k @ m))\<rparr>"

lemma example_prims_ok: "prims_ok example_prims"
  by (simp add: prims_ok_def example_prims_def example_tag_def comp_def)

section \<open>The pseudo-random function\<close>

text \<open>
  \<^verbatim>\<open>prf+\<close>: each block is the PRF of the block before, the seed and a counter octet.  The loop
  ends when enough octets are there; a PRF without output would make it run forever, so the loop is
  a partial function.
\<close>

partial_function (option) Plus_loop :: "(bytes \<Rightarrow> bytes) \<Rightarrow> bytes \<Rightarrow> nat \<Rightarrow> byte \<Rightarrow> bytes \<Rightarrow> bytes \<Rightarrow> bytes option" where
  "Plus_loop mac seed n counter prev out =
     (if length out < n then
        let prev' = mac (prev @ seed @ [counter])
        in Plus_loop mac seed n (counter + 1) prev' (out @ prev')
      else Some out)"

definition Plus :: "(bytes \<Rightarrow> bytes \<Rightarrow> bytes) \<Rightarrow> bytes \<Rightarrow> bytes \<Rightarrow> nat \<Rightarrow> bytes option" where
  "Plus newMAC key seed n = map_option (take n) (Plus_loop (newMAC key) seed n 1 [] [])"

text \<open>The blocks of RFC 7296 and their concatenation.\<close>

fun prf_T :: "(bytes \<Rightarrow> bytes) \<Rightarrow> bytes \<Rightarrow> nat \<Rightarrow> bytes" where
  "prf_T mac seed 0 = []"
| "prf_T mac seed (Suc i) = mac (prf_T mac seed i @ seed @ [of_nat (Suc i)])"

definition prf_stream :: "(bytes \<Rightarrow> bytes) \<Rightarrow> bytes \<Rightarrow> nat \<Rightarrow> bytes" where
  "prf_stream mac seed k = concat (map (prf_T mac seed) [1..<Suc k])"

lemma prf_stream_0 [simp]: "prf_stream mac seed 0 = []"
  by (simp add: prf_stream_def)

lemma prf_stream_Suc: "prf_stream mac seed (Suc k) = prf_stream mac seed k @ prf_T mac seed (Suc k)"
  by (simp add: prf_stream_def)

lemma length_prf_stream:
  assumes "\<And>m. length (mac m) = sz"
  shows "length (prf_stream mac seed k) = k * sz"
  by (induction k) (simp_all add: prf_stream_Suc assms)

lemma Plus_loop_stream:
  assumes sz: "\<And>m. length (mac m) = sz" "0 < sz" and k: "(k - 1) * sz < n \<or> k = 0"
  shows "Plus_loop mac seed n (of_nat (Suc k)) (prf_T mac seed k) (prf_stream mac seed k)
           = Some (prf_stream mac seed ((n + sz - 1) div sz))"
  using k
proof (induction "n - k * sz" arbitrary: k rule: less_induct)
  case less
  show ?case
  proof (cases "k * sz < n")
    case True
    have "Plus_loop mac seed n (of_nat (Suc (Suc k))) (prf_T mac seed (Suc k)) (prf_stream mac seed (Suc k))
           = Some (prf_stream mac seed ((n + sz - 1) div sz))"
      by (rule less.hyps) (use True sz(2) in auto)
    then show ?thesis using True
      by (subst Plus_loop.simps) (simp add: length_prf_stream [OF sz(1)] prf_stream_Suc add.commute)
  next
    case False
    have "(n + sz - 1) div sz = k"
    proof (cases k)
      case 0
      then show ?thesis using False sz(2) by simp
    next
      case (Suc j)
      then have "j * sz < n" "n \<le> j * sz + sz" using less.prems False by simp_all
      then have e: "n + sz - 1 = (n - 1 - j * sz) + Suc j * sz" and l: "n - 1 - j * sz < sz" by simp_all
      show ?thesis unfolding e div_mult_self1 [OF less_not_refl2 [OF sz(2)]] using l Suc by simp
    qed
    then show ?thesis using False by (subst Plus_loop.simps) (simp add: length_prf_stream [OF sz(1)])
  qed
qed

lemma Plus_stream:
  assumes "\<And>m. length (newMAC key m) = sz" "0 < sz"
  shows "Plus newMAC key seed n = Some (take n (prf_stream (newMAC key) seed ((n + sz - 1) div sz)))"
  using Plus_loop_stream [OF assms, where k = 0] by (simp add: Plus_def)

lemma Plus_exact:
  assumes "\<And>m. length (mk key m) = sz" and "0 < sz"
  shows "\<exists>out. Plus mk key seed n = Some out \<and> length out = n
    \<and> out = take n (prf_stream (mk key) seed ((n + sz - 1) div sz))"
proof -
  have "n \<le> (n + sz - 1) div sz * sz"
  proof -
    have "n + sz - 1 = (n + sz - 1) div sz * sz + (n + sz - 1) mod sz" by simp
    moreover have "(n + sz - 1) mod sz \<le> sz - 1" using assms(2) by (simp add: less_Suc_eq_le [symmetric])
    ultimately show ?thesis using assms(2) by linarith
  qed
  then have "length (take n (prf_stream (mk key) seed ((n + sz - 1) div sz))) = n"
    by (simp add: length_prf_stream [OF assms(1)])
  then show ?thesis using Plus_stream [where newMAC = mk and key = key, OF assms] by blast
qed

lemma Plus_hmac:
  assumes "prims_ok P"
  shows "\<exists>km. Plus (hmac P h) key seed n = Some km \<and> length km = n"
proof -
  have "length (hmac P h key m) = hash_size h" "0 < hash_size h" for m
    using assms by (simp_all add: prims_ok_def) (cases h; simp)
  then show ?thesis using Plus_exact [where mk = "hmac P h" and key = key and sz = "hash_size h"] by blast
qed

section \<open>The MAC transform\<close>

record Integrity =
  newMAC :: "bytes \<Rightarrow> bytes \<Rightarrow> bytes"
  integ_KeyLen :: nat
  integ_ICVLen :: nat

definition Integ_Sum :: "Integrity \<Rightarrow> bytes \<Rightarrow> bytes \<Rightarrow> bytes" where
  "Integ_Sum i key data = take (integ_ICVLen i) (newMAC i key data)"

text \<open>What \<^verbatim>\<open>NewHMACIntegrity\<close> is given: a hash at least as long as the tag cut from it.\<close>

definition integ_ok :: "Integrity \<Rightarrow> bool" where
  "integ_ok i \<longleftrightarrow> (\<forall>k m. integ_ICVLen i \<le> length (newMAC i k m))"

lemma length_Integ_Sum: "integ_ok i \<Longrightarrow> length (Integ_Sum i k m) = integ_ICVLen i"
  by (simp add: Integ_Sum_def integ_ok_def)

section \<open>SK ciphers\<close>

text \<open>Go's integer division rounds towards zero.\<close>

definition aesKeyLen :: "int \<Rightarrow> crypt_error + nat" where
  "aesKeyLen keyBits =
     (let kl = sgn keyBits * (\<bar>keyBits\<bar> div 8);
          kl = (if kl = 0 then 32 else kl)
      in if kl \<noteq> 16 \<and> kl \<noteq> 24 \<and> kl \<noteq> 32 then Err BadKeyLength else Ok (nat kl))"

datatype SKCipher =
    aeadCipher (keyLen: nat) (mkAEAD: aead_alg)
  | cbcCipher (keyLen: nat)

definition NewAESGCMSKCipher :: "int \<Rightarrow> crypt_error + SKCipher" where
  "NewAESGCMSKCipher keyBits = (case aesKeyLen keyBits of Err x \<Rightarrow> Err x | Ok kl \<Rightarrow> Ok (aeadCipher kl AESGCM))"

definition NewChaCha20Poly1305SKCipher :: "crypt_error + SKCipher" where
  "NewChaCha20Poly1305SKCipher = Ok (aeadCipher ChaCha20Poly1305KeySize ChaCha20Poly1305)"

definition NewAESCBCSKCipher :: "int \<Rightarrow> crypt_error + SKCipher" where
  "NewAESCBCSKCipher keyBits = (case aesKeyLen keyBits of Err x \<Rightarrow> Err x | Ok kl \<Rightarrow> Ok (cbcCipher kl))"

fun KeyLen :: "SKCipher \<Rightarrow> nat" where
  "KeyLen (aeadCipher kl _) = kl + 4"
| "KeyLen (cbcCipher kl) = kl"

fun IVLen :: "SKCipher \<Rightarrow> nat" where
  "IVLen (aeadCipher _ _) = 8"
| "IVLen (cbcCipher _) = 16"

fun ICVLen :: "SKCipher \<Rightarrow> nat" where
  "ICVLen (aeadCipher _ _) = 16"
| "ICVLen (cbcCipher _) = 0"

fun BlockLen :: "SKCipher \<Rightarrow> nat" where
  "BlockLen (aeadCipher _ _) = 1"
| "BlockLen (cbcCipher _) = 16"

text \<open>The AEAD of a key and the salt behind it; the salt is sliced first.\<close>

definition aead_of :: "nat \<Rightarrow> aead_alg \<Rightarrow> bytes \<Rightarrow> crypt_error + (bytes \<times> bytes)" where
  "aead_of kl g key =
     (if length key < kl + 4 then Err Panic
      else if \<not> mkAEAD_ok g (take kl key) then Err KeySize
      else Ok (take kl key, slice kl (kl + 4) key))"

definition aead_Seal :: "prims \<Rightarrow> rand \<Rightarrow> nat \<Rightarrow> aead_alg \<Rightarrow> bytes \<Rightarrow> bytes \<Rightarrow> bytes \<Rightarrow> crypt_error + bytes" where
  "aead_Seal P rnd kl g encKey aad plaintext = (case aead_of kl g encKey of
     Err x \<Rightarrow> Err x
   | Ok (k, salt) \<Rightarrow> (case rnd 8 of
       None \<Rightarrow> Err RandFailed
     | Some iv \<Rightarrow> Ok (iv @ aead_seal P g k (salt @ iv) aad plaintext)))"

definition aead_Open :: "prims \<Rightarrow> nat \<Rightarrow> aead_alg \<Rightarrow> bytes \<Rightarrow> bytes \<Rightarrow> bytes \<Rightarrow> crypt_error + bytes" where
  "aead_Open P kl g encKey aad ivCtIcv =
     (if length ivCtIcv < 8 + 16 then Err AEADShort
      else case aead_of kl g encKey of
        Err x \<Rightarrow> Err x
      | Ok (k, salt) \<Rightarrow> (case aead_open P g k (salt @ take 8 ivCtIcv) aad (drop 8 ivCtIcv) of
          None \<Rightarrow> Err AEADOpen | Some pt \<Rightarrow> Ok pt))"

text \<open>The two methods of the interface; the CBC cipher refuses both.\<close>

fun SK_Seal :: "prims \<Rightarrow> rand \<Rightarrow> SKCipher \<Rightarrow> bytes \<Rightarrow> bytes \<Rightarrow> bytes \<Rightarrow> crypt_error + bytes" where
  "SK_Seal P rnd (aeadCipher kl g) encKey aad plaintext = aead_Seal P rnd kl g encKey aad plaintext"
| "SK_Seal P rnd (cbcCipher kl) encKey aad plaintext = Err NeedsETM"

fun SK_Open :: "prims \<Rightarrow> SKCipher \<Rightarrow> bytes \<Rightarrow> bytes \<Rightarrow> bytes \<Rightarrow> crypt_error + bytes" where
  "SK_Open P (aeadCipher kl g) encKey aad ivCtIcv = aead_Open P kl g encKey aad ivCtIcv"
| "SK_Open P (cbcCipher kl) encKey aad ivCtIcv = Err NeedsETM"

text \<open>Encrypt-then-MAC, which only the CBC cipher has.\<close>

definition SealETM :: "prims \<Rightarrow> rand \<Rightarrow> bytes \<Rightarrow> bytes \<Rightarrow> bytes \<Rightarrow> bytes \<Rightarrow> Integrity \<Rightarrow> crypt_error + bytes" where
  "SealETM P rnd encKey integKey aad plaintext integ =
     (if \<not> aes_key_ok encKey then Err KeySize
      else if length plaintext mod 16 \<noteq> 0 then Err CBCNotAligned
      else case rnd 16 of
        None \<Rightarrow> Err RandFailed
      | Some iv \<Rightarrow>
          let ct = cbc_enc P encKey iv plaintext;
              icv = Integ_Sum integ integKey (aad @ iv @ ct)
          in Ok (iv @ ct @ icv))"

definition OpenETM :: "prims \<Rightarrow> bytes \<Rightarrow> bytes \<Rightarrow> bytes \<Rightarrow> bytes \<Rightarrow> Integrity \<Rightarrow> crypt_error + bytes" where
  "OpenETM P encKey integKey aad ivCtIcv integ =
     (if length ivCtIcv < 16 + integ_ICVLen integ then Err CBCShort
      else let n = length ivCtIcv - integ_ICVLen integ; icv = drop n ivCtIcv; rest = take n ivCtIcv in
        if Integ_Sum integ integKey (aad @ rest) \<noteq> icv then Err CBCIntegrity
        else let iv = take 16 rest; ct = drop 16 rest in
          if length ct mod 16 \<noteq> 0 then Err CBCAlign
          else if \<not> aes_key_ok encKey then Err KeySize
          else Ok (cbc_dec P encKey iv ct))"

section \<open>ESP crypters\<close>

text \<open>
  The AEAD crypter keeps the last explicit IV, a counter, and a 12-octet nonce buffer that sealing
  and opening both reuse; the buffer is absent until its first use.
\<close>

record espAEAD =
  ea_alg :: aead_alg
  ea_key :: bytes
  ea_salt :: bytes
  ea_nonce :: "bytes option"
  ea_iv :: u64

record espCBC =
  ec_block :: bytes
  ec_integ :: Integrity
  ec_integKey :: bytes

datatype ESPCrypter = AEAD espAEAD | CBC espCBC

definition newESPAEAD :: "aead_alg \<Rightarrow> bytes \<Rightarrow> bytes \<Rightarrow> ESPCrypter" where
  "newESPAEAD g k slt = AEAD \<lparr>ea_alg = g, ea_key = k, ea_salt = slt, ea_nonce = None, ea_iv = 0\<rparr>"

definition NewAESGCMESPCrypter :: "int \<Rightarrow> bytes \<Rightarrow> crypt_error + ESPCrypter" where
  "NewAESGCMESPCrypter keyBits encKey = (case aesKeyLen keyBits of
     Err x \<Rightarrow> Err x
   | Ok kl \<Rightarrow>
       if length encKey < kl + 4 then Err KeySize
       else if \<not> aes_key_ok (take kl encKey) then Err KeySize
       else Ok (newESPAEAD AESGCM (take kl encKey) (slice kl (kl + 4) encKey)))"

definition NewChaCha20Poly1305ESPCrypter :: "bytes \<Rightarrow> crypt_error + ESPCrypter" where
  "NewChaCha20Poly1305ESPCrypter encKey =
     (let kl = ChaCha20Poly1305KeySize in
      if length encKey < kl + 4 then Err KeySize
      else Ok (newESPAEAD ChaCha20Poly1305 (take kl encKey) (slice kl (kl + 4) encKey)))"

definition NewAESCBCESPCrypter :: "int \<Rightarrow> bytes \<Rightarrow> Integrity option \<Rightarrow> bytes \<Rightarrow> crypt_error + ESPCrypter" where
  "NewAESCBCESPCrypter keyBits encKey intg intgKey = (case aesKeyLen keyBits of
     Err x \<Rightarrow> Err x
   | Ok kl \<Rightarrow>
       if length encKey < kl then Err KeySize
       else case intg of
         None \<Rightarrow> Err NoIntegrity
       | Some i \<Rightarrow>
           if \<not> aes_key_ok (take kl encKey) then Err KeySize
           else Ok (CBC \<lparr>ec_block = take kl encKey, ec_integ = i, ec_integKey = intgKey\<rparr>))"

definition nonce_buf :: "espAEAD \<Rightarrow> bytes" where
  "nonce_buf g = (case ea_nonce g of None \<Rightarrow> put_at 0 (ea_salt g) (replicate 12 0) | Some b \<Rightarrow> b)"

definition espAEAD_Seal :: "prims \<Rightarrow> espAEAD \<Rightarrow> bytes \<Rightarrow> bytes \<Rightarrow> bytes \<Rightarrow> (crypt_error + bytes) \<times> espAEAD" where
  "espAEAD_Seal P g dst aad plaintext =
     (let buf = nonce_buf g in
      if ea_iv g = - 1 then (Err AEADExhausted, g\<lparr>ea_nonce := Some buf\<rparr>)
      else let i = ea_iv g + 1; buf = put_at 4 (be64 i) buf;
               dst = dst @ slice 4 12 buf;
               dst = dst @ aead_seal P (ea_alg g) (ea_key g) buf aad plaintext
           in (Ok dst, g\<lparr>ea_nonce := Some buf, ea_iv := i\<rparr>))"

definition loadNonce :: "espAEAD \<Rightarrow> bytes \<Rightarrow> espAEAD" where
  "loadNonce g ivCtIcv = g\<lparr>ea_nonce := Some (put_at 4 (take 8 ivCtIcv) (nonce_buf g))\<rparr>"

definition espAEAD_Open :: "prims \<Rightarrow> espAEAD \<Rightarrow> bytes \<Rightarrow> bytes \<Rightarrow> bytes \<Rightarrow> (crypt_error + bytes) \<times> espAEAD" where
  "espAEAD_Open P g dst aad ivCtIcv =
     (if length ivCtIcv < 8 + 16 then (Err AEADShort, g)
      else let g = loadNonce g ivCtIcv in
        (case aead_open P (ea_alg g) (ea_key g) (nonce_buf g) aad (drop 8 ivCtIcv) of
           None \<Rightarrow> Err AEADOpen | Some pt \<Rightarrow> Ok (dst @ pt), g))"

definition espAEAD_OpenInPlace :: "prims \<Rightarrow> espAEAD \<Rightarrow> bytes \<Rightarrow> bytes \<Rightarrow> (crypt_error + bytes) \<times> espAEAD" where
  "espAEAD_OpenInPlace P g aad ivCtIcv =
     (if length ivCtIcv < 8 + 16 then (Err AEADShort, g)
      else let g = loadNonce g ivCtIcv; ct = drop 8 ivCtIcv in
        (case aead_open P (ea_alg g) (ea_key g) (nonce_buf g) aad ct of
           None \<Rightarrow> Err AEADOpen | Some pt \<Rightarrow> Ok pt, g))"

text \<open>The CBC modes that the code caches are set to each packet's IV, so they add no state.\<close>

definition espCBC_Seal :: "prims \<Rightarrow> rand \<Rightarrow> espCBC \<Rightarrow> bytes \<Rightarrow> bytes \<Rightarrow> bytes \<Rightarrow> crypt_error + bytes" where
  "espCBC_Seal P rnd c dst aad plaintext =
     (if length plaintext mod 16 \<noteq> 0 then Err CBCNotAligned
      else case rnd 16 of
        None \<Rightarrow> Err RandFailed
      | Some iv \<Rightarrow>
          let ct = cbc_enc P (ec_block c) iv plaintext;
              icv = Integ_Sum (ec_integ c) (ec_integKey c) (aad @ iv @ ct)
          in Ok (dst @ iv @ ct @ icv))"

definition espCBC_verify :: "espCBC \<Rightarrow> bytes \<Rightarrow> bytes \<Rightarrow> crypt_error + (bytes \<times> bytes)" where
  "espCBC_verify c aad ivCtIcv =
     (if length ivCtIcv < 16 + integ_ICVLen (ec_integ c) then Err CBCShort
      else let n = length ivCtIcv - integ_ICVLen (ec_integ c); icv = drop n ivCtIcv; rest = take n ivCtIcv in
        if Integ_Sum (ec_integ c) (ec_integKey c) (aad @ rest) \<noteq> icv then Err CBCIntegrity
        else let iv = take 16 rest; ct = drop 16 rest in
          if length ct mod 16 \<noteq> 0 then Err CBCAlign else Ok (iv, ct))"

definition espCBC_Open :: "prims \<Rightarrow> espCBC \<Rightarrow> bytes \<Rightarrow> bytes \<Rightarrow> bytes \<Rightarrow> crypt_error + bytes" where
  "espCBC_Open P c dst aad ivCtIcv = (case espCBC_verify c aad ivCtIcv of
     Err x \<Rightarrow> Err x | Ok (iv, ct) \<Rightarrow> Ok (dst @ cbc_dec P (ec_block c) iv ct))"

definition espCBC_OpenInPlace :: "prims \<Rightarrow> espCBC \<Rightarrow> bytes \<Rightarrow> bytes \<Rightarrow> crypt_error + bytes" where
  "espCBC_OpenInPlace P c aad ivCtIcv = (case espCBC_verify c aad ivCtIcv of
     Err x \<Rightarrow> Err x | Ok (iv, ct) \<Rightarrow> Ok (cbc_dec P (ec_block c) iv ct))"

text \<open>The methods of the interface.\<close>

fun Overhead :: "ESPCrypter \<Rightarrow> nat" where
  "Overhead (AEAD _) = 8 + 16"
| "Overhead (CBC c) = 16 + integ_ICVLen (ec_integ c)"

fun ESP_BlockLen :: "ESPCrypter \<Rightarrow> nat" where
  "ESP_BlockLen (AEAD _) = 1"
| "ESP_BlockLen (CBC _) = 16"

fun Seal :: "prims \<Rightarrow> rand \<Rightarrow> ESPCrypter \<Rightarrow> bytes \<Rightarrow> bytes \<Rightarrow> bytes \<Rightarrow> (crypt_error + bytes) \<times> ESPCrypter" where
  "Seal P rnd (AEAD g) dst aad pt = map_prod id AEAD (espAEAD_Seal P g dst aad pt)"
| "Seal P rnd (CBC c) dst aad pt = (espCBC_Seal P rnd c dst aad pt, CBC c)"

fun Open :: "prims \<Rightarrow> ESPCrypter \<Rightarrow> bytes \<Rightarrow> bytes \<Rightarrow> bytes \<Rightarrow> (crypt_error + bytes) \<times> ESPCrypter" where
  "Open P (AEAD g) dst aad b = map_prod id AEAD (espAEAD_Open P g dst aad b)"
| "Open P (CBC c) dst aad b = (espCBC_Open P c dst aad b, CBC c)"

fun OpenInPlace :: "prims \<Rightarrow> ESPCrypter \<Rightarrow> bytes \<Rightarrow> bytes \<Rightarrow> (crypt_error + bytes) \<times> ESPCrypter" where
  "OpenInPlace P (AEAD g) aad b = map_prod id AEAD (espAEAD_OpenInPlace P g aad b)"
| "OpenInPlace P (CBC c) aad b = (espCBC_OpenInPlace P c aad b, CBC c)"

section \<open>The transform registry\<close>

definition ENCR_AES_CBC :: u16 where "ENCR_AES_CBC = 12"
definition ENCR_AES_GCM_16 :: u16 where "ENCR_AES_GCM_16 = 20"
definition ENCR_CHACHA20_P :: u16 where "ENCR_CHACHA20_P = 28"

definition Cipher :: "u16 \<Rightarrow> int \<Rightarrow> crypt_error + SKCipher" where
  "Cipher encrID keyBits =
     (if encrID = ENCR_AES_GCM_16 then NewAESGCMSKCipher keyBits
      else if encrID = ENCR_CHACHA20_P then NewChaCha20Poly1305SKCipher
      else if encrID = ENCR_AES_CBC then NewAESCBCSKCipher keyBits
      else Err UnsupportedENCR)"

definition NewHMACIntegrity :: "prims \<Rightarrow> hash_alg \<Rightarrow> nat \<Rightarrow> nat \<Rightarrow> Integrity" where
  "NewHMACIntegrity P h kl icvLen = \<lparr>newMAC = hmac P h, integ_KeyLen = kl, integ_ICVLen = icvLen\<rparr>"

definition Integrity_of :: "prims \<Rightarrow> u16 \<Rightarrow> crypt_error + Integrity" where
  "Integrity_of P i =
     (if i = 2 then Ok (NewHMACIntegrity P SHA1 20 12)
      else if i = 12 then Ok (NewHMACIntegrity P SHA256 32 16)
      else if i = 13 then Ok (NewHMACIntegrity P SHA384 48 24)
      else if i = 14 then Ok (NewHMACIntegrity P SHA512 64 32)
      else Err UnsupportedInteg)"

text \<open>A PRF is the hash its HMAC is built on; \<^verbatim>\<open>Size\<close> and \<^verbatim>\<open>PreferredKeyLen\<close> are its \<open>hash_size\<close>.\<close>

definition PRF_of :: "u16 \<Rightarrow> crypt_error + hash_alg" where
  "PRF_of i =
     (if i = 2 then Ok SHA1 else if i = 5 then Ok SHA256 else if i = 6 then Ok SHA384
      else if i = 7 then Ok SHA512 else Err UnsupportedPRF)"

definition ESPCrypter_of :: "prims \<Rightarrow> u16 \<Rightarrow> int \<Rightarrow> bytes \<Rightarrow> u16 \<Rightarrow> bytes \<Rightarrow> crypt_error + ESPCrypter" where
  "ESPCrypter_of P encrID keyBits encKey integID intgKey =
     (if encrID = ENCR_AES_GCM_16 then NewAESGCMESPCrypter keyBits encKey
      else if encrID = ENCR_CHACHA20_P then NewChaCha20Poly1305ESPCrypter encKey
      else if encrID = ENCR_AES_CBC then (case Integrity_of P integID of
        Err x \<Rightarrow> Err x
      | Ok i \<Rightarrow> NewAESCBCESPCrypter keyBits encKey (Some i) intgKey)
      else Err UnsupportedENCR)"

lemma Integrity_of_ok: "prims_ok P \<Longrightarrow> Integrity_of P i = Ok x \<Longrightarrow> integ_ok x"
  by (auto simp: Integrity_of_def NewHMACIntegrity_def integ_ok_def prims_ok_def split: if_splits)

section \<open>What a sealer promises\<close>

text \<open>
  The contract of the code's cipher interfaces, whatever state they keep: what was sealed opens,
  under the same associated data, to what was sealed, and is longer by a fixed overhead.  A layer
  that pads before it seals and strips after it opens gets its plaintext back.
\<close>

locale packet_sealer =
  fixes agree :: "'s \<Rightarrow> 'r \<Rightarrow> bool"
    and seal :: "prims \<Rightarrow> rand \<Rightarrow> 's \<Rightarrow> bytes \<Rightarrow> bytes \<Rightarrow> crypt_error + bytes"
    and opn :: "prims \<Rightarrow> 'r \<Rightarrow> bytes \<Rightarrow> bytes \<Rightarrow> crypt_error + bytes"
    and overhead :: "'s \<Rightarrow> nat"
  assumes seal_open: "prims_ok P \<Longrightarrow> rand_ok rnd \<Longrightarrow> agree s r \<Longrightarrow> seal P rnd s aad pt = Ok c \<Longrightarrow> opn P r aad c = Ok pt"
    and seal_length: "prims_ok P \<Longrightarrow> rand_ok rnd \<Longrightarrow> agree s r \<Longrightarrow> seal P rnd s aad pt = Ok c \<Longrightarrow> length c = overhead s + length pt"
begin

lemma padded_roundtrip:
  assumes "prims_ok P" "rand_ok rnd" "agree s r" "seal P rnd s aad (pad x) = Ok c" "strip (pad x) = Ok x"
  shows "(case opn P r aad c of Err e \<Rightarrow> Err e | Ok p \<Rightarrow> strip p) = Ok x"
  using seal_open [OF assms(1-4)] assms(5) by simp

lemma seal_binds:
  assumes "prims_ok P" "rand_ok rnd" "rand_ok rnd'" "agree s r" "agree s' r"
    and "seal P rnd s aad pt = Ok c" "seal P rnd' s' aad pt' = Ok c"
  shows "pt = pt'"
  using seal_open [OF assms(1,2,4,6)] seal_open [OF assms(1,3,5,7)] by simp

end

text \<open>The AEAD cipher of IKE.\<close>

interpretation sk_aead: packet_sealer "\<lambda>(kl, g, k) r. r = (kl, g, k)"
  "\<lambda>P rnd (kl, g, k) aad pt. aead_Seal P rnd kl g k aad pt"
  "\<lambda>P (kl, g, k) aad c. aead_Open P kl g k aad c" "\<lambda>_. 24"
  by unfold_locales
    (auto simp: prims_ok_def rand_ok_def aead_Seal_def aead_Open_def split: sum.splits option.splits prod.splits)

text \<open>Encrypt-then-MAC, for IKE and for ESP.\<close>

lemma etm_parts:
  assumes "prims_ok P" "integ_ok i" "length iv = 16" "length pt mod 16 = 0" "ct = cbc_enc P k iv pt" "icv = Integ_Sum i ik m" "b = iv @ ct @ icv"
  shows "length b = 16 + integ_ICVLen i + length pt" "take (16 + length pt) b = iv @ ct"
    "drop (16 + length pt) b = icv" "length ct mod 16 = 0" "cbc_dec P k iv ct = pt"
proof -
  have l: "length icv = integ_ICVLen i" using assms(2,6) by (simp add: length_Integ_Sum)
  have c: "length ct = length pt" "cbc_dec P k iv ct = pt" using assms(1,4,5) by (simp_all add: prims_ok_def)
  show "length b = 16 + integ_ICVLen i + length pt" using l c assms(3,7) by simp
  show "take (16 + length pt) b = iv @ ct" "drop (16 + length pt) b = icv"
    using c assms(3,7) by simp_all
  show "length ct mod 16 = 0" "cbc_dec P k iv ct = pt" using c assms(4) by simp_all
qed

lemma OpenETM_SealETM:
  assumes "prims_ok P" "rand_ok rnd" "integ_ok i" "SealETM P rnd ek ik aad pt i = Ok c"
  shows "OpenETM P ek ik aad c i = Ok pt \<and> length c = 16 + integ_ICVLen i + length pt"
proof -
  from assms(4) obtain v where v: "aes_key_ok ek" "length pt mod 16 = 0" "rnd 16 = Some v"
    "c = v @ cbc_enc P ek v pt @ Integ_Sum i ik (aad @ v @ cbc_enc P ek v pt)"
    by (auto simp: SealETM_def Let_def split: if_splits option.splits)
  have l: "length v = 16" using assms(2) v(3) by (simp add: rand_ok_def)
  note p = etm_parts [OF assms(1,3) l v(2) refl refl v(4)]
  show ?thesis using v(1) l by (simp add: OpenETM_def p Let_def)
qed

interpretation sk_etm: packet_sealer "\<lambda>(ek, ik, i) r. r = (ek, ik, i) \<and> integ_ok i"
  "\<lambda>P rnd (ek, ik, i) aad pt. SealETM P rnd ek ik aad pt i"
  "\<lambda>P (ek, ik, i) aad c. OpenETM P ek ik aad c i" "\<lambda>(ek, ik, i). 16 + integ_ICVLen i"
  by unfold_locales (auto dest: OpenETM_SealETM)

text \<open>
  The ESP crypters.  \<open>aead_inv\<close> is the invariant of the AEAD crypter: once the nonce buffer exists
  it has twelve octets and starts with the salt.  Two crypters agree when they were made from the same
  keys; the counters and buffers of the two ends are independent.
\<close>

definition aead_inv :: "espAEAD \<Rightarrow> bool" where
  "aead_inv g \<longleftrightarrow> length (ea_salt g) = 4 \<and> (\<forall>b. ea_nonce g = Some b \<longrightarrow> length b = 12 \<and> take 4 b = ea_salt g)"

definition crypter_ok :: "ESPCrypter \<Rightarrow> bool" where
  "crypter_ok c = (case c of AEAD g \<Rightarrow> aead_inv g | CBC c \<Rightarrow> integ_ok (ec_integ c))"

definition same_keys :: "ESPCrypter \<Rightarrow> ESPCrypter \<Rightarrow> bool" where
  "same_keys c d = (case (c, d) of
     (AEAD g, AEAD h) \<Rightarrow> ea_alg g = ea_alg h \<and> ea_key g = ea_key h \<and> ea_salt g = ea_salt h
   | (CBC x, CBC y) \<Rightarrow> x = y
   | _ \<Rightarrow> False)"

lemma nonce_buf_shape:
  assumes "aead_inv g"
  shows "length (nonce_buf g) = 12 \<and> take 4 (nonce_buf g) = ea_salt g"
  using assms by (auto simp: nonce_buf_def aead_inv_def put_at_def split: option.splits)

lemma nonce_written:
  assumes "aead_inv g" "length x = 8"
  shows "put_at 4 x (nonce_buf g) = ea_salt g @ x"
  using nonce_buf_shape [OF assms(1)] assms(2) by (simp add: put_at_def)

lemma espAEAD_Seal_eq:
  assumes "aead_inv g"
  shows "espAEAD_Seal P g dst aad pt =
     (if ea_iv g = - 1 then (Err AEADExhausted, g\<lparr>ea_nonce := Some (nonce_buf g)\<rparr>)
      else let x = be64 (ea_iv g + 1) in
        (Ok (dst @ x @ aead_seal P (ea_alg g) (ea_key g) (ea_salt g @ x) aad pt), g\<lparr>ea_nonce := Some (ea_salt g @ x), ea_iv := ea_iv g + 1\<rparr>))"
  using assms by (simp add: espAEAD_Seal_def Let_def nonce_written slice_def aead_inv_def)

lemma espAEAD_OpenInPlace_eq:
  assumes "aead_inv g" "\<not> length c < 24"
  shows "espAEAD_OpenInPlace P g aad c =
     (case aead_open P (ea_alg g) (ea_key g) (ea_salt g @ take 8 c) aad (drop 8 c) of None \<Rightarrow> Err AEADOpen | Some pt \<Rightarrow> Ok pt,
      g\<lparr>ea_nonce := Some (ea_salt g @ take 8 c)\<rparr>)"
  using assms by (simp add: espAEAD_OpenInPlace_def loadNonce_def nonce_written nonce_buf_def [of "g\<lparr>ea_nonce := Some x\<rparr>" for x])

lemma Seal_ok:
  assumes "crypter_ok c"
  shows "crypter_ok (snd (Seal P rnd c dst aad pt))" "same_keys c d \<Longrightarrow> same_keys (snd (Seal P rnd c dst aad pt)) d"
    "ESP_BlockLen (snd (Seal P rnd c dst aad pt)) = ESP_BlockLen c" "Overhead (snd (Seal P rnd c dst aad pt)) = Overhead c"
  using assms nonce_buf_shape
  by (cases c; cases d; auto simp: crypter_ok_def same_keys_def espAEAD_Seal_eq aead_inv_def Let_def)+

lemma OpenInPlace_ok:
  assumes "crypter_ok c"
  shows "crypter_ok (snd (OpenInPlace P c aad b))" "same_keys s c \<Longrightarrow> same_keys s (snd (OpenInPlace P c aad b))"
proof -
  have "aead_inv g \<Longrightarrow> aead_inv (snd (espAEAD_OpenInPlace P g aad b)) \<and> ea_alg (snd (espAEAD_OpenInPlace P g aad b)) = ea_alg g
      \<and> ea_key (snd (espAEAD_OpenInPlace P g aad b)) = ea_key g \<and> ea_salt (snd (espAEAD_OpenInPlace P g aad b)) = ea_salt g" for g
    by (cases "length b < 24") (simp_all add: espAEAD_OpenInPlace_eq, auto simp: espAEAD_OpenInPlace_def aead_inv_def)
  then show "crypter_ok (snd (OpenInPlace P c aad b))" "same_keys s c \<Longrightarrow> same_keys s (snd (OpenInPlace P c aad b))"
    using assms by (cases c; cases s; auto simp: crypter_ok_def same_keys_def)+
qed


lemma espCBC_roundtrip:
  assumes "prims_ok P" "rand_ok rnd" "integ_ok (ec_integ c)" "espCBC_Seal P rnd c [] aad pt = Ok b"
  shows "espCBC_OpenInPlace P c aad b = Ok pt \<and> length b = 16 + integ_ICVLen (ec_integ c) + length pt"
proof -
  from assms(4) obtain v where v: "length pt mod 16 = 0" "rnd 16 = Some v"
    "b = v @ cbc_enc P (ec_block c) v pt @ Integ_Sum (ec_integ c) (ec_integKey c) (aad @ v @ cbc_enc P (ec_block c) v pt)"
    by (auto simp: espCBC_Seal_def Let_def split: if_splits option.splits)
  have l: "length v = 16" using assms(2) v(2) by (simp add: rand_ok_def)
  note p = etm_parts [OF assms(1,3) l v(1) refl refl v(3)]
  show ?thesis using l by (simp add: espCBC_OpenInPlace_def espCBC_verify_def p Let_def)
qed

lemma espAEAD_roundtrip:
  assumes "prims_ok P" "aead_inv g" "aead_inv h" "same_keys (AEAD g) (AEAD h)" "fst (espAEAD_Seal P g [] aad pt) = Ok b"
  shows "fst (espAEAD_OpenInPlace P h aad b) = Ok pt \<and> length b = 24 + length pt"
proof -
  have b: "b = be64 (ea_iv g + 1) @ aead_seal P (ea_alg g) (ea_key g) (ea_salt g @ be64 (ea_iv g + 1)) aad pt"
    using assms(5) by (simp add: espAEAD_Seal_eq [OF assms(2)] Let_def split: if_splits)
  have "length b = 24 + length pt" using assms(1) by (simp add: b prims_ok_def)
  then show ?thesis using assms(1,4) espAEAD_OpenInPlace_eq [OF assms(3), of b]
    by (simp add: b prims_ok_def same_keys_def)
qed

text \<open>Sealing into a buffer appends to it.\<close>

lemma Seal_appends: "fst (Seal P rnd c dst aad pt) = map_sum id (\<lambda>b. dst @ b) (fst (Seal P rnd c [] aad pt))"
    and Seal_state: "snd (Seal P rnd c dst aad pt) = snd (Seal P rnd c [] aad pt)"
  by (cases c; simp add: espAEAD_Seal_def espCBC_Seal_def Let_def split: option.splits)+

interpretation esp_crypter: packet_sealer "\<lambda>c d. crypter_ok c \<and> crypter_ok d \<and> same_keys c d"
  "\<lambda>P rnd c aad pt. fst (Seal P rnd c [] aad pt)" "\<lambda>P d aad b. fst (OpenInPlace P d aad b)" Overhead
proof unfold_locales
  fix P rnd s r aad pt c
  assume a: "prims_ok P" "rand_ok rnd" "crypter_ok s \<and> crypter_ok r \<and> same_keys s r" "fst (Seal P rnd s [] aad pt) = Ok c"
  have "fst (OpenInPlace P r aad c) = Ok pt \<and> length c = Overhead s + length pt"
  proof (cases s)
    case (AEAD g)
    with a(3) obtain h where h: "r = AEAD h" "aead_inv g" "aead_inv h" by (cases r) (auto simp: crypter_ok_def same_keys_def)
    show ?thesis using espAEAD_roundtrip [OF a(1) h(2,3), of aad pt c] a(3,4) AEAD h(1) by simp
  next
    case (CBC x)
    with a(3) have h: "r = CBC x" "integ_ok (ec_integ x)" by (cases r; auto simp: crypter_ok_def same_keys_def)+
    show ?thesis using espCBC_roundtrip [OF a(1,2) h(2), of aad pt c] a(4) CBC h(1) by simp
  qed
  then show "fst (OpenInPlace P r aad c) = Ok pt" "length c = Overhead s + length pt" by simp_all
qed

text \<open>Every crypter the registry makes satisfies the invariant.\<close>

lemma newESPAEAD_ok: "length slt = 4 \<Longrightarrow> crypter_ok (newESPAEAD g k slt)"
  by (simp add: crypter_ok_def newESPAEAD_def aead_inv_def)

lemma ESPCrypter_of_ok:
  assumes "prims_ok P" "ESPCrypter_of P e kb ek i ik = Ok c"
  shows "crypter_ok c"
  using assms(2) Integrity_of_ok [OF assms(1), of i]
  by (auto simp: ESPCrypter_of_def NewAESGCMESPCrypter_def NewChaCha20Poly1305ESPCrypter_def NewAESCBCESPCrypter_def Let_def
        intro!: newESPAEAD_ok split: if_splits sum.splits) (simp_all add: crypter_ok_def)

lemma same_keys_refl [simp]: "same_keys c c"
  by (cases c) (simp_all add: same_keys_def)

text \<open>What opens, and to what, depends on the keys only.\<close>

lemma OpenInPlace_keys:
  assumes "crypter_ok c" "crypter_ok d" "same_keys c d"
  shows "fst (OpenInPlace P c aad b) = fst (OpenInPlace P d aad b)"
  using assms
  by (cases c; cases d; cases "length b < 24")
     (auto simp: crypter_ok_def same_keys_def espAEAD_OpenInPlace_eq, auto simp: espAEAD_OpenInPlace_def)

lemma same_keys_trans: "same_keys a b \<Longrightarrow> same_keys b c \<Longrightarrow> same_keys a c"
  by (cases a; cases b; cases c) (auto simp: same_keys_def)

lemma same_keys_sym: "same_keys a b \<Longrightarrow> same_keys b a"
  by (cases a; cases b) (auto simp: same_keys_def)

section \<open>Nonces\<close>

text \<open>
  A run of the AEAD crypter: seals and opens in any order.  \<open>sealed_nonces\<close> collects the nonce each
  successful seal used: the salt followed by the IV it wrote.
\<close>

datatype crypt_op = DoSeal bytes bytes bytes | DoOpen bytes bytes

fun crypt_step :: "prims \<Rightarrow> crypt_op \<Rightarrow> espAEAD \<Rightarrow> espAEAD" where
  "crypt_step P (DoSeal dst aad pt) g = snd (espAEAD_Seal P g dst aad pt)"
| "crypt_step P (DoOpen aad b) g = snd (espAEAD_OpenInPlace P g aad b)"

fun sealed_nonces :: "prims \<Rightarrow> crypt_op list \<Rightarrow> espAEAD \<Rightarrow> bytes list" where
  "sealed_nonces P [] g = []"
| "sealed_nonces P (op # ops) g =
     (let g' = crypt_step P op g in
      (case op of
         DoSeal dst aad pt \<Rightarrow> (case fst (espAEAD_Seal P g dst aad pt) of Err _ \<Rightarrow> [] | Ok _ \<Rightarrow> [nonce_buf g'])
       | DoOpen _ _ \<Rightarrow> [])
      @ sealed_nonces P ops g')"

lemma crypt_step_inv:
  assumes "aead_inv g"
  shows "aead_inv (crypt_step P op g) \<and> ea_salt (crypt_step P op g) = ea_salt g"
proof (cases op)
  case (DoSeal dst aad pt)
  have "crypter_ok (snd (Seal P (\<lambda>_. None) (AEAD g) dst aad pt))" using assms by (intro Seal_ok) (simp add: crypter_ok_def)
  then show ?thesis using DoSeal assms by (auto simp: crypter_ok_def espAEAD_Seal_eq Let_def)
next
  case (DoOpen aad b)
  have "crypter_ok (snd (OpenInPlace P (AEAD g) aad b))" using assms by (intro OpenInPlace_ok) (simp add: crypter_ok_def)
  then show ?thesis using DoOpen assms
    by (cases "length b < 24") (auto simp: crypter_ok_def espAEAD_OpenInPlace_eq, auto simp: espAEAD_OpenInPlace_def)
qed

lemma open_keeps_iv: "ea_iv (snd (espAEAD_OpenInPlace P g aad b)) = ea_iv g"
  by (simp add: espAEAD_OpenInPlace_def loadNonce_def Let_def)

lemma be64_inj: "be64 x = be64 y \<Longrightarrow> x = y"
  by (metis be_val_be64 word_unat_eq_iff)

lemma sealed_nonces_above:
  assumes "aead_inv g"
  shows "\<forall>n \<in> set (sealed_nonces P ops g). \<exists>i > ea_iv g. n = ea_salt g @ be64 i"
    and "distinct (sealed_nonces P ops g)"
proof -
  have "(\<forall>n \<in> set (sealed_nonces P ops g). \<exists>i > ea_iv g. n = ea_salt g @ be64 i) \<and> distinct (sealed_nonces P ops g)"
    using assms
  proof (induction ops arbitrary: g)
    case Nil
    then show ?case by simp
  next
    case (Cons op ops)
    define g' where "g' = crypt_step P op g"
    have inv: "aead_inv g'" "ea_salt g' = ea_salt g" using crypt_step_inv [OF Cons.prems, of P op] by (simp_all add: g'_def)
    note IH = Cons.IH [OF inv(1), unfolded inv(2)]
    show ?case
    proof (cases "\<exists>dst aad pt. op = DoSeal dst aad pt \<and> ea_iv g \<noteq> - 1")
      case True
      then obtain dst aad pt where op: "op = DoSeal dst aad pt" and i: "ea_iv g \<noteq> - 1" by blast
      have g': "g' = g\<lparr>ea_nonce := Some (ea_salt g @ be64 (ea_iv g + 1)), ea_iv := ea_iv g + 1\<rparr>"
        using op i by (simp add: g'_def espAEAD_Seal_eq [OF Cons.prems] Let_def)
      have lt: "ea_iv g < ea_iv g + 1" using i unat_inc [of "ea_iv g"] by (simp add: word_less_nat_alt word_order.not_eq_extremum)
      have s: "crypt_step P op g = g'" "\<exists>b. fst (espAEAD_Seal P g dst aad pt) = Ok b"
        using i by (simp_all add: g'_def espAEAD_Seal_eq [OF Cons.prems] Let_def)
      have e: "sealed_nonces P (op # ops) g = (ea_salt g @ be64 (ea_iv g + 1)) # sealed_nonces P ops g'"
        using s(2) unfolding sealed_nonces.simps s(1) Let_def by (auto simp: op g' nonce_buf_def)
      have a: "\<forall>n \<in> set (sealed_nonces P ops g'). \<exists>i > ea_iv g + 1. n = ea_salt g @ be64 i"
        using IH by (simp add: g')
      have "ea_salt g @ be64 (ea_iv g + 1) \<notin> set (sealed_nonces P ops g')" using a by (auto dest: be64_inj)
      moreover have "\<forall>n \<in> set (sealed_nonces P ops g'). \<exists>i > ea_iv g. n = ea_salt g @ be64 i"
        using a lt by (meson less_trans)
      ultimately show ?thesis unfolding e using IH lt by auto
    next
      case False
      then have "sealed_nonces P (op # ops) g = sealed_nonces P ops g'"
        by (cases op) (simp_all add: g'_def espAEAD_Seal_eq [OF Cons.prems] Let_def)
      moreover have "ea_iv g' = ea_iv g" using False
        by (cases op) (simp_all add: g'_def open_keeps_iv espAEAD_Seal_eq [OF Cons.prems])
      ultimately show ?thesis using IH by simp
    qed
  qed
  then show "\<forall>n \<in> set (sealed_nonces P ops g). \<exists>i > ea_iv g. n = ea_salt g @ be64 i" "distinct (sealed_nonces P ops g)" by simp_all
qed


section \<open>Properties\<close>

text \<open>
  C9: an AEAD crypter made from key material never uses a nonce twice, whatever it seals and opens
  and in whatever order: every successful seal uses the key's salt followed by an IV of its own, so
  that no two packets are protected under one key and nonce; when the IV space is spent sealing fails
  instead of starting over, and nothing else makes it fail.
\<close>

theorem esp_nonces_never_repeat:
  assumes "NewAESGCMESPCrypter keyBits encKey = Ok (AEAD g) \<or> NewChaCha20Poly1305ESPCrypter encKey = Ok (AEAD g)"
  shows "distinct (sealed_nonces P ops g)
    \<and> (\<forall>n \<in> set (sealed_nonces P ops g). length n = 12 \<and> take 4 n = ea_salt g)
    \<and> (\<forall>dst aad pt e. fst (espAEAD_Seal P (fold (crypt_step P) ops g) dst aad pt) = Err e \<longleftrightarrow>
         e = AEADExhausted \<and> ea_iv (fold (crypt_step P) ops g) = - 1)"
proof -
  have inv: "aead_inv g"
    using assms by (auto simp: NewAESGCMESPCrypter_def NewChaCha20Poly1305ESPCrypter_def newESPAEAD_def aead_inv_def Let_def
        split: sum.splits if_splits)
  have inv': "aead_inv (fold (crypt_step P) ops g)"
    using inv by (induction ops arbitrary: g) (simp_all add: crypt_step_inv)
  have "\<forall>n \<in> set (sealed_nonces P ops g). length n = 12 \<and> take 4 n = ea_salt g"
  proof
    fix n assume "n \<in> set (sealed_nonces P ops g)"
    with sealed_nonces_above(1) [OF inv, of P ops] obtain i where "n = ea_salt g @ be64 i" by blast
    then show "length n = 12 \<and> take 4 n = ea_salt g" using inv by (simp add: aead_inv_def)
  qed
  moreover have "\<forall>dst aad pt e. fst (espAEAD_Seal P (fold (crypt_step P) ops g) dst aad pt) = Err e \<longleftrightarrow>
       e = AEADExhausted \<and> ea_iv (fold (crypt_step P) ops g) = - 1"
    by (auto simp: espAEAD_Seal_eq [OF inv'] Let_def)
  ultimately show ?thesis using sealed_nonces_above(2) [OF inv] by simp
qed

lemma esp_nonces_never_repeat_witness:
  "\<exists>g. NewAESGCMESPCrypter 256 (replicate 36 7) = Ok (AEAD g) \<and>
     distinct (sealed_nonces example_prims [DoSeal [] [1] [2], DoOpen [] (replicate 24 9), DoSeal [] [1] [3]] g)"
proof -
  obtain g where g: "NewAESGCMESPCrypter 256 (replicate 36 7) = Ok (AEAD g)"
    by (simp add: NewAESGCMESPCrypter_def aesKeyLen_def newESPAEAD_def aes_key_ok_def)
  show ?thesis using g esp_nonces_never_repeat [of 256 "replicate 36 7" g example_prims "[DoSeal [] [1] [2], DoOpen [] (replicate 24 9), DoSeal [] [1] [3]]"]
    by blast
qed

text \<open>
  C40: \<^verbatim>\<open>prf+\<close> returns, with exactly the number of octets asked for, the beginning of
  the concatenated blocks of RFC 7296 (each the PRF of the block before, the seed and its index), for every PRF
  of a fixed positive output length.
\<close>

theorem prf_plus_exact:
  assumes "\<And>m. length (mk key m) = sz" and "0 < sz"
  shows "\<exists>out. Plus mk key seed n = Some out \<and> length out = n
    \<and> out = take n (prf_stream (mk key) seed ((n + sz - 1) div sz))"
  by (rule Plus_exact [where mk = mk and key = key, OF assms])

lemma prf_plus_exact_witness:
  "\<exists>out. Plus (\<lambda>k m. [last m, of_nat (length m)]) [7] [5] 3 = Some out \<and> length out = 3 \<and> out = [1, 2, 2]"
proof -
  have "prf_stream (\<lambda>m. [last m, of_nat (length m)]) [5] (Suc (Suc 0)) = [1, 2, 2, 4]"
    by (simp add: prf_stream_Suc)
  then show ?thesis
    using prf_plus_exact [of "\<lambda>k m. [last m, of_nat (length m)]" "[7]" 2 "[5]" 3] by (simp add: numeral_2_eq_2 [symmetric])
qed

end
