(* ===== verification/Aggfrag.thy ===== *)
theory Aggfrag
  imports Prelude "HOL-Library.Sublist"
begin

text \<open>
  The AGGFRAG payload of IP-TFS: the packer and reassembler of
  \<^verbatim>\<open>internal/ikev2/aggfrag/codec.go\<close>, and the constant-rate sender of
  \<^verbatim>\<open>internal/ikev2/ike/aggfrag_pacer.go\<close>.  The buffers the code reuses between calls
  (\<^verbatim>\<open>buf\<close>, \<^verbatim>\<open>pendingBuf\<close>, \<^verbatim>\<open>out\<close>) are values here; a nil slice that the code tells apart from
  an empty one (\<^verbatim>\<open>partial\<close>) is an option.
\<close>

section \<open>The format\<close>

definition SubTypeNonCongestionControlled :: byte where "SubTypeNonCongestionControlled = 0"
definition HeaderLen :: nat where "HeaderLen = 4"
definition BlockTypePad :: byte where "BlockTypePad = 0x0"
definition BlockTypeIPv4 :: byte where "BlockTypeIPv4 = 0x4"
definition BlockTypeIPv6 :: byte where "BlockTypeIPv6 = 0x6"

lemmas block_types = BlockTypePad_def BlockTypeIPv4_def BlockTypeIPv6_def SubTypeNonCongestionControlled_def

datatype aggfrag_error = AggErrShort | AggErrSubType | AggErrBlockOffset | AggErrBlockType

definition AppendHeader :: "bytes \<Rightarrow> u16 \<Rightarrow> bytes" where
  "AppendHeader dst blockOffset = (dst @ [SubTypeNonCongestionControlled, 0]) @ be16 blockOffset"

definition ParseHeader :: "bytes \<Rightarrow> aggfrag_error + u16" where
  "ParseHeader pkt =
     (if length pkt < HeaderLen then Err AggErrShort
      else if pkt ! 0 \<noteq> SubTypeNonCongestionControlled then Err AggErrSubType
      else Ok (get16 2 pkt))"

definition innerLen :: "bytes \<Rightarrow> nat" where
  "innerLen b =
     (if length b < 1 then 0
      else if drop_bit 4 (b ! 0) = 4 then
        (if length b < 20 then 0 else let n = unat (get16 2 b) in if n < 20 then 0 else n)
      else if drop_bit 4 (b ! 0) = 6 then
        (if length b < 40 then 0 else unat (get16 4 b) + 40)
      else 0)"

definition takeComplete :: "bytes \<Rightarrow> bytes option" where
  "takeComplete b = (let n = innerLen b in if n = 0 \<or> n > length b then None else Some (take n b))"

section \<open>The packer\<close>

record Packer =
  agg_pending :: bytes

definition NewPacker :: Packer where
  "NewPacker = \<lparr>agg_pending = []\<rparr>"

definition Pending :: "Packer \<Rightarrow> bool" where
  "Pending p \<longleftrightarrow> length (agg_pending p) > 0"

text \<open>The loop over new packets: the payload so far, the room left, the tail of a split packet.\<close>

fun pack_loop :: "bytes list \<Rightarrow> bytes \<Rightarrow> nat \<Rightarrow> bytes \<times> nat \<times> bytes \<times> bytes list" where
  "pack_loop [] buf room = (buf, room, [], [])"
| "pack_loop (pkt # pkts) buf room =
     (if room = 0 then (buf, room, [], pkt # pkts)
      else if length pkt \<le> room then pack_loop pkts (buf @ pkt) (room - length pkt)
      else (buf @ take room pkt, 0, drop room pkt, pkts))"

definition Pack :: "bytes list \<Rightarrow> int \<Rightarrow> Packer \<Rightarrow> (bytes option \<times> bytes list) \<times> Packer" where
  "Pack pkts sz p =
     (if sz < int HeaderLen + 1 then ((None, pkts), p)
      else let room = nat (sz - int HeaderLen);
               blockOffset = (if length (agg_pending p) > 0 then min (length (agg_pending p)) room else 0);
               buf = AppendHeader [] (of_nat blockOffset) @ take blockOffset (agg_pending p);
               pending = drop blockOffset (agg_pending p);
               room = room - blockOffset;
               (buf, room, pending, pkts) =
                 (if length pending = 0 then pack_loop pkts buf room else (buf, room, pending, pkts))
           in ((Some (buf @ replicate room 0), pkts), \<lparr>agg_pending = pending\<rparr>))"

section \<open>The reassembler\<close>

record Reassembler =
  partial :: "bytes option"

definition NewReassembler :: Reassembler where
  "NewReassembler = \<lparr>partial = None\<rparr>"

lemma innerLen_pos_drop [termination_simp]: "innerLen b \<noteq> 0 \<Longrightarrow> length b - innerLen b < length b"
  by (cases b) (auto simp: innerLen_def Let_def)

text \<open>The loop over the blocks of a payload: the packets, the head of a split block, the error.\<close>

function blocks_loop :: "bytes list \<Rightarrow> bytes \<Rightarrow> bytes list \<times> bytes option \<times> aggfrag_error option" where
  "blocks_loop out data =
     (if length data = 0 then (out, None, None)
      else if drop_bit 4 (data ! 0) = BlockTypePad then (out, None, None)
      else if drop_bit 4 (data ! 0) = BlockTypeIPv4 \<or> drop_bit 4 (data ! 0) = BlockTypeIPv6 then
        (let n = innerLen data in
         if n = 0 then (out, Some data, None)
         else if n > length data then (out, Some data, None)
         else blocks_loop (out @ [take n data]) (drop n data))
      else (out, None, Some AggErrBlockType))"
  by pat_completeness auto
termination
  by (relation "measure (\<lambda>(out, data). length data)") (auto intro: innerLen_pos_drop)

declare blocks_loop.simps [simp del]

definition Feed :: "bytes \<Rightarrow> Reassembler \<Rightarrow> (bytes list \<times> aggfrag_error option) \<times> Reassembler" where
  "Feed payload r = (case ParseHeader payload of
     Err x \<Rightarrow> (([], Some x), r)
   | Ok hdr \<Rightarrow>
       let data = drop HeaderLen payload; off = unat hdr in
       if off > length data then (([], Some AggErrBlockOffset), r)
       else if off > 0 then
         (case partial r of
            None \<Rightarrow> (case blocks_loop [] (drop off data) of (out, part, x) \<Rightarrow> ((out, x), \<lparr>partial = part\<rparr>))
          | Some head \<Rightarrow>
              let joined = head @ take off data in
              (case takeComplete joined of
                 None \<Rightarrow> (([], None), \<lparr>partial = Some joined\<rparr>)
               | Some pkt \<Rightarrow>
                   (case blocks_loop [pkt] (drop off data) of (out, part, x) \<Rightarrow> ((out, x), \<lparr>partial = part\<rparr>))))
       else (case blocks_loop [] data of (out, part, x) \<Rightarrow> ((out, x), \<lparr>partial = part\<rparr>)))"

section \<open>The negotiation flags\<close>

definition FlagDontFragment :: byte where "FlagDontFragment = 1"
definition FlagCongestionControl :: byte where "FlagCongestionControl = 2"
definition flagsReserved :: byte where "flagsReserved = 0xfc"
definition OurFlags :: byte where "OurFlags = 0"

definition NotifyData :: "byte \<Rightarrow> bytes" where
  "NotifyData f = [f]"

definition ParseFlags :: "bytes \<Rightarrow> byte option" where
  "ParseFlags data = (if length data \<noteq> 1 then None else Some (data ! 0))"

definition Unsupported :: "byte \<Rightarrow> bool" where
  "Unsupported f \<longleftrightarrow> f AND (FlagCongestionControl OR flagsReserved) \<noteq> 0"

definition MustNotFragment :: "byte \<Rightarrow> bool" where
  "MustNotFragment f \<longleftrightarrow> f AND FlagDontFragment \<noteq> 0"

section \<open>Packets that say their own length\<close>

definition ip_packet :: "bytes \<Rightarrow> bool" where
  "ip_packet q \<longleftrightarrow> q \<noteq> [] \<and> innerLen q = length q"

lemma ip_packet_type:
  assumes "ip_packet q"
  shows "drop_bit 4 (q ! 0) = BlockTypeIPv4 \<and> 20 \<le> length q \<or> drop_bit 4 (q ! 0) = BlockTypeIPv6 \<and> 40 \<le> length q"
  using assms by (auto simp: ip_packet_def innerLen_def block_types Let_def split: if_splits)

lemma innerLen_append:
  assumes "ip_packet q"
  shows "innerLen (q @ r) = length q"
proof -
  have l: "20 \<le> length q \<Longrightarrow> get16 2 (q @ r) = get16 2 q" "40 \<le> length q \<Longrightarrow> get16 4 (q @ r) = get16 4 q"
    by (simp_all add: get16_append(2))
  have n: "(q @ r) ! 0 = q ! 0" using assms by (cases q) (auto simp: ip_packet_def)
  have "innerLen (q @ r) = innerLen q"
    using ip_packet_type [OF assms] l n by (auto simp: innerLen_def block_types)
  then show ?thesis using assms by (simp add: ip_packet_def)
qed

text \<open>A proper head of a packet is recognised as one, however short.\<close>

lemma innerLen_head:
  assumes "ip_packet (a @ b)" and "a \<noteq> []" and "b \<noteq> []"
  shows "innerLen a = 0 \<or> innerLen a > length a"
    and "drop_bit 4 (a ! 0) = BlockTypeIPv4 \<or> drop_bit 4 (a ! 0) = BlockTypeIPv6"
proof -
  have n: "(a @ b) ! 0 = a ! 0" using assms(2) by (cases a) auto
  have q: "innerLen (a @ b) = length a + length b" using assms(1) by (simp add: ip_packet_def)
  show "drop_bit 4 (a ! 0) = BlockTypeIPv4 \<or> drop_bit 4 (a ! 0) = BlockTypeIPv6" using ip_packet_type [OF assms(1)] n by auto
  have "20 \<le> length a \<Longrightarrow> get16 2 (a @ b) = get16 2 a" "40 \<le> length a \<Longrightarrow> get16 4 (a @ b) = get16 4 a"
    by (simp_all add: get16_append(2))
  then have "innerLen a = 0 \<or> innerLen a = innerLen (a @ b)"
    using n by (auto simp: innerLen_def Let_def)
  then show "innerLen a = 0 \<or> innerLen a > length a" using q assms(3) by auto
qed

lemma takeComplete_packet: "ip_packet q \<Longrightarrow> takeComplete q = Some q"
  by (simp add: takeComplete_def ip_packet_def)

lemma takeComplete_head: "ip_packet (a @ b) \<Longrightarrow> a \<noteq> [] \<Longrightarrow> b \<noteq> [] \<Longrightarrow> takeComplete a = None"
  using innerLen_head(1) [of a b] by (auto simp: takeComplete_def Let_def)

section \<open>Reading a run of blocks\<close>

lemma blocks_loop_packets:
  "\<forall>q \<in> set qs. ip_packet q \<Longrightarrow> blocks_loop out (concat qs @ rest) = blocks_loop (out @ qs) rest"
proof (induction qs arbitrary: out)
  case (Cons q qs)
  then have q: "ip_packet q" by simp
  let ?d = "q @ concat qs @ rest"
  have "?d ! 0 = q ! 0" "?d \<noteq> []" using q by (cases q; simp add: ip_packet_def)+
  moreover have "innerLen ?d = length q" using q by (rule innerLen_append)
  ultimately have "blocks_loop out ?d = blocks_loop (out @ [q]) (concat qs @ rest)"
    using ip_packet_type [OF q] q by (subst blocks_loop.simps) (auto simp: block_types ip_packet_def)
  then show ?case using Cons by simp
qed simp

lemma blocks_loop_pad: "blocks_loop out (replicate k 0) = (out, None, None)"
  by (subst blocks_loop.simps) (simp add: BlockTypePad_def)

lemma blocks_loop_head:
  assumes "ip_packet (a @ b)" and "a \<noteq> []" and "b \<noteq> []"
  shows "blocks_loop out a = (out, Some a, None)"
  using innerLen_head [OF assms] assms(2) by (subst blocks_loop.simps) (auto simp: block_types Let_def)

section \<open>One payload from packer to reassembler\<close>

text \<open>What the loop over new packets put into the payload: whole packets, then perhaps a head.\<close>

lemma pack_loop_spec:
  assumes "pack_loop pkts buf room = (buf', room', pend, rest)" and "\<forall>q \<in> set pkts. ip_packet q"
  shows "\<exists>body. buf' = buf @ body \<and> length body + room' = room
    \<and> room' = room - length (concat pkts) \<and> length pend + length (concat rest) = length (concat pkts) - room
    \<and> (\<forall>out. \<exists>qs. blocks_loop out (body @ replicate room' 0) = (out @ qs, if pend = [] then None else Some (drop (length (concat qs)) body), None)
          \<and> pkts = qs @ (if pend = [] then [] else [drop (length (concat qs)) body @ pend]) @ rest
          \<and> (pend \<noteq> [] \<longrightarrow> drop (length (concat qs)) body \<noteq> []))"
  using assms
proof (induction pkts buf room rule: pack_loop.induct)
  case (1 buf room)
  then show ?case using blocks_loop_pad by (intro exI [of _ "[]"]) auto
next
  case (2 pkt pkts buf room)
  have ip: "ip_packet pkt" "pkt \<noteq> []" "\<forall>q \<in> set pkts. ip_packet q" using 2(3) by (auto simp: ip_packet_def)
  consider "room = 0" | "room \<noteq> 0" "length pkt \<le> room" | "room \<noteq> 0" "length pkt > room" by linarith
  then show ?case
  proof cases
    case 1
    then show ?thesis using 2(2) blocks_loop_pad [of _ 0] by (intro exI [of _ "[]"]) auto
  next
    case 2
    note C = this
    then have "pack_loop pkts (buf @ pkt) (room - length pkt) = (buf', room', pend, rest)" using \<open>pack_loop (pkt # pkts) buf room = _\<close> by simp
    from "2.IH" [OF C(1) C(2) this ip(3)] obtain body where b: "buf' = (buf @ pkt) @ body" "length body + room' = room - length pkt"
      "room' = room - length pkt - length (concat pkts)" "length pend + length (concat rest) = length (concat pkts) - (room - length pkt)"
      and f: "\<forall>out. \<exists>qs. blocks_loop out (body @ replicate room' 0) = (out @ qs, if pend = [] then None else Some (drop (length (concat qs)) body), None)
          \<and> pkts = qs @ (if pend = [] then [] else [drop (length (concat qs)) body @ pend]) @ rest
          \<and> (pend \<noteq> [] \<longrightarrow> drop (length (concat qs)) body \<noteq> [])" by blast
    have "\<exists>qs. blocks_loop out ((pkt @ body) @ replicate room' 0) = (out @ qs, if pend = [] then None else Some (drop (length (concat qs)) (pkt @ body)), None)
          \<and> pkt # pkts = qs @ (if pend = [] then [] else [drop (length (concat qs)) (pkt @ body) @ pend]) @ rest
          \<and> (pend \<noteq> [] \<longrightarrow> drop (length (concat qs)) (pkt @ body) \<noteq> [])" for out
    proof -
      obtain qs where q: "blocks_loop (out @ [pkt]) (body @ replicate room' 0) = ((out @ [pkt]) @ qs, if pend = [] then None else Some (drop (length (concat qs)) body), None)"
        "pkts = qs @ (if pend = [] then [] else [drop (length (concat qs)) body @ pend]) @ rest"
        "pend \<noteq> [] \<longrightarrow> drop (length (concat qs)) body \<noteq> []" using f by blast
      have "blocks_loop out ((pkt @ body) @ replicate room' 0) = blocks_loop (out @ [pkt]) (body @ replicate room' 0)"
        using blocks_loop_packets [of "[pkt]" out "body @ replicate room' 0"] ip(1) by simp
      then show ?thesis using q by (intro exI [of _ "pkt # qs"]) auto
    qed
    then show ?thesis using b C by (intro exI [of _ "pkt @ body"]) auto
  next
    case 3
    then have r: "buf' = buf @ take room pkt" "room' = 0" "pend = drop room pkt" "rest = pkts"
      using \<open>pack_loop (pkt # pkts) buf room = _\<close> by auto
    have "blocks_loop out (take room pkt) = (out, Some (take room pkt), None)" for out
      using 3 ip(1,2) by (intro blocks_loop_head [of _ "drop room pkt"]) auto
    then show ?thesis using 3 r ip(2) by (intro exI [of _ "take room pkt"]) (auto intro!: exI [of _ "[]"])
  qed
qed

text \<open>
  The two ends are in step when the reassembler holds the head of the packet whose tail the packer
  holds; \<open>owed\<close> is that packet.
\<close>

definition in_step :: "Packer \<Rightarrow> Reassembler \<Rightarrow> bool" where
  "in_step p r \<longleftrightarrow> (case partial r of
     None \<Rightarrow> agg_pending p = []
   | Some a \<Rightarrow> a \<noteq> [] \<and> agg_pending p \<noteq> [] \<and> ip_packet (a @ agg_pending p))"

definition owed :: "Packer \<Rightarrow> Reassembler \<Rightarrow> bytes list" where
  "owed p r = (case partial r of None \<Rightarrow> [] | Some a \<Rightarrow> [a @ agg_pending p])"

definition backlog :: "Packer \<Rightarrow> bytes list \<Rightarrow> nat" where
  "backlog p pkts = length (agg_pending p) + length (concat pkts)"

lemma Feed_payload:
  assumes "off < 65536" and "off \<le> length data"
  shows "Feed (AppendHeader [] (of_nat off) @ data) r =
    (if off > 0 then
       (case partial r of
          None \<Rightarrow> (case blocks_loop [] (drop off data) of (out, part, x) \<Rightarrow> ((out, x), \<lparr>partial = part\<rparr>))
        | Some head \<Rightarrow>
            (case takeComplete (head @ take off data) of
               None \<Rightarrow> (([], None), \<lparr>partial = Some (head @ take off data)\<rparr>)
             | Some pkt \<Rightarrow> (case blocks_loop [pkt] (drop off data) of (out, part, x) \<Rightarrow> ((out, x), \<lparr>partial = part\<rparr>))))
     else (case blocks_loop [] data of (out, part, x) \<Rightarrow> ((out, x), \<lparr>partial = part\<rparr>)))"
proof -
  have u: "unat (of_nat off :: u16) = off" using assms(1) by (intro unat_of_nat_small) simp
  have "ParseHeader (AppendHeader [] (of_nat off) @ data) = Ok (of_nat off)"
    by (simp add: ParseHeader_def AppendHeader_def HeaderLen_def wire_simps SubTypeNonCongestionControlled_def)
  moreover have "drop HeaderLen (AppendHeader [] (of_nat off) @ data) = data" by (simp add: AppendHeader_def HeaderLen_def)
  ultimately show ?thesis using assms(2) by (simp add: Feed_def Let_def u split: option.split)
qed

lemma Pack_form:
  assumes "5 \<le> sz" and pe: "pe = agg_pending p" and room: "room = nat (sz - 4)"
  shows "Pack pkts sz p =
    (if length pe > room then ((Some (AppendHeader [] (of_nat room) @ take room pe), pkts), \<lparr>agg_pending = drop room pe\<rparr>)
     else case pack_loop pkts (AppendHeader [] (of_nat (length pe)) @ pe) (room - length pe) of
       (buf, room', pend, rest) \<Rightarrow> ((Some (buf @ replicate room' 0), rest), \<lparr>agg_pending = pend\<rparr>))"
proof -
  have s: "\<not> sz < int HeaderLen + 1" "nat (sz - int HeaderLen) = room" using assms by (simp_all add: HeaderLen_def)
  have "(if length pe > 0 then min (length pe) room else 0) = min (length pe) room" by simp
  then show ?thesis unfolding Pack_def Let_def pe [symmetric] using s
    by (cases "length pe > room") (auto simp: case_prod_beta)
qed

lemma Pack_Feed:
  assumes "in_step p r" and "\<forall>q \<in> set pkts. ip_packet q" and "5 \<le> sz" and "sz \<le> 65539"
    and "Pack pkts sz p = ((payload, rest), p')"
  obtains out r' y where "payload = Some y" "int (length y) = sz" "Feed y r = ((out, None), r')" "in_step p' r'"
    "owed p r @ pkts = out @ owed p' r' @ rest" "backlog p' rest = backlog p pkts - nat (sz - 4)"
proof -
  define room where "room = nat (sz - 4)"
  define pe where "pe = agg_pending p"
  have room: "0 < room" "room < 65536" "int room + 4 = sz" using assms(3,4) by (auto simp: room_def)
  show thesis
  proof (cases "length pe > room")
    case True
    let ?y = "AppendHeader [] (of_nat room) @ take room pe"
    have P: "payload = Some ?y" "rest = pkts" "p' = \<lparr>agg_pending = drop room pe\<rparr>"
      using assms(5) True by (simp_all add: Pack_form [OF assms(3) pe_def room_def])
    obtain a where a: "partial r = Some a" "a \<noteq> []" "ip_packet (a @ pe)"
      using assms(1) True by (auto simp: in_step_def pe_def split: option.splits)
    have n: "takeComplete (a @ take room pe) = None"
      using a True by (intro takeComplete_head [of _ "drop room pe"]) auto
    have F: "Feed ?y r = (([], None), \<lparr>partial = Some (a @ take room pe)\<rparr>)"
      using True room a(1) n by (subst Feed_payload) auto
    show thesis
      by (rule that [OF P(1) _ F]) (use True room a P in \<open>auto simp: AppendHeader_def in_step_def owed_def backlog_def pe_def\<close>)
  next
    case False
    let ?h = "AppendHeader [] (of_nat (length pe)) @ pe"
    obtain buf' room' pend rest' where L: "pack_loop pkts ?h (room - length pe) = (buf', room', pend, rest')" by (metis prod_cases4)
    have P: "payload = Some (buf' @ replicate room' 0)" "rest = rest'" "p' = \<lparr>agg_pending = pend\<rparr>"
      using assms(5) False L by (simp_all add: Pack_form [OF assms(3) pe_def room_def])
    from pack_loop_spec [OF L assms(2)] obtain body where b: "buf' = ?h @ body" "length body + room' = room - length pe"
      "length pend + length (concat rest') = length (concat pkts) - (room - length pe)"
      and f: "\<forall>out. \<exists>qs. blocks_loop out (body @ replicate room' 0) = (out @ qs, if pend = [] then None else Some (drop (length (concat qs)) body), None)
          \<and> pkts = qs @ (if pend = [] then [] else [drop (length (concat qs)) body @ pend]) @ rest'
          \<and> (pend \<noteq> [] \<longrightarrow> drop (length (concat qs)) body \<noteq> [])" by blast
    obtain qs where q: "blocks_loop (owed p r) (body @ replicate room' 0) = (owed p r @ qs, if pend = [] then None else Some (drop (length (concat qs)) body), None)"
        "pkts = qs @ (if pend = [] then [] else [drop (length (concat qs)) body @ pend]) @ rest'"
        "pend \<noteq> [] \<longrightarrow> drop (length (concat qs)) body \<noteq> []" using f by blast
    let ?r' = "\<lparr>partial = (if pend = [] then None else Some (drop (length (concat qs)) body))\<rparr>"
    have F: "Feed (AppendHeader [] (of_nat (length pe)) @ pe @ body @ replicate room' 0) r = ((owed p r @ qs, None), ?r')"
      using assms(1) False room q(1) takeComplete_packet
      by (subst Feed_payload) (auto simp: in_step_def owed_def pe_def split: option.splits)
    have ip: "pend \<noteq> [] \<Longrightarrow> ip_packet (drop (length (concat qs)) body @ pend)"
      using assms(2) by (subst (asm) q(2)) auto
    show thesis
      by (rule that [OF P(1)]) (use F b q ip P(2,3) False room in \<open>auto simp: AppendHeader_def in_step_def owed_def backlog_def pe_def\<close>)
  qed
qed

section \<open>The constant-rate sender\<close>

definition pacerQueueDepth :: nat where "pacerQueueDepth = 256"
definition iptfsPayloadSize :: int where "iptfsPayloadSize = 1400"
definition pacerMinInterval :: int where "pacerMinInterval = 100000"

text \<open>
  \<^verbatim>\<open>pacing\<close>: the ticker period in nanoseconds and the payloads per tick.  Go's division
  truncates; all operands are positive here.
\<close>

definition pacing :: "int \<Rightarrow> int \<Rightarrow> int \<times> int" where
  "pacing rate payloadSize =
     (if rate \<le> 0 \<or> payloadSize \<le> 0 then (0, 0)
      else let perPayload = payloadSize * 1000000000 div rate in
           if perPayload \<ge> pacerMinInterval then (perPayload, 1)
           else let perPayload = (if perPayload \<le> 0 then 1 else perPayload);
                    n = (pacerMinInterval + perPayload - 1) div perPayload
                in (pacerMinInterval, max n 1))"

definition burstsFor :: "int \<Rightarrow> int \<Rightarrow> bool \<times> int" where
  "burstsFor rate payloadSize = (let (_, n) = pacing rate payloadSize in (n > 1, n))"

record pacedTunnel =
  payloadSize :: int
  interval :: int
  perTick :: int
  pqueue :: "bytes list"
  ready :: "bytes list"
  packer :: Packer

definition newPacedTunnel :: "int \<Rightarrow> int \<Rightarrow> pacedTunnel" where
  "newPacedTunnel rate sz = (let (iv, n) = pacing rate sz in
     \<lparr>payloadSize = sz, interval = iv, perTick = n, pqueue = [], ready = [], packer = NewPacker\<rparr>)"

definition Enqueue_pkt :: "bytes \<Rightarrow> pacedTunnel \<Rightarrow> bool \<times> pacedTunnel" where
  "Enqueue_pkt pkt t =
     (if length (pqueue t) < pacerQueueDepth then (True, t\<lparr>pqueue := pqueue t @ [pkt]\<rparr>) else (False, t))"

fun fill :: "bytes list \<Rightarrow> bytes list \<Rightarrow> bytes list \<times> bytes list" where
  "fill rd [] = (rd, [])"
| "fill rd (pkt # q) = (if length rd < pacerQueueDepth then fill (rd @ [pkt]) q else (rd, pkt # q))"

text \<open>One payload, and the payloads of one tick, as they are handed to ESP.\<close>

definition send_one :: "pacedTunnel \<Rightarrow> bytes option \<times> pacedTunnel" where
  "send_one t =
     (let (rd, q) = fill (ready t) (pqueue t);
          ((payload, remaining), p) = Pack rd (payloadSize t) (packer t)
      in (payload, t\<lparr>pqueue := q, ready := remaining, packer := p\<rparr>))"

fun send_n :: "nat \<Rightarrow> pacedTunnel \<Rightarrow> bytes option list \<times> pacedTunnel" where
  "send_n 0 t = ([], t)"
| "send_n (Suc n) t = (let (y, t1) = send_one t; (ys, t2) = send_n n t1 in (y # ys, t2))"

definition tick :: "pacedTunnel \<Rightarrow> bytes option list \<times> pacedTunnel" where
  "tick t = (if interval t \<le> 0 then ([], t) else send_n (nat (perTick t)) t)"

text \<open>A run: packets offered by the pump and ticks of the clock, and the peer's reassembler.\<close>

datatype pacer_event = Offer bytes | Tick

fun feed_all :: "bytes option list \<Rightarrow> Reassembler \<Rightarrow> bytes list \<times> Reassembler" where
  "feed_all [] r = ([], r)"
| "feed_all (y # ys) r =
     (let ((pkts, _), r1) = Feed (case y of None \<Rightarrow> [] | Some z \<Rightarrow> z) r; (out, r2) = feed_all ys r1 in (pkts @ out, r2))"

fun run_pacer :: "pacer_event list \<Rightarrow> pacedTunnel \<Rightarrow> bytes list \<times> bytes option list \<times> pacedTunnel" where
  "run_pacer [] t = ([], [], t)"
| "run_pacer (Offer pkt # es) t =
     (let (ok, t1) = Enqueue_pkt pkt t; (acc, ys, t2) = run_pacer es t1 in (if ok then pkt # acc else acc, ys, t2))"
| "run_pacer (Tick # es) t =
     (let (y, t1) = tick t; (acc, ys, t2) = run_pacer es t1 in (acc, y @ ys, t2))"

lemma fill_append: "fill rd q = (rd', q') \<Longrightarrow> rd' @ q' = rd @ q"
  by (induction rd q rule: fill.induct) (auto split: if_splits)

definition all_ip :: "pacedTunnel \<Rightarrow> bool" where
  "all_ip t \<longleftrightarrow> (\<forall>q \<in> set (ready t @ pqueue t). ip_packet q)"

definition waiting :: "pacedTunnel \<Rightarrow> bytes list" where
  "waiting t = ready t @ pqueue t"

text \<open>The octets accepted and not yet sent.\<close>

definition outstanding :: "pacedTunnel \<Rightarrow> nat" where
  "outstanding t = backlog (packer t) (waiting t)"

lemma fill_all: "fill rd q = (rd', q') \<Longrightarrow> q' = [] \<or> pacerQueueDepth \<le> length rd'"
  by (induction rd q rule: fill.induct) (auto split: if_splits)

lemma ip_packets_long: "\<forall>x \<in> set xs. ip_packet x \<Longrightarrow> 20 * length xs \<le> length (concat xs)"
proof (induction xs)
  case (Cons x xs)
  then have "20 \<le> length x" using ip_packet_type [of x] by auto
  then show ?case using Cons by simp
qed simp

lemma send_one_step:
  assumes "in_step (packer t) r" and "all_ip t" and "5 \<le> payloadSize t" and "payloadSize t \<le> 65539"
    and "send_one t = (y, t')"
  obtains out r' z where "y = Some z" "int (length z) = payloadSize t" "Feed z r = ((out, None), r')" "in_step (packer t') r'" "all_ip t'"
    "owed (packer t) r @ waiting t = out @ owed (packer t') r' @ waiting t'"
    "payloadSize t' = payloadSize t" "interval t' = interval t" "perTick t' = perTick t"
    "payloadSize t \<le> 5124 \<Longrightarrow> outstanding t' = outstanding t - nat (payloadSize t - 4)"
proof -
  obtain rd q where f: "fill (ready t) (pqueue t) = (rd, q)" by fastforce
  obtain payload rem p where P: "Pack rd (payloadSize t) (packer t) = ((payload, rem), p)" by (metis surj_pair)
  have t': "y = payload" "t' = t\<lparr>pqueue := q, ready := rem, packer := p\<rparr>" using assms(5) by (auto simp: send_one_def f P)
  have w: "rd @ q = ready t @ pqueue t" by (rule fill_append [OF f])
  have ip: "\<forall>x \<in> set rd. ip_packet x" using assms(2) by (simp add: all_ip_def flip: w)
  from assms(1) ip assms(3,4) P obtain out r' z where o: "payload = Some z" "int (length z) = payloadSize t"
    "Feed z r = ((out, None), r')" "in_step p r'" "owed (packer t) r @ rd = out @ owed p r' @ rem"
    "backlog p rem = backlog (packer t) rd - nat (payloadSize t - 4)" by (rule Pack_Feed)
  have "set rem \<subseteq> set (owed (packer t) r @ rd)" unfolding o(5) by auto
  moreover have "set (owed (packer t) r) \<subseteq> Collect ip_packet"
    using assms(1) by (auto simp: owed_def in_step_def split: option.splits)
  ultimately have "\<forall>x \<in> set rem. ip_packet x" using ip by auto
  then have "all_ip t'" using assms(2) by (auto simp: all_ip_def t'(2) simp flip: w)
  moreover have "owed (packer t) r @ waiting t = out @ owed (packer t') r' @ waiting t'"
  proof -
    have "owed (packer t) r @ waiting t = (owed (packer t) r @ rd) @ q" by (simp add: waiting_def flip: w)
    then show ?thesis by (simp add: o(5) waiting_def t'(2))
  qed
  moreover have "outstanding t' = outstanding t - nat (payloadSize t - 4)" if "payloadSize t \<le> 5124"
  proof -
    have total: "outstanding t = backlog (packer t) rd + length (concat q)"
      using arg_cong [OF w, of "\<lambda>x. length (concat x)"] by (simp add: outstanding_def backlog_def waiting_def)
    have "q = [] \<or> nat (payloadSize t - 4) \<le> backlog (packer t) rd"
    proof (cases "q = []")
      case False
      then have "256 \<le> length rd" using fill_all [OF f] by (simp add: pacerQueueDepth_def)
      then have "5120 \<le> backlog (packer t) rd" using ip_packets_long [OF ip] by (simp add: backlog_def)
      moreover have "nat (payloadSize t - 4) \<le> 5120" using that by simp
      ultimately show ?thesis by linarith
    qed simp
    moreover have "outstanding t' = backlog p rem + length (concat q)" by (simp add: outstanding_def backlog_def waiting_def t'(2))
    ultimately show ?thesis using total o(6) by auto
  qed
  ultimately show thesis using that o t' by simp
qed

lemma send_n_step:
  assumes "in_step (packer t) r" and "all_ip t" and "5 \<le> payloadSize t" and "payloadSize t \<le> 65539" and "send_n n t = (ys, t')"
  shows "map (map_option length) ys = replicate n (Some (nat (payloadSize t)))
    \<and> (\<exists>out r'. feed_all (ys @ zs) r = (out @ fst (feed_all zs r'), snd (feed_all zs r')) \<and> in_step (packer t') r' \<and> all_ip t'
         \<and> owed (packer t) r @ waiting t = out @ owed (packer t') r' @ waiting t')
    \<and> payloadSize t' = payloadSize t \<and> interval t' = interval t \<and> perTick t' = perTick t
    \<and> (payloadSize t \<le> 5124 \<longrightarrow> outstanding t' = outstanding t - n * nat (payloadSize t - 4))"
  using assms
proof (induction n arbitrary: t r ys)
  case 0
  then show ?case by (auto intro!: exI [of _ "[]"] exI [of _ r])
next
  case (Suc n)
  obtain y t1 where y: "send_one t = (y, t1)" by fastforce
  obtain ys1 where ys1: "send_n n t1 = (ys1, t')" "ys = y # ys1" using Suc.prems(5) y by (auto split: prod.splits)
  from Suc.prems(1-4) y obtain out r1 z where s: "y = Some z" "int (length z) = payloadSize t" "Feed z r = ((out, None), r1)"
    "in_step (packer t1) r1" "all_ip t1" "owed (packer t) r @ waiting t = out @ owed (packer t1) r1 @ waiting t1"
    "payloadSize t1 = payloadSize t" "interval t1 = interval t" "perTick t1 = perTick t"
    "payloadSize t \<le> 5124 \<Longrightarrow> outstanding t1 = outstanding t - nat (payloadSize t - 4)" by (rule send_one_step) blast
  have ih: "map (map_option length) ys1 = replicate n (Some (nat (payloadSize t1)))
    \<and> (\<exists>out r'. feed_all (ys1 @ zs) r1 = (out @ fst (feed_all zs r'), snd (feed_all zs r')) \<and> in_step (packer t') r' \<and> all_ip t'
         \<and> owed (packer t1) r1 @ waiting t1 = out @ owed (packer t') r' @ waiting t')
    \<and> payloadSize t' = payloadSize t1 \<and> interval t' = interval t1 \<and> perTick t' = perTick t1
    \<and> (payloadSize t1 \<le> 5124 \<longrightarrow> outstanding t' = outstanding t1 - n * nat (payloadSize t1 - 4))"
    using Suc.prems(3,4) s(7) by (intro Suc.IH s(4,5) ys1(1)) simp_all
  then obtain out1 r' where o1: "feed_all (ys1 @ zs) r1 = (out1 @ fst (feed_all zs r'), snd (feed_all zs r'))" "in_step (packer t') r'" "all_ip t'"
    "owed (packer t1) r1 @ waiting t1 = out1 @ owed (packer t') r' @ waiting t'" by blast
  have "feed_all (ys @ zs) r = ((out @ out1) @ fst (feed_all zs r'), snd (feed_all zs r'))"
    using o1(1) s(1,3) by (simp add: ys1(2))
  moreover have "owed (packer t) r @ waiting t = (out @ out1) @ owed (packer t') r' @ waiting t'" using s(6) o1(4) by simp
  ultimately have "\<exists>out r'. feed_all (ys @ zs) r = (out @ fst (feed_all zs r'), snd (feed_all zs r')) \<and> in_step (packer t') r' \<and> all_ip t'
         \<and> owed (packer t) r @ waiting t = out @ owed (packer t') r' @ waiting t'" using o1(2,3) by blast
  moreover have "length z = nat (payloadSize t)" using s(2) by simp
  then have "map (map_option length) ys = replicate (Suc n) (Some (nat (payloadSize t)))" using conjunct1 [OF ih] s(1,7) ys1(2) by simp
  moreover have "payloadSize t' = payloadSize t \<and> interval t' = interval t \<and> perTick t' = perTick t" using ih s(7-9) by simp
  moreover have "payloadSize t \<le> 5124 \<longrightarrow> outstanding t' = outstanding t - Suc n * nat (payloadSize t - 4)"
    using ih s(7,10) by (simp add: algebra_simps)
  ultimately show ?case by blast
qed

lemma tick_step:
  assumes "in_step (packer t) r" and "all_ip t" and "5 \<le> payloadSize t" and "payloadSize t \<le> 65539" and "0 < interval t"
    and "tick t = (ys, t')"
  shows "map (map_option length) ys = replicate (nat (perTick t)) (Some (nat (payloadSize t)))
    \<and> (\<exists>out r'. feed_all (ys @ zs) r = (out @ fst (feed_all zs r'), snd (feed_all zs r')) \<and> in_step (packer t') r' \<and> all_ip t'
         \<and> owed (packer t) r @ waiting t = out @ owed (packer t') r' @ waiting t')
    \<and> payloadSize t' = payloadSize t \<and> interval t' = interval t \<and> perTick t' = perTick t
    \<and> (payloadSize t \<le> 5124 \<longrightarrow> outstanding t' = outstanding t - nat (perTick t) * nat (payloadSize t - 4))"
  using send_n_step [OF assms(1-4)] assms(5,6) by (simp add: tick_def)

text \<open>A whole run, from any state in step with the reassembler.\<close>

lemma run_pacer_step:
  assumes "in_step (packer t) r" and "all_ip t" and "5 \<le> payloadSize t" and "payloadSize t \<le> 65539" and "0 < interval t"
    and "\<forall>q. Offer q \<in> set es \<longrightarrow> ip_packet q" and "run_pacer es t = (acc, ys, t')"
  shows "map (map_option length) ys = replicate (count_list es Tick * nat (perTick t)) (Some (nat (payloadSize t)))
    \<and> (\<exists>out r'. feed_all ys r = (out, r') \<and> in_step (packer t') r' \<and> owed (packer t) r @ waiting t @ acc = out @ owed (packer t') r' @ waiting t')
    \<and> payloadSize t' = payloadSize t \<and> interval t' = interval t \<and> perTick t' = perTick t"
  using assms
proof (induction es t arbitrary: r acc ys rule: run_pacer.induct)
  case (1 t)
  then show ?case by auto
next
  case (2 pkt es t)
  obtain ok t1 where e: "Enqueue_pkt pkt t = (ok, t1)" by fastforce
  obtain acc1 where run: "run_pacer es t1 = (acc1, ys, t')" "acc = (if ok then pkt # acc1 else acc1)"
    using "2.prems"(7) e by (auto split: prod.splits)
  have t1: "packer t1 = packer t" "payloadSize t1 = payloadSize t" "interval t1 = interval t" "perTick t1 = perTick t"
    "waiting t1 = waiting t @ (if ok then [pkt] else [])"
    using e by (auto simp: Enqueue_pkt_def waiting_def split: if_splits)
  have "all_ip t1" using "2.prems"(2,6) t1(5) by (auto simp: all_ip_def waiting_def)
  from "2.IH" [OF e [symmetric] refl, of r acc1 ys] this run "2.prems" t1 show ?case by auto
next
  case (3 es t)
  obtain y t1 where e: "tick t = (y, t1)" by fastforce
  obtain ys1 where run: "run_pacer es t1 = (acc, ys1, t')" "ys = y @ ys1"
    using "3.prems"(7) e by (auto split: prod.splits)
  from tick_step [OF "3.prems"(1-5) e, of ys1] obtain out r1 where s: "map (map_option length) y = replicate (nat (perTick t)) (Some (nat (payloadSize t)))"
    "feed_all (y @ ys1) r = (out @ fst (feed_all ys1 r1), snd (feed_all ys1 r1))" "in_step (packer t1) r1" "all_ip t1"
    "owed (packer t) r @ waiting t = out @ owed (packer t1) r1 @ waiting t1"
    "payloadSize t1 = payloadSize t" "interval t1 = interval t" "perTick t1 = perTick t" by blast
  have ih: "map (map_option length) ys1 = replicate (count_list es Tick * nat (perTick t1)) (Some (nat (payloadSize t1)))
    \<and> (\<exists>out r'. feed_all ys1 r1 = (out, r') \<and> in_step (packer t') r' \<and> owed (packer t1) r1 @ waiting t1 @ acc = out @ owed (packer t') r' @ waiting t')
    \<and> payloadSize t' = payloadSize t1 \<and> interval t' = interval t1 \<and> perTick t' = perTick t1"
    using "3.IH" [OF e [symmetric] refl s(3,4) _ _ _ _ run(1)] "3.prems"(3-6) s(6-8) by simp
  then obtain out1 r' where o: "feed_all ys1 r1 = (out1, r')" "in_step (packer t') r'"
    "owed (packer t1) r1 @ waiting t1 @ acc = out1 @ owed (packer t') r' @ waiting t'" by blast
  have "owed (packer t) r @ waiting t @ acc = (out @ out1) @ owed (packer t') r' @ waiting t'"
  proof -
    have "owed (packer t) r @ waiting t @ acc = (owed (packer t) r @ waiting t) @ acc" by simp
    also have "\<dots> = out @ owed (packer t1) r1 @ waiting t1 @ acc" by (simp only: s(5) append_assoc)
    finally show ?thesis by (simp add: o(3))
  qed
  moreover have "map (map_option length) ys = replicate (count_list (Tick # es) Tick * nat (perTick t)) (Some (nat (payloadSize t)))"
    using conjunct1 [OF ih] s(1,6,8) run(2) by (simp add: replicate_add)
  moreover have "feed_all ys r = (out @ out1, r')" using s(2) o(1) run(2) by simp
  ultimately show ?case using ih o(2) s(6-8) by auto
qed

section \<open>What an observer sees\<close>

lemma pack_loop_length: "pack_loop pkts buf room = (buf', room', pend, rest) \<Longrightarrow> length buf' + room' = length buf + room"
  by (induction pkts buf room rule: pack_loop.induct) (auto split: if_splits)

lemma Pack_length:
  assumes "5 \<le> sz"
  shows "\<exists>y rest p'. Pack pkts sz p = ((Some y, rest), p') \<and> length y = nat sz"
proof -
  define pe where "pe = agg_pending p"
  define room where "room = nat (sz - 4)"
  note f = Pack_form [OF assms pe_def room_def, of pkts]
  have r: "4 + room = nat sz" using assms by (simp add: room_def)
  show ?thesis
  proof (cases "length pe > room")
    case True
    then show ?thesis using f r by (simp add: AppendHeader_def)
  next
    case False
    obtain buf' room' pend rest where L: "pack_loop pkts (AppendHeader [] (of_nat (length pe)) @ pe) (room - length pe) = (buf', room', pend, rest)"
      by (metis prod_cases4)
    then show ?thesis using f r False pack_loop_length [OF L] by (simp add: AppendHeader_def)
  qed
qed

lemma send_one_length:
  assumes "5 \<le> payloadSize t" and "send_one t = (y, t')"
  shows "map_option length y = Some (nat (payloadSize t)) \<and> payloadSize t' = payloadSize t \<and> interval t' = interval t \<and> perTick t' = perTick t"
proof -
  obtain rd q where f: "fill (ready t) (pqueue t) = (rd, q)" by fastforce
  obtain z rest p where "Pack rd (payloadSize t) (packer t) = ((Some z, rest), p)" "length z = nat (payloadSize t)"
    using Pack_length [OF assms(1)] by blast
  then show ?thesis using assms(2) f by (auto simp: send_one_def)
qed

lemma send_n_length:
  "5 \<le> payloadSize t \<Longrightarrow> send_n n t = (ys, t') \<Longrightarrow> map (map_option length) ys = replicate n (Some (nat (payloadSize t)))
    \<and> payloadSize t' = payloadSize t \<and> interval t' = interval t \<and> perTick t' = perTick t"
proof (induction n arbitrary: t ys)
  case (Suc n)
  obtain y t1 where y: "send_one t = (y, t1)" by fastforce
  obtain ys1 where ys1: "send_n n t1 = (ys1, t')" "ys = y # ys1" using Suc.prems(2) y by (auto split: prod.splits)
  have l: "map_option length y = Some (nat (payloadSize t)) \<and> payloadSize t1 = payloadSize t \<and> interval t1 = interval t \<and> perTick t1 = perTick t"
    by (rule send_one_length [OF Suc.prems(1) y])
  then show ?case using Suc.IH [OF _ ys1(1)] Suc.prems(1) ys1(2) by simp
qed simp

lemma run_pacer_length:
  "5 \<le> payloadSize t \<Longrightarrow> 0 < interval t \<Longrightarrow> run_pacer es t = (acc, ys, t') \<Longrightarrow>
    map (map_option length) ys = replicate (count_list es Tick * nat (perTick t)) (Some (nat (payloadSize t)))"
proof (induction es t arbitrary: acc ys rule: run_pacer.induct)
  case (2 pkt es t)
  obtain ok t1 where e: "Enqueue_pkt pkt t = (ok, t1)" by fastforce
  moreover obtain acc1 where "run_pacer es t1 = (acc1, ys, t')" using "2.prems"(3) e by (auto split: prod.splits)
  moreover have "payloadSize t1 = payloadSize t" "interval t1 = interval t" "perTick t1 = perTick t"
    using e by (auto simp: Enqueue_pkt_def split: if_splits)
  ultimately show ?case using "2.IH" [OF e [symmetric] refl] "2.prems"(1,2) by simp
next
  case (3 es t)
  obtain y t1 where e: "tick t = (y, t1)" by fastforce
  obtain ys1 where run: "run_pacer es t1 = (acc, ys1, t')" "ys = y @ ys1" using "3.prems"(3) e by (auto split: prod.splits)
  have l: "map (map_option length) y = replicate (nat (perTick t)) (Some (nat (payloadSize t)))
    \<and> payloadSize t1 = payloadSize t \<and> interval t1 = interval t \<and> perTick t1 = perTick t"
    using send_n_length [OF "3.prems"(1)] "3.prems"(2) e by (simp add: tick_def)
  then show ?case using "3.IH" [OF e [symmetric] refl _ _ run(1)] "3.prems"(1,2) run(2) by (simp add: replicate_add)
qed simp

lemma newPacedTunnel_fields:
  assumes "0 < rate" and "0 < sz"
  shows "payloadSize (newPacedTunnel rate sz) = sz" "perTick (newPacedTunnel rate sz) = snd (pacing rate sz)"
    "0 < interval (newPacedTunnel rate sz)" "packer (newPacedTunnel rate sz) = NewPacker" "waiting (newPacedTunnel rate sz) = []"
    "1 \<le> snd (pacing rate sz)"
  using assms by (auto simp: newPacedTunnel_def pacing_def Let_def pacerMinInterval_def waiting_def)

text \<open>
  C16: Traffic-flow confidentiality: the payloads a constant-rate tunnel sends, their number and
  their sizes, depend on the clock and the configuration only. Two runs with the same number of
  ticks send the same number of payloads of the same size, whatever packets were offered, when,
  and how many.
\<close>

theorem iptfs_constant_rate:
  assumes "0 < rate" and "5 \<le> sz" and "count_list es Tick = count_list es' Tick"
  shows "map (map_option length) (fst (snd (run_pacer es (newPacedTunnel rate sz)))) =
      replicate (count_list es Tick * nat (snd (pacing rate sz))) (Some (nat sz))
    \<and> map (map_option length) (fst (snd (run_pacer es (newPacedTunnel rate sz)))) =
      map (map_option length) (fst (snd (run_pacer es' (newPacedTunnel rate sz))))"
proof -
  note n = newPacedTunnel_fields [OF assms(1), of sz]
  have "map (map_option length) (fst (snd (run_pacer es (newPacedTunnel rate sz)))) =
      replicate (count_list es Tick * nat (snd (pacing rate sz))) (Some (nat sz))" for es
  proof -
    obtain acc ys t where run: "run_pacer es (newPacedTunnel rate sz) = (acc, ys, t)" by (metis prod_cases3)
    then show ?thesis using run_pacer_length [OF _ _ run] n assms(2) by simp
  qed
  then show ?thesis using assms(3) by simp
qed

text \<open>
  C15: The constant-rate tunnel loses, reorders and alters nothing: when its payloads arrive, the
  packets the peer has reassembled, the one packet split between the ends and the packets waiting
  are together exactly the packets accepted, in order; none of them is offered to the peer in part.
\<close>

theorem iptfs_lossless:
  assumes "0 < rate" and "5 \<le> sz" and "sz \<le> 65539" and "\<forall>q. Offer q \<in> set es \<longrightarrow> ip_packet q"
    and "run_pacer es (newPacedTunnel rate sz) = (acc, ys, t)" and "feed_all ys NewReassembler = (out, r)"
  shows "acc = out @ owed (packer t) r @ waiting t \<and> in_step (packer t) r"
proof -
  note n = newPacedTunnel_fields [OF assms(1), of sz]
  have "in_step NewPacker NewReassembler" "owed NewPacker NewReassembler = []"
    by (simp_all add: in_step_def owed_def NewPacker_def NewReassembler_def)
  moreover have "all_ip (newPacedTunnel rate sz)" using n(5) assms(2) by (simp add: all_ip_def waiting_def)
  ultimately show ?thesis
    using run_pacer_step [of "newPacedTunnel rate sz" NewReassembler es acc ys t] n assms by auto
qed

lemma run_pacer_append:
  "run_pacer (es @ es') t = (let (acc, ys, t1) = run_pacer es t; (acc', ys', t2) = run_pacer es' t1 in (acc @ acc', ys @ ys', t2))"
proof (induction es arbitrary: t)
  case (Cons e es)
  then show ?case by (cases e) (simp_all add: Let_def case_prod_beta)
qed (simp add: Let_def case_prod_beta)

lemma run_pacer_accepts: "q \<in> set (fst (run_pacer es t)) \<Longrightarrow> Offer q \<in> set es"
proof (induction es arbitrary: t)
  case (Cons e es)
  then show ?case by (cases e) (auto simp: Let_def case_prod_beta split: if_splits)
qed simp

lemma ticks_drain:
  assumes "in_step (packer t) r" and "all_ip t" and "5 \<le> payloadSize t" and "payloadSize t \<le> 5124" and "0 < interval t"
    and "run_pacer (replicate k Tick) t = (acc, ys, t')"
  shows "acc = [] \<and> outstanding t' = outstanding t - k * (nat (perTick t) * nat (payloadSize t - 4))"
  using assms
proof (induction k arbitrary: t r ys)
  case (Suc k)
  obtain y t1 where e: "tick t = (y, t1)" by fastforce
  obtain ys1 where run: "run_pacer (replicate k Tick) t1 = (acc, ys1, t')" using Suc.prems(6) e by (auto split: prod.splits)
  have "payloadSize t \<le> 65539" using Suc.prems(4) by simp
  from tick_step [OF Suc.prems(1-3) this Suc.prems(5) e, of "[]"] obtain r1 where s: "in_step (packer t1) r1" "all_ip t1"
    "payloadSize t1 = payloadSize t" "interval t1 = interval t" "perTick t1 = perTick t"
    "outstanding t1 = outstanding t - nat (perTick t) * nat (payloadSize t - 4)" using Suc.prems(4) by blast
  show ?case using Suc.IH [OF s(1,2) _ _ _ run] Suc.prems(3-5) s(3-6) by (simp add: algebra_simps)
qed simp

text \<open>
  C30: The constant-rate tunnel keeps up: whatever was accepted, after as many further ticks as the
  outstanding octets need at the configured payload size, every accepted packet has been
  reassembled by the peer.
\<close>

theorem iptfs_drains:
  assumes "0 < rate" and "5 \<le> sz" and "sz \<le> 5124" and "\<forall>q. Offer q \<in> set es \<longrightarrow> ip_packet q"
    and "run_pacer es (newPacedTunnel rate sz) = (acc, ys, t)"
    and "outstanding t \<le> k * (nat (snd (pacing rate sz)) * nat (sz - 4))"
    and "run_pacer (es @ replicate k Tick) (newPacedTunnel rate sz) = (acc', ys', t')"
  shows "fst (feed_all ys' NewReassembler) = acc"
proof -
  let ?t = "newPacedTunnel rate sz"
  note n = newPacedTunnel_fields [OF assms(1), of sz]
  have i0: "in_step (packer ?t) NewReassembler" "owed (packer ?t) NewReassembler = []" "all_ip ?t"
    using n(4,5) assms(2) by (simp_all add: in_step_def owed_def NewPacker_def NewReassembler_def all_ip_def waiting_def)
  have sz: "5 \<le> payloadSize ?t" "payloadSize ?t \<le> 65539" "0 < interval ?t" using n assms(2,3) by simp_all
  from run_pacer_step [OF i0(1,3) sz assms(4,5)] obtain out r where r: "in_step (packer t) r" "acc = out @ owed (packer t) r @ waiting t"
    "payloadSize t = sz" "interval t = interval ?t" "perTick t = perTick ?t" using i0(2) n assms(2) by auto
  obtain acc2 ys2 where run2: "run_pacer (replicate k Tick) t = (acc2, ys2, t')" "acc' = acc @ acc2"
    using assms(5,7) by (auto simp: run_pacer_append Let_def split: prod.splits)
  have acc_ip: "\<forall>q \<in> set acc. ip_packet q" using run_pacer_accepts [of _ es ?t] assms(4,5) by auto
  have "all_ip t" using acc_ip r(2) by (auto simp: all_ip_def waiting_def)
  from ticks_drain [OF r(1) this _ _ _ run2(1)] have d: "acc2 = []" "outstanding t' = 0"
    using assms(2,3,6) sz r n by simp_all
  have ev: "\<forall>q. Offer q \<in> set (es @ replicate k Tick) \<longrightarrow> ip_packet q" using assms(4) by auto
  from run_pacer_step [OF i0(1,3) sz ev assms(7)] obtain out' r' where r': "feed_all ys' NewReassembler = (out', r')" "in_step (packer t') r'"
    "acc' = out' @ owed (packer t') r' @ waiting t'" using i0(2) n assms(2) by auto
  have "agg_pending (packer t') = []" "concat (waiting t') = []" using d(2) by (simp_all add: outstanding_def backlog_def)
  then have "owed (packer t') r' = []" using r'(2) by (auto simp: owed_def in_step_def split: option.splits)
  moreover have "waiting t' = []"
  proof (rule ccontr)
    assume "waiting t' \<noteq> []"
    then obtain q where q: "q \<in> set (waiting t')" by (meson hd_in_set)
    then have "ip_packet q" using acc_ip r'(3) run2(2) d(1) by (metis Un_iff append_Nil2 set_append)
    then show False using q \<open>concat (waiting t') = []\<close> by (auto simp: ip_packet_def)
  qed
  ultimately show ?thesis using r' run2(2) d(1) by simp
qed


section \<open>A lost payload\<close>

text \<open>
  C32: A defect of the reassembler: it joins a continuation to whatever head it holds, and nothing
  tells it that a payload in between was lost. If it holds the head \<open>a\<close> of a packet (its length
  field included) and the next payload to arrive opens with at least as many octets \<open>c\<close> of another
  packet's continuation, it hands up \<open>a\<close> completed with octets of \<open>c\<close>, a packet nobody sent.
\<close>

theorem Feed_splices:
  assumes "ip_packet (a @ b)" and "innerLen a \<noteq> 0" and "length b \<le> length c" and "b \<noteq> []" and "length c < 65536"
    and "partial r = Some a"
  shows "fst (fst (Feed (AppendHeader [] (of_nat (length c)) @ c) r)) = [a @ take (length b) c]"
proof -
  have a: "a \<noteq> []" using assms(2) by (auto simp: innerLen_def)
  have h: "innerLen a = length (a @ b)" "innerLen (a @ c) = innerLen a"
  proof -
    have g: "20 \<le> length a \<Longrightarrow> get16 2 (a @ x) = get16 2 a" "40 \<le> length a \<Longrightarrow> get16 4 (a @ x) = get16 4 a" for x
      by (simp_all add: get16_append(2))
    have n: "(a @ x) ! 0 = a ! 0" for x using a by (cases a) auto
    have "innerLen (a @ x) = innerLen a" for x
      using assms(2) g n by (auto simp: innerLen_def Let_def split: if_splits)
    then show "innerLen a = length (a @ b)" "innerLen (a @ c) = innerLen a" using assms(1) by (simp_all add: ip_packet_def)
  qed
  have "c \<noteq> []" using assms(3,4) by auto
  moreover have "takeComplete (a @ c) = Some (a @ take (length b) c)"
    using h assms(2,3) by (simp add: takeComplete_def Let_def)
  moreover have "blocks_loop out [] = (out, None, None)" for out using blocks_loop_pad [of out 0] by simp
  ultimately show ?thesis using assms(5,6) by (subst Feed_payload) simp_all
qed

section \<open>Concrete runs\<close>

definition example_ip :: "byte \<Rightarrow> bytes" where
  "example_ip x = [0x45, 0, 0, 40] @ replicate 36 x"

lemma example_ip_packet: "ip_packet (example_ip x)"
  by (simp add: ip_packet_def example_ip_def innerLen_def get16_def slice_def be_val_def)

definition example_events :: "pacer_event list" where
  "example_events = [Offer (example_ip 1), Offer (example_ip 2), Tick, Offer (example_ip 3), Tick]"

lemma example_events_ip: "\<forall>q. Offer q \<in> set example_events \<longrightarrow> ip_packet q"
  by (auto simp: example_events_def example_ip_packet)

theorem iptfs_constant_rate_witness:
  "0 < (1250000::int) \<and> 5 \<le> (34::int) \<and> count_list example_events Tick = count_list [Tick, Tick] Tick
   \<and> map (map_option length) (fst (snd (run_pacer example_events (newPacedTunnel 1250000 34)))) =
      map (map_option length) (fst (snd (run_pacer [Tick, Tick] (newPacedTunnel 1250000 34))))"
proof -
  have c: "count_list example_events Tick = count_list [Tick, Tick] Tick" by (simp add: example_events_def)
  show ?thesis using conjunct2 [OF iptfs_constant_rate [OF _ _ c, of 1250000 34]] c by simp
qed

theorem iptfs_lossless_witness:
  "\<exists>acc ys t out r. run_pacer example_events (newPacedTunnel 1250000 34) = (acc, ys, t)
     \<and> feed_all ys NewReassembler = (out, r) \<and> acc = out @ owed (packer t) r @ waiting t"
proof -
  obtain acc ys t where run: "run_pacer example_events (newPacedTunnel 1250000 34) = (acc, ys, t)" by (metis prod_cases3)
  obtain out r where f: "feed_all ys NewReassembler = (out, r)" by fastforce
  show ?thesis using iptfs_lossless [OF _ _ _ example_events_ip run f] run f by auto
qed

theorem iptfs_drains_witness:
  "\<exists>acc ys t k acc' ys' t'. run_pacer example_events (newPacedTunnel 1250000 34) = (acc, ys, t)
     \<and> outstanding t \<le> k * (nat (snd (pacing 1250000 34)) * nat (34 - 4))
     \<and> run_pacer (example_events @ replicate k Tick) (newPacedTunnel 1250000 34) = (acc', ys', t')
     \<and> fst (feed_all ys' NewReassembler) = acc"
proof -
  obtain acc ys t where run: "run_pacer example_events (newPacedTunnel 1250000 34) = (acc, ys, t)" by (metis prod_cases3)
  obtain acc' ys' t' where run': "run_pacer (example_events @ replicate (outstanding t) Tick) (newPacedTunnel 1250000 34) = (acc', ys', t')"
    by (metis prod_cases3)
  have n: "snd (pacing 1250000 34) = 4" by (simp add: pacing_def pacerMinInterval_def)
  have k: "outstanding t \<le> outstanding t * (nat (snd (pacing 1250000 34)) * nat (34 - 4))" by (simp add: n)
  have "fst (feed_all ys' NewReassembler) = acc" by (rule iptfs_drains [OF _ _ _ example_events_ip run k run']) simp_all
  then show ?thesis using run run' k by blast
qed


theorem Feed_splices_witness:
  "fst (fst (Feed (AppendHeader [] 20 @ replicate 20 2) \<lparr>partial = Some (take 30 (example_ip 1))\<rparr>)) =
     [take 30 (example_ip 1) @ replicate 10 2]"
proof -
  have "ip_packet (take 30 (example_ip 1) @ drop 30 (example_ip 1))" by (simp add: example_ip_packet)
  moreover have "innerLen (take 30 (example_ip 1)) \<noteq> 0" by (simp add: example_ip_def innerLen_def get16_def slice_def be_val_def)
  moreover have "length (drop 30 (example_ip 1)) = 10" by (simp add: example_ip_def)
  ultimately show ?thesis
    using Feed_splices [of "take 30 (example_ip 1)" "drop 30 (example_ip 1)" "replicate 20 2" "\<lparr>partial = Some (take 30 (example_ip 1))\<rparr>"]
    by auto
qed

end
