(* ===== verification/Esp.thy ===== *)
theory Esp
  imports Crypto Channel Inner_Packet Aggfrag
begin

text \<open>
  The userspace ESP data path: the security association of \<^verbatim>\<open>internal/ikev2/esp/esp.go\<close> with
  its lazily built crypters, sequence numbers, trailer and replay window, and the tunnels of
  \<^verbatim>\<open>internal/ikev2/ike/datapath.go\<close> that carry IP packets over it.  Buffers that the code reuses
  are values; the plaintext scratch buffer is written in full before it is sealed.
\<close>

section \<open>The security association\<close>

datatype esp_error =
    ShortPacket | UnknownSPI | Replayed | ShortTrailer | BadPadLength | SeqExhausted
  | Crypt crypt_error | DummyPacket | BadInner | AggErr aggfrag_error

record Transform =
  EncrID :: u16
  EncrKeyLn :: u16
  IntegID :: u16
  EncKey :: bytes
  IntegKey :: bytes

record SA =
  SPIOut :: u32
  SPIIn :: u32
  OutT :: Transform
  InT :: Transform
  seqOut :: u32
  rwindow :: esp_window
  outCrypter :: "ESPCrypter option"
  inCrypter :: "ESPCrypter option"
  prepErr :: "crypt_error option"
  prepOnce :: bool

definition espHeaderLen :: nat where
  "espHeaderLen = 8"

definition crypterFor :: "prims \<Rightarrow> Transform \<Rightarrow> crypt_error + ESPCrypter" where
  "crypterFor P t = ESPCrypter_of P (EncrID t) (uint (EncrKeyLn t)) (EncKey t) (IntegID t) (IntegKey t)"

definition prepare :: "prims \<Rightarrow> SA \<Rightarrow> crypt_error option \<times> SA" where
  "prepare P s =
     (let s = (if prepOnce s then s
               else case crypterFor P (OutT s) of
                 Err x \<Rightarrow> s\<lparr>prepOnce := True, prepErr := Some x\<rparr>
               | Ok oc \<Rightarrow> (case crypterFor P (InT s) of
                   Err x \<Rightarrow> s\<lparr>prepOnce := True, outCrypter := Some oc, prepErr := Some x\<rparr>
                 | Ok ic \<Rightarrow> s\<lparr>prepOnce := True, outCrypter := Some oc, inCrypter := Some ic, prepErr := None\<rparr>))
      in (prepErr s, s))"

definition ResetReplayWindow :: "SA \<Rightarrow> SA" where
  "ResetReplayWindow s = s\<lparr>rwindow := esp_window0, seqOut := 0\<rparr>"

text \<open>The padding that aligns payload and trailer, and the plaintext the code assembles.\<close>

definition esp_padLen :: "nat \<Rightarrow> nat \<Rightarrow> nat" where
  "esp_padLen blk payloadLen = (blk - (payloadLen + 2) mod blk) mod blk"

definition esp_plaintext :: "nat \<Rightarrow> bytes \<Rightarrow> byte \<Rightarrow> int \<Rightarrow> bytes" where
  "esp_plaintext blk inner nextHeader minInner =
     (let payloadLen = max (length inner) (nat minInner);
          padLen = esp_padLen blk payloadLen
      in inner @ replicate (payloadLen - length inner) 0
         @ map (\<lambda>i. of_nat (i + 1)) [0..<padLen] @ [of_nat padLen, nextHeader])"

definition appendEncapsulated ::
    "prims \<Rightarrow> rand \<Rightarrow> SA \<Rightarrow> bytes \<Rightarrow> bytes \<Rightarrow> byte \<Rightarrow> int \<Rightarrow> (esp_error + bytes) \<times> SA" where
  "appendEncapsulated P rnd s dst inner nextHeader minInner = (case prepare P s of
     (Some x, s) \<Rightarrow> (Err (Crypt x), s)
   | (None, s) \<Rightarrow>
       if seqOut s = - 1 then (Err SeqExhausted, s)
       else let seq = seqOut s + 1; s = s\<lparr>seqOut := seq\<rparr> in
         (case outCrypter s of
            None \<Rightarrow> (Err (Crypt Panic), s)
          | Some c \<Rightarrow>
              let blk = max (ESP_BlockLen c) 1;
                  hdr = be32 (SPIOut s) @ be32 seq;
                  pt = esp_plaintext blk inner nextHeader minInner;
                  (r, c') = Seal P rnd c (dst @ hdr) hdr pt
              in (map_sum Crypt id r, s\<lparr>outCrypter := Some c'\<rparr>)))"

text \<open>\<^verbatim>\<open>Encapsulate\<close>, \<^verbatim>\<open>EncapsulatePadded\<close> and \<^verbatim>\<open>AppendEncapsulated\<close>.\<close>

definition encapsulate :: "prims \<Rightarrow> rand \<Rightarrow> SA \<Rightarrow> bytes \<Rightarrow> byte \<Rightarrow> int \<Rightarrow> (esp_error + bytes) \<times> SA" where
  "encapsulate P rnd s inner nextHeader minInner = (case prepare P s of
     (Some x, s) \<Rightarrow> (Err (Crypt x), s)
   | (None, s) \<Rightarrow> appendEncapsulated P rnd s [] inner nextHeader minInner)"

definition SA_Encapsulate :: "prims \<Rightarrow> rand \<Rightarrow> SA \<Rightarrow> bytes \<Rightarrow> byte \<Rightarrow> (esp_error + bytes) \<times> SA" where
  "SA_Encapsulate P rnd s inner nextHeader = encapsulate P rnd s inner nextHeader 0"

definition SA_EncapsulatePadded :: "prims \<Rightarrow> rand \<Rightarrow> SA \<Rightarrow> bytes \<Rightarrow> byte \<Rightarrow> int \<Rightarrow> (esp_error + bytes) \<times> SA" where
  "SA_EncapsulatePadded P rnd s inner nextHeader minInner = encapsulate P rnd s inner nextHeader minInner"

definition SA_AppendEncapsulated ::
    "prims \<Rightarrow> rand \<Rightarrow> SA \<Rightarrow> bytes \<Rightarrow> bytes \<Rightarrow> byte \<Rightarrow> int \<Rightarrow> (esp_error + bytes) \<times> SA" where
  "SA_AppendEncapsulated P rnd s dst inner nextHeader minInner = appendEncapsulated P rnd s dst inner nextHeader minInner"

definition strip_trailer :: "bytes \<Rightarrow> esp_error + (bytes \<times> byte)" where
  "strip_trailer plaintext =
     (if length plaintext < 2 then Err ShortTrailer
      else let n = length plaintext;
               nextHeader = plaintext ! (n - 1);
               padLen = unat (plaintext ! (n - 2))
           in if padLen + 2 > n then Err BadPadLength
              else Ok (take (n - padLen - 2) plaintext, nextHeader))"

definition SA_Decapsulate :: "prims \<Rightarrow> SA \<Rightarrow> bytes \<Rightarrow> (esp_error + (bytes \<times> byte)) \<times> SA" where
  "SA_Decapsulate P s pkt = (case prepare P s of
     (Some x, s) \<Rightarrow> (Err (Crypt x), s)
   | (None, s) \<Rightarrow>
       if length pkt < espHeaderLen then (Err ShortPacket, s)
       else if get32 0 pkt \<noteq> SPIIn s then (Err UnknownSPI, s)
       else let seq = get32 4 pkt; hdr = take espHeaderLen pkt; body = drop espHeaderLen pkt in
         if esp_check (rwindow s) seq then (Err Replayed, s)
         else (case inCrypter s of
            None \<Rightarrow> (Err (Crypt Panic), s)
          | Some c \<Rightarrow>
              let (r, c') = OpenInPlace P c hdr body; s = s\<lparr>inCrypter := Some c'\<rparr> in
              (case r of
                 Err x \<Rightarrow> (Err (Crypt x), s)
               | Ok plaintext \<Rightarrow> (case strip_trailer plaintext of
                   Err x \<Rightarrow> (Err x, s)
                 | Ok res \<Rightarrow>
                     if esp_check (rwindow s) seq then (Err Replayed, s)
                     else (Ok res, s\<lparr>rwindow := esp_advance (rwindow s) seq\<rparr>)))))"

section \<open>Tunnels\<close>

record espTunnel =
  espSA :: SA
  inSPI :: u32

definition espNextHeader :: "bytes \<Rightarrow> byte" where
  "espNextHeader ipPacket = (if 0 < length ipPacket \<and> drop_bit 4 (ipPacket ! 0) = 6 then 41 else 4)"

definition lift_sa :: "'a \<times> SA \<Rightarrow> espTunnel \<Rightarrow> 'a \<times> espTunnel" where
  "lift_sa x t = (fst x, t\<lparr>espSA := snd x\<rparr>)"

definition tun_Encapsulate :: "prims \<Rightarrow> rand \<Rightarrow> espTunnel \<Rightarrow> bytes \<Rightarrow> (esp_error + bytes) \<times> espTunnel" where
  "tun_Encapsulate P rnd t ipPacket = lift_sa (SA_Encapsulate P rnd (espSA t) ipPacket (espNextHeader ipPacket)) t"

definition tun_EncapsulatePadded :: "prims \<Rightarrow> rand \<Rightarrow> espTunnel \<Rightarrow> bytes \<Rightarrow> int \<Rightarrow> (esp_error + bytes) \<times> espTunnel" where
  "tun_EncapsulatePadded P rnd t ipPacket minInner =
     lift_sa (SA_EncapsulatePadded P rnd (espSA t) ipPacket (espNextHeader ipPacket) minInner) t"

definition tun_AppendEncapsulated ::
    "prims \<Rightarrow> rand \<Rightarrow> espTunnel \<Rightarrow> bytes \<Rightarrow> bytes \<Rightarrow> int \<Rightarrow> (esp_error + bytes) \<times> espTunnel" where
  "tun_AppendEncapsulated P rnd t dst ipPacket minInner =
     lift_sa (SA_AppendEncapsulated P rnd (espSA t) dst ipPacket (espNextHeader ipPacket) minInner) t"

definition tun_Decapsulate :: "prims \<Rightarrow> espTunnel \<Rightarrow> bytes \<Rightarrow> (esp_error + bytes) \<times> espTunnel" where
  "tun_Decapsulate P t espPkt =
     (let (r, s) = SA_Decapsulate P (espSA t) espPkt; t = t\<lparr>espSA := s\<rparr> in
      case r of
        Err x \<Rightarrow> (Err x, t)
      | Ok (inner, nextHeader) \<Rightarrow>
          if nextHeader = 59 then (Err DummyPacket, t)
          else if nextHeader = 4 \<or> nextHeader = 41 then
            (let inner = TrimToIP inner in if inner = [] then (Err BadInner, t) else (Ok inner, t))
          else (Ok inner, t))"

text \<open>The tunnel of a Child SA that negotiated AGGFRAG (next header 144).\<close>

record aggfragTunnel =
  af_tun :: espTunnel
  af_packer :: Packer
  af_reasm :: Reassembler

definition ESPNextHeader :: byte where
  "ESPNextHeader = 144"

definition newAggfragTunnel :: "espTunnel \<Rightarrow> aggfragTunnel" where
  "newAggfragTunnel t = \<lparr>af_tun = t, af_packer = NewPacker, af_reasm = NewReassembler\<rparr>"

definition lift_tun :: "'a \<times> SA \<Rightarrow> aggfragTunnel \<Rightarrow> 'a \<times> aggfragTunnel" where
  "lift_tun x t = (fst x, t\<lparr>af_tun := (af_tun t)\<lparr>espSA := snd x\<rparr>\<rparr>)"

text \<open>A payload too small for its header is the nil slice, which encapsulates as no octets.\<close>

definition af_Encapsulate :: "prims \<Rightarrow> rand \<Rightarrow> aggfragTunnel \<Rightarrow> bytes \<Rightarrow> (esp_error + bytes) \<times> aggfragTunnel" where
  "af_Encapsulate P rnd t ipPacket =
     (let ((pl, _), p) = Pack [ipPacket] (int (HeaderLen + length ipPacket)) (af_packer t); t = t\<lparr>af_packer := p\<rparr>
      in lift_tun (SA_Encapsulate P rnd (espSA (af_tun t)) (case pl of None \<Rightarrow> [] | Some b \<Rightarrow> b) ESPNextHeader) t)"

definition af_EncapsulatePadded :: "prims \<Rightarrow> rand \<Rightarrow> aggfragTunnel \<Rightarrow> bytes \<Rightarrow> int \<Rightarrow> (esp_error + bytes) \<times> aggfragTunnel" where
  "af_EncapsulatePadded P rnd t ipPacket minInner =
     (let sz = max (int (HeaderLen + length ipPacket)) minInner;
          ((pl, _), p) = Pack [ipPacket] sz (af_packer t); t = t\<lparr>af_packer := p\<rparr>
      in lift_tun (SA_Encapsulate P rnd (espSA (af_tun t)) (case pl of None \<Rightarrow> [] | Some b \<Rightarrow> b) ESPNextHeader) t)"

definition af_AppendEncapsulated ::
    "prims \<Rightarrow> rand \<Rightarrow> aggfragTunnel \<Rightarrow> bytes \<Rightarrow> bytes \<Rightarrow> int \<Rightarrow> (esp_error + bytes) \<times> aggfragTunnel" where
  "af_AppendEncapsulated P rnd t dst ipPacket minInner =
     (let sz = max (int (HeaderLen + length ipPacket)) minInner;
          ((pl, _), p) = Pack [ipPacket] sz (af_packer t); t = t\<lparr>af_packer := p\<rparr>
      in lift_tun (SA_AppendEncapsulated P rnd (espSA (af_tun t)) dst (case pl of None \<Rightarrow> [] | Some b \<Rightarrow> b) ESPNextHeader 0) t)"

definition DecapsulateMulti :: "prims \<Rightarrow> aggfragTunnel \<Rightarrow> bytes \<Rightarrow> bytes list \<Rightarrow> (bytes list \<times> esp_error option) \<times> aggfragTunnel" where
  "DecapsulateMulti P t espPkt out =
     (let (r, s) = SA_Decapsulate P (espSA (af_tun t)) espPkt; t = t\<lparr>af_tun := (af_tun t)\<lparr>espSA := s\<rparr>\<rparr> in
      case r of
        Err x \<Rightarrow> ((out, Some x), t)
      | Ok (inner, nextHeader) \<Rightarrow>
          if nextHeader = 59 then ((out, Some DummyPacket), t)
          else if nextHeader = ESPNextHeader then
            (let ((pkts, e), rs) = Feed inner (af_reasm t); t = t\<lparr>af_reasm := rs\<rparr> in
             case e of Some x \<Rightarrow> ((out, Some (AggErr x)), t) | None \<Rightarrow> ((out @ pkts, None), t))
          else if nextHeader = 4 \<or> nextHeader = 41 then
            (let inner = TrimToIP inner in
             if inner = [] then ((out, Some BadInner), t) else ((out @ [inner], None), t))
          else ((out, Some BadInner), t))"

section \<open>Trailer\<close>

lemma esp_padLen_lt: "0 < blk \<Longrightarrow> esp_padLen blk n < blk"
  by (simp add: esp_padLen_def)

lemma esp_padLen_aligns: "0 < blk \<Longrightarrow> (n + esp_padLen blk n + 2) mod blk = 0"
proof -
  assume b: "0 < blk"
  let ?r = "(n + 2) mod blk"
  have "(n + esp_padLen blk n + 2) mod blk = (n + 2 + (blk - ?r)) mod blk"
    unfolding esp_padLen_def add.assoc add.commute [of _ 2] add.left_commute [of _ 2] by (simp only: mod_add_right_eq add.assoc [symmetric])
  also have "\<dots> = (?r + (blk - ?r)) mod blk" by (simp only: mod_add_left_eq)
  also have "?r + (blk - ?r) = blk" using mod_less_divisor [OF b, of "n + 2"] by simp
  finally show ?thesis by simp
qed

lemma length_esp_plaintext:
  "length (esp_plaintext blk inner nh m) = max (length inner) (nat m) + esp_padLen blk (max (length inner) (nat m)) + 2"
  by (simp add: esp_plaintext_def Let_def)

lemma strip_esp_plaintext:
  assumes "0 < blk" "blk \<le> 16"
  shows "strip_trailer (esp_plaintext blk inner nh m) = Ok (inner @ replicate (nat m - length inner) 0, nh)"
proof -
  let ?p = "esp_padLen blk (max (length inner) (nat m))"
  let ?body = "inner @ replicate (nat m - length inner) 0"
  let ?pad = "map (\<lambda>i. of_nat (i + 1)) [0..<?p] :: bytes"
  have e: "esp_plaintext blk inner nh m = ?body @ ?pad @ [of_nat ?p, nh]"
    by (simp add: esp_plaintext_def Let_def)
  have "?p < 16" using esp_padLen_lt [OF assms(1)] assms(2) by (meson less_le_trans)
  then have u: "unat (of_nat ?p :: byte) = ?p" by (intro unat_of_nat_small) simp
  have "length pad = p \<Longrightarrow> unat (of_nat p :: byte) = p \<Longrightarrow> strip_trailer (body @ pad @ [of_nat p, nh]) = Ok (body, nh)"
    for body pad :: bytes and p
    by (simp add: strip_trailer_def Let_def nth_append)
  note st = this
  show ?thesis unfolding e by (rule st [OF _ u]) simp
qed

section \<open>One association, prepared\<close>

definition ready :: "SA \<Rightarrow> ESPCrypter \<Rightarrow> ESPCrypter \<Rightarrow> bool" where
  "ready s oc ic \<longleftrightarrow> prepOnce s \<and> prepErr s = None \<and> outCrypter s = Some oc \<and> inCrypter s = Some ic"

definition prepares :: "prims \<Rightarrow> SA \<Rightarrow> ESPCrypter \<Rightarrow> ESPCrypter \<Rightarrow> bool" where
  "prepares P s oc ic \<longleftrightarrow> fst (prepare P s) = None \<and> ready (snd (prepare P s)) oc ic"

lemma prepare_ready: "ready s oc ic \<Longrightarrow> prepare P s = (None, s)"
  by (simp add: prepare_def ready_def)

lemma ready_prepares: "ready s oc ic \<Longrightarrow> prepares P s oc ic"
  by (simp add: prepares_def prepare_ready)

lemma prepare_keeps:
  "SPIOut (snd (prepare P s)) = SPIOut s" "SPIIn (snd (prepare P s)) = SPIIn s"
  "seqOut (snd (prepare P s)) = seqOut s" "rwindow (snd (prepare P s)) = rwindow s"
  by (simp_all add: prepare_def Let_def split: sum.split)

lemma prepares_fresh:
  assumes "\<not> prepOnce s" "crypterFor P (OutT s) = Ok oc" "crypterFor P (InT s) = Ok ic"
  shows "prepares P s oc ic"
  using assms by (simp add: prepares_def prepare_def ready_def)

text \<open>Sending: the packet carries the next sequence number, and opens at the other end.\<close>

lemma encapsulate_step:
  assumes "prepares P s oc ic" "prims_ok P" "rand_ok rnd" "crypter_ok oc" "crypter_ok d" "same_keys oc d"
    and "encapsulate P rnd s inner nh m = (r, s')"
  shows "\<exists>oc'. prepares P s' oc' ic \<and> crypter_ok oc' \<and> same_keys oc' d \<and> SPIOut s' = SPIOut s
    \<and> (if seqOut s = - 1 then r = Err SeqExhausted \<and> seqOut s' = seqOut s
       else seqOut s' = seqOut s + 1 \<and>
         (\<forall>w. r = Ok w \<longrightarrow> (\<exists>b. w = be32 (SPIOut s) @ be32 (seqOut s + 1) @ b
            \<and> fst (OpenInPlace P d (take 8 w) b) = Ok (esp_plaintext (max (ESP_BlockLen oc) 1) inner nh m))))"
proof -
  define q where "q = snd (prepare P s)"
  have q: "prepare P s = (None, q)" "ready q oc ic"
    using assms(1) by (auto simp: prepares_def q_def prod_eq_iff)
  have k: "SPIOut q = SPIOut s" "seqOut q = seqOut s" by (simp_all add: q_def prepare_keeps)
  note e = assms(7) [unfolded encapsulate_def q(1) appendEncapsulated_def, simplified, unfolded prepare_ready [OF q(2)], simplified]
  show ?thesis
  proof (cases "seqOut s = - 1")
    case True
    then show ?thesis using e k q(2) assms(4,6) ready_prepares [OF q(2)] by auto
  next
    case False
    let ?hdr = "be32 (SPIOut s) @ be32 (seqOut s + 1)"
    let ?pt = "esp_plaintext (max (ESP_BlockLen oc) 1) inner nh m"
    obtain x c' where x: "Seal P rnd oc ?hdr ?hdr ?pt = (x, c')" by (cases "Seal P rnd oc ?hdr ?hdr ?pt")
    have out: "outCrypter q = Some oc" using q(2) by (simp add: ready_def)
    have s': "s' = q\<lparr>seqOut := seqOut s + 1, outCrypter := Some c'\<rparr>" "r = map_sum Crypt id x"
      using e False k out x by (auto simp: Let_def)
    have c': "crypter_ok c'" "same_keys c' d"
      using Seal_ok(1) [OF assms(4), of P rnd ?hdr ?hdr ?pt] Seal_ok(2) [OF assms(4,6), of P rnd ?hdr ?hdr ?pt] x by simp_all
    have "ready s' c' ic" using q(2) by (simp add: s' ready_def)
    moreover have "\<forall>w. r = Ok w \<longrightarrow> (\<exists>b. w = be32 (SPIOut s) @ be32 (seqOut s + 1) @ b \<and> fst (OpenInPlace P d (take 8 w) b) = Ok ?pt)"
    proof (intro allI impI)
      fix w assume "r = Ok w"
      then have "x = Ok w" using s'(2) by (cases x) auto
      then have "fst (Seal P rnd oc ?hdr ?hdr ?pt) = Ok w" using x by simp
      then obtain b where b: "fst (Seal P rnd oc [] ?hdr ?pt) = Ok b" "w = ?hdr @ b"
        by (subst (asm) Seal_appends) (cases "fst (Seal P rnd oc [] ?hdr ?pt)", auto)
      have "fst (OpenInPlace P d ?hdr b) = Ok ?pt"
        using esp_crypter.seal_open [OF assms(2,3) _ b(1)] assms(4-6) by blast
      then show "\<exists>b. w = be32 (SPIOut s) @ be32 (seqOut s + 1) @ b \<and> fst (OpenInPlace P d (take 8 w) b) = Ok ?pt"
        using b(2) by auto
    qed
    ultimately show ?thesis
      using False c' ready_prepares [of s' c' ic P] k by (intro exI [of _ c']) (simp add: s'(1))
  qed
qed

text \<open>Receiving: what the window and the cipher let through, and nothing else.\<close>

lemma decapsulate_step:
  assumes "prepares P s oc ic" "crypter_ok ic" "crypter_ok d" "same_keys ic d" "esp_rel A (rwindow s)"
    and "SA_Decapsulate P s pkt = (r, s')"
  shows "\<exists>ic'. prepares P s' oc ic' \<and> crypter_ok ic' \<and> same_keys ic' d \<and> SPIIn s' = SPIIn s
    \<and> (if 8 \<le> length pkt \<and> get32 0 pkt = SPIIn s \<and> get32 4 pkt \<noteq> 0 \<and> fresh 64 A (unat (get32 4 pkt))
          \<and> (\<exists>pt. fst (OpenInPlace P d (take 8 pkt) (drop 8 pkt)) = Ok pt \<and> (\<exists>y. strip_trailer pt = Ok y))
       then (\<exists>pt. fst (OpenInPlace P d (take 8 pkt) (drop 8 pkt)) = Ok pt \<and> r = strip_trailer pt)
          \<and> esp_rel (insert (unat (get32 4 pkt)) A) (rwindow s')
       else (\<exists>e. r = Err e) \<and> rwindow s' = rwindow s)"
proof -
  define q where "q = snd (prepare P s)"
  have q: "prepare P s = (None, q)" "ready q oc ic"
    using assms(1) by (auto simp: prepares_def q_def prod_eq_iff)
  have k: "SPIIn q = SPIIn s" "rwindow q = rwindow s" by (simp_all add: q_def prepare_keeps)
  have ic: "inCrypter q = Some ic" using q(2) by (simp add: ready_def)
  have ck: "esp_check (rwindow s) x \<longleftrightarrow> \<not> (x \<noteq> 0 \<and> fresh 64 A (unat x))" for x
    by (rule esp_check_iff [OF assms(5)])
  obtain x c' where x: "OpenInPlace P ic (take 8 pkt) (drop 8 pkt) = (x, c')"
    by (cases "OpenInPlace P ic (take 8 pkt) (drop 8 pkt)")
  have xd: "fst (OpenInPlace P d (take 8 pkt) (drop 8 pkt)) = x"
    using OpenInPlace_keys [OF assms(2,3,4), of P "take 8 pkt" "drop 8 pkt"] x by simp
  have c': "crypter_ok c'" "same_keys c' d"
    using OpenInPlace_ok(1) [OF assms(2), of P "take 8 pkt" "drop 8 pkt"]
      OpenInPlace_ok(2) [OF assms(2) same_keys_sym [OF assms(4)], of P "take 8 pkt" "drop 8 pkt"] x
    by (auto intro: same_keys_sym)
  have rq: "ready (q\<lparr>inCrypter := Some c'\<rparr>) oc c'" "ready (q\<lparr>inCrypter := Some c', rwindow := w\<rparr>) oc c'" for w
    using q(2) by (simp_all add: ready_def)
  note e = assms(6) [unfolded SA_Decapsulate_def q(1) espHeaderLen_def, simplified]
  show ?thesis
  proof (cases "8 \<le> length pkt \<and> get32 0 pkt = SPIIn s \<and> get32 4 pkt \<noteq> 0 \<and> fresh 64 A (unat (get32 4 pkt))")
    case False
    then have "s' = q \<and> (\<exists>z. r = Err z)" using e k by (auto simp: ck Let_def split: if_splits)
    then show ?thesis using False q(2) k assms(2,4) ready_prepares [OF q(2)] by auto
  next
    case True
    then have ce: "\<not> esp_check (rwindow s) (get32 4 pkt)" by (simp add: ck)
    show ?thesis
    proof (cases "\<exists>pt y. x = Ok pt \<and> strip_trailer pt = Ok y")
      case False
      then consider z where "x = Err z" | pt z where "x = Ok pt" "strip_trailer pt = Err z"
        by (cases x; cases "strip_trailer (projr x)") auto
      then have s': "s' = q\<lparr>inCrypter := Some c'\<rparr> \<and> (\<exists>z. r = Err z)"
      proof cases
        case 1
        then show ?thesis using e True k ce ic x by (auto simp: Let_def)
      next
        case 2
        then have "s' = q\<lparr>inCrypter := Some c'\<rparr> \<and> r = Err z" using e True k ce ic x by (auto simp: Let_def)
        then show ?thesis by blast
      qed
      have "prepares P s' oc c'" using s' rq(1) ready_prepares by simp
      then show ?thesis using False s' c' k by (intro exI [of _ c']) (auto simp: xd)
    next
      case T: True
      then obtain pt y where y: "x = Ok pt" "strip_trailer pt = Ok y" by blast
      then have s': "s' = q\<lparr>inCrypter := Some c', rwindow := esp_advance (rwindow s) (get32 4 pkt)\<rparr>" "r = Ok y"
        using e True k ce ic x by (auto simp: Let_def)
      have "prepares P s' oc c'" using s' rq(2) ready_prepares by simp
      moreover have "esp_rel (insert (unat (get32 4 pkt)) A) (esp_advance (rwindow s) (get32 4 pkt))"
        by (rule esp_advance_rel [OF assms(5)]) (use True in auto)
      ultimately show ?thesis using True s' c' k y by (intro exI [of _ c']) (simp add: xd)
    qed
  qed
qed

section \<open>A tunnel end to end\<close>

text \<open>
  One end sends, keeping which wire packet carries which IP packet (a packet whose encapsulation
  fails is not sent); the other end is handed datagrams, and what it decapsulates is collected.
\<close>

fun send_all :: "prims \<Rightarrow> (rand \<times> bytes \<times> int) list \<Rightarrow> espTunnel \<Rightarrow> (bytes \<times> bytes) list" where
  "send_all P [] t = []"
| "send_all P ((rnd, pkt, m) # ops) t = (case tun_EncapsulatePadded P rnd t pkt m of
     (Err _, t') \<Rightarrow> send_all P ops t'
   | (Ok w, t') \<Rightarrow> (w, pkt) # send_all P ops t')"

abbreviation recv_all :: "prims \<Rightarrow> bytes list \<Rightarrow> espTunnel \<Rightarrow> bytes list" where
  "recv_all P \<equiv> receive_all (tun_Decapsulate P)"

definition seq_of :: "bytes \<Rightarrow> u32" where
  "seq_of w = get32 4 w"

abbreviation sent_packet :: "(bytes \<times> bytes) list \<Rightarrow> u32 \<Rightarrow> bytes" where
  "sent_packet \<equiv> packet_at seq_of"

text \<open>A wire packet that opens, at an end with these keys, to this IP packet.\<close>

definition carries :: "prims \<Rightarrow> u32 \<Rightarrow> ESPCrypter \<Rightarrow> bytes \<Rightarrow> bytes \<Rightarrow> bool" where
  "carries P spi d w pkt \<longleftrightarrow> 8 \<le> length w \<and> get32 0 w = spi \<and> seq_of w \<noteq> 0
     \<and> (\<exists>pt z. fst (OpenInPlace P d (take 8 w) (drop 8 w)) = Ok pt
          \<and> strip_trailer pt = Ok (pkt @ replicate z 0, espNextHeader pkt))"

lemma send_all_carries:
  assumes "prims_ok P" "\<forall>(rnd, pkt, m) \<in> set ops. rand_ok rnd" "prepares P (espSA t) oc ic"
    and "crypter_ok oc" "crypter_ok d" "same_keys oc d"
  shows "(\<forall>(w, pkt) \<in> set (send_all P ops t). carries P (SPIOut (espSA t)) d w pkt \<and> pkt \<in> (\<lambda>x. fst (snd x)) ` set ops
      \<and> seqOut (espSA t) < seq_of w) \<and> distinct (map (\<lambda>x. seq_of (fst x)) (send_all P ops t))"
  using assms
proof (induction ops arbitrary: t oc)
  case Nil
  then show ?case by simp
next
  case (Cons op ops)
  obtain rnd pkt m where op: "op = (rnd, pkt, m)" by (cases op)
  obtain r t' where rt: "tun_EncapsulatePadded P rnd t pkt m = (r, t')" by (cases "tun_EncapsulatePadded P rnd t pkt m")
  define s' where "s' = espSA t'"
  have enc: "encapsulate P rnd (espSA t) pkt (espNextHeader pkt) m = (r, s')"
    using rt by (auto simp: tun_EncapsulatePadded_def SA_EncapsulatePadded_def lift_sa_def s'_def prod_eq_iff)
  obtain oc' where n: "prepares P s' oc' ic" "crypter_ok oc'" "same_keys oc' d" "SPIOut s' = SPIOut (espSA t)"
    and z: "if seqOut (espSA t) = - 1 then r = Err SeqExhausted \<and> seqOut s' = seqOut (espSA t)
       else seqOut s' = seqOut (espSA t) + 1 \<and>
         (\<forall>w. r = Ok w \<longrightarrow> (\<exists>b. w = be32 (SPIOut (espSA t)) @ be32 (seqOut (espSA t) + 1) @ b
            \<and> fst (OpenInPlace P d (take 8 w) b) = Ok (esp_plaintext (max (ESP_BlockLen oc) 1) pkt (espNextHeader pkt) m)))"
    using encapsulate_step [OF Cons.prems(3,1) _ Cons.prems(4,5,6) enc] Cons.prems(2) op by auto
  have IH: "(\<forall>(w, pkt) \<in> set (send_all P ops t'). carries P (SPIOut (espSA t)) d w pkt \<and> pkt \<in> (\<lambda>x. fst (snd x)) ` set ops
      \<and> seqOut s' < seq_of w) \<and> distinct (map (\<lambda>x. seq_of (fst x)) (send_all P ops t'))"
    using Cons.IH [of t' oc'] n Cons.prems op by (simp add: s'_def comp_def)
  show ?case
  proof (cases "\<exists>w. r = Ok w \<and> seqOut (espSA t) \<noteq> - 1")
    case False
    then have e: "send_all P (op # ops) t = send_all P ops t'" using op rt z by (cases r) auto
    have "seqOut (espSA t) \<le> seqOut s'"
      using z unat_inc [of "seqOut (espSA t)"] by (cases "seqOut (espSA t) = - 1") (auto simp: word_le_nat_alt word_order.not_eq_extremum)
    then show ?thesis using IH unfolding e by (auto simp: op)
  next
    case True
    then obtain w where w: "r = Ok w" and m1: "seqOut (espSA t) \<noteq> - 1" by blast
    let ?q = "seqOut (espSA t) + 1"
    obtain b where b: "w = be32 (SPIOut (espSA t)) @ be32 ?q @ b"
        "fst (OpenInPlace P d (take 8 w) b) = Ok (esp_plaintext (max (ESP_BlockLen oc) 1) pkt (espNextHeader pkt) m)"
      and s': "seqOut s' = ?q" using z m1 w by auto
    have lt: "seqOut (espSA t) < ?q" "?q \<noteq> 0"
      using m1 unat_inc [of "seqOut (espSA t)"] by (auto simp: word_less_nat_alt word_order.not_eq_extremum)
    have sq: "seq_of w = ?q" using b(1) by (simp add: seq_of_def get32_append)
    have bl: "0 < max (ESP_BlockLen oc) 1" "max (ESP_BlockLen oc) 1 \<le> 16" by (cases oc; simp)+
    have "carries P (SPIOut (espSA t)) d w pkt"
      using b lt(2) sq strip_esp_plaintext [OF bl, of pkt "espNextHeader pkt" m] by (auto simp: carries_def)
    moreover have e: "send_all P (op # ops) t = (w, pkt) # send_all P ops t'" using op rt w by simp
    ultimately show ?thesis using IH lt sq unfolding e s' by (fastforce simp: op)
  qed
qed

text \<open>What a receiving end does with a datagram it is handed.\<close>

lemma tun_Decapsulate_step:
  assumes "prepares P (espSA t) oc ic" "crypter_ok ic" "crypter_ok d" "same_keys ic d" "esp_rel A (rwindow (espSA t))"
    and "tun_Decapsulate P t w = (r, t')"
  shows "\<exists>ic'. prepares P (espSA t') oc ic' \<and> crypter_ok ic' \<and> same_keys ic' d \<and> SPIIn (espSA t') = SPIIn (espSA t)
    \<and> (carries P (SPIIn (espSA t)) d w pkt \<longrightarrow> self_delimiting pkt \<longrightarrow>
        (if fresh 64 A (unat (seq_of w))
         then r = Ok pkt \<and> esp_rel (insert (unat (seq_of w)) A) (rwindow (espSA t'))
         else (\<exists>e. r = Err e) \<and> rwindow (espSA t') = rwindow (espSA t)))
    \<and> ((\<exists>e. fst (OpenInPlace P d (take 8 w) (drop 8 w)) = Err e) \<longrightarrow>
        (\<exists>e. r = Err e) \<and> rwindow (espSA t') = rwindow (espSA t))"
proof -
  obtain x s' where x: "SA_Decapsulate P (espSA t) w = (x, s')" by (cases "SA_Decapsulate P (espSA t) w")
  have t': "espSA t' = s'" and err: "\<And>e. x = Err e \<Longrightarrow> r = Err e"
    using assms(6) x by (auto simp: tun_Decapsulate_def Let_def split: sum.splits prod.splits if_splits)
  have nh: "espNextHeader pkt = 4 \<or> espNextHeader pkt = 41" by (simp add: espNextHeader_def)
  have "r = Ok pkt" if "x = Ok (pkt @ replicate z 0, espNextHeader pkt)" "self_delimiting pkt" for z
  proof -
    have "TrimToIP (pkt @ replicate z 0) = pkt" "pkt \<noteq> []" using TrimToIP_pad that(2) by (auto simp: self_delimiting_def)
    then show ?thesis using assms(6) x that(1) nh by (auto simp: tun_Decapsulate_def)
  qed
  with decapsulate_step [OF assms(1-5) x] err show ?thesis
    unfolding t' by (elim exE) (rule exI, auto simp: carries_def seq_of_def split: if_splits)
qed

text \<open>The tunnel keeps the contract of a receiver: its crypters are those of the keys \<open>d\<close>, and its window has seen \<open>A\<close>.\<close>

definition esp_holds :: "prims \<Rightarrow> ESPCrypter \<Rightarrow> u32 \<Rightarrow> nat set \<Rightarrow> espTunnel \<Rightarrow> bool" where
  "esp_holds P d spi A t \<longleftrightarrow> crypter_ok d \<and> SPIIn (espSA t) = spi \<and> esp_rel A (rwindow (espSA t))
     \<and> (\<exists>oc ic. prepares P (espSA t) oc ic \<and> crypter_ok ic \<and> same_keys ic d)"

interpretation esp_recv: datagram_receiver 64 "\<lambda>c. c \<noteq> 0" seq_of "tun_Decapsulate P"
  "\<lambda>w pkt. carries P spi d w pkt \<and> self_delimiting pkt" "\<lambda>w. \<exists>e. fst (OpenInPlace P d (take 8 w) (drop 8 w)) = Err e" "esp_holds P d spi"
  for P d spi
proof
  fix A t w pkt r t'
  assume h: "esp_holds P d spi A t" and c: "carries P spi d w pkt \<and> self_delimiting pkt" and rt: "tun_Decapsulate P t w = (r, t')"
  from h obtain oc ic where "crypter_ok d" "SPIIn (espSA t) = spi" "esp_rel A (rwindow (espSA t))" "prepares P (espSA t) oc ic" "crypter_ok ic" "same_keys ic d"
    by (auto simp: esp_holds_def)
  with tun_Decapsulate_step [OF this(4,5,1,6,3) rt, of pkt] c
  show "seq_of w \<noteq> 0 \<and> (if fresh 64 A (unat (seq_of w)) then r = Ok pkt \<and> esp_holds P d spi (insert (unat (seq_of w)) A) t'
      else (\<exists>e. r = Err e) \<and> esp_holds P d spi A t')"
    unfolding esp_holds_def by (auto simp: carries_def)
next
  fix A t w r t'
  assume h: "esp_holds P d spi A t" and e: "\<exists>e. fst (OpenInPlace P d (take 8 w) (drop 8 w)) = Err e" and rt: "tun_Decapsulate P t w = (r, t')"
  from h obtain oc ic where "crypter_ok d" "SPIIn (espSA t) = spi" "esp_rel A (rwindow (espSA t))" "prepares P (espSA t) oc ic" "crypter_ok ic" "same_keys ic d"
    by (auto simp: esp_holds_def)
  with tun_Decapsulate_step [OF this(4,5,1,6,3) rt, of "[]"] e show "(\<exists>e. r = Err e) \<and> esp_holds P d spi A t'"
    unfolding esp_holds_def by metis
qed

section \<open>Properties\<close>

text \<open>
  C5: a tunnel end to end.  The sending end encapsulates IP packets, padded as asked; the network
  loses, repeats and reorders the ESP packets and inserts datagrams of its own that do not authenticate
  under the receiver's key.  The receiving end, built from the same negotiated transform, delivers the IP packets without
  their padding, octet for octet: exactly one for each sequence number that is new and within 64 of the highest
  delivered, in order of arrival, and nothing for anything else.  If no packet arrives twice or 64 or more late,
  all that arrive are delivered.
\<close>

theorem esp_tunnel_delivers:
  assumes "prims_ok P" and "\<forall>(rnd, pkt, m) \<in> set ops. rand_ok rnd \<and> self_delimiting pkt"
    and "\<not> prepOnce (espSA t)" "crypterFor P (OutT (espSA t)) = Ok oc" "crypterFor P (InT (espSA t)) = Ok ic"
    and "\<not> prepOnce (espSA u)" "crypterFor P (OutT (espSA u)) = Ok uc" "rwindow (espSA u) = esp_window0"
    and "InT (espSA u) = OutT (espSA t)" "SPIIn (espSA u) = SPIOut (espSA t)"
    and "sent = send_all P ops t" and "genuine = filter (\<lambda>w. w \<in> fst ` set sent) ws"
    and "\<forall>w \<in> set ws. w \<in> set genuine \<or> (\<exists>e. fst (OpenInPlace P oc (take 8 w) (drop 8 w)) = Err e)"
  shows "recv_all P ws u = map (sent_packet sent) (spec_accepted 64 (\<lambda>c. c \<noteq> 0) {} (map seq_of genuine))
    \<and> (distinct (map seq_of genuine) \<and> mildly_reordered 64 (map seq_of genuine) \<longrightarrow>
         recv_all P ws u = map (sent_packet sent) (map seq_of genuine))"
proof -
  have ok: "crypter_ok oc" using ESPCrypter_of_ok [OF assms(1)] assms(4) by (simp add: crypterFor_def)
  have s: "(\<forall>(w, pkt) \<in> set sent. carries P (SPIOut (espSA t)) oc w pkt \<and> pkt \<in> (\<lambda>x. fst (snd x)) ` set ops
      \<and> seqOut (espSA t) < seq_of w) \<and> distinct (map (\<lambda>x. seq_of (fst x)) sent)"
    unfolding assms(11)
    by (rule send_all_carries [OF assms(1) _ prepares_fresh [OF assms(3,4,5)] ok ok]) (use assms(2) in auto)
  have h: "esp_holds P oc (SPIIn (espSA u)) {} u"
    unfolding esp_holds_def
    by (intro conjI exI [of _ uc] exI [of _ oc]) (use prepares_fresh [OF assms(6,7), of oc] assms(4,8,9) esp.rel_init ok in auto)
  have c: "\<forall>(w, pkt) \<in> set sent. carries P (SPIIn (espSA u)) oc w pkt \<and> self_delimiting pkt" using s assms(2,10) by fastforce
  have f: "\<forall>w \<in> set ws. w \<in> fst ` set sent \<or> (\<exists>e. fst (OpenInPlace P oc (take 8 w) (drop 8 w)) = Err e)" using assms(12,13) by auto
  have v: "\<forall>w \<in> fst ` set sent. seq_of w \<noteq> 0" using s by (fastforce simp: carries_def)
  show ?thesis
    using esp_recv.receives [OF h c conjunct2 [OF s] f] esp_recv.receives_all [OF h c conjunct2 [OF s] f assms(12) v] unfolding assms(12) by blast
qed

definition example_transform :: Transform where
  "example_transform = \<lparr>EncrID = 20, EncrKeyLn = 256, IntegID = 0, EncKey = replicate 36 7, IntegKey = []\<rparr>"

definition example_tunnel :: "u32 \<Rightarrow> u32 \<Rightarrow> espTunnel" where
  "example_tunnel spiOut spiIn = \<lparr>espSA = \<lparr>SPIOut = spiOut, SPIIn = spiIn, OutT = example_transform, InT = example_transform,
     seqOut = 0, rwindow = esp_window0, outCrypter = None, inCrypter = None, prepErr = None, prepOnce = False\<rparr>, inSPI = spiIn\<rparr>"

definition esp_example_ip :: bytes where
  "esp_example_ip = [69, 0, 0, 20] @ replicate 16 1"

definition example_crypter :: ESPCrypter where
  "example_crypter = AEAD \<lparr>ea_alg = AESGCM, ea_key = replicate 32 7, ea_salt = replicate 4 7, ea_nonce = None, ea_iv = 0\<rparr>"

lemma example_crypterFor: "crypterFor example_prims example_transform = Ok example_crypter"
  by (simp add: crypterFor_def example_transform_def ESPCrypter_of_def ENCR_AES_GCM_16_def NewAESGCMESPCrypter_def
      aesKeyLen_def aes_key_ok_def newESPAEAD_def example_crypter_def slice_def)

lemma example_sent:
  "\<exists>w. send_all example_prims [(\<lambda>_. None, esp_example_ip, 30)] (example_tunnel 5 6) = [(w, esp_example_ip)]"
proof -
  define s where "s = (espSA (example_tunnel 5 6))\<lparr>prepOnce := True, outCrypter := Some example_crypter, inCrypter := Some example_crypter\<rparr>"
  have p: "prepare example_prims (espSA (example_tunnel 5 6)) = (None, s)" "prepare example_prims s = (None, s)"
    and q: "seqOut s = 0" "outCrypter s = Some example_crypter"
    by (simp_all add: prepare_def s_def example_tunnel_def example_crypterFor)
  have "\<exists>w s. encapsulate example_prims (\<lambda>_. None) (espSA (example_tunnel 5 6)) esp_example_ip n 30 = (Ok w, s)" for n
    by (simp add: encapsulate_def appendEncapsulated_def p q example_crypter_def espAEAD_Seal_def Let_def)
  then obtain w s where "encapsulate example_prims (\<lambda>_. None) (espSA (example_tunnel 5 6)) esp_example_ip (espNextHeader esp_example_ip) 30 = (Ok w, s)"
    by blast
  then show ?thesis by (simp add: tun_EncapsulatePadded_def SA_EncapsulatePadded_def lift_sa_def)
qed

lemma esp_tunnel_delivers_witness:
  "\<exists>w. send_all example_prims [(\<lambda>_. None, esp_example_ip, 30)] (example_tunnel 5 6) = [(w, esp_example_ip)]
     \<and> recv_all example_prims [w, w] (example_tunnel 9 5) = [esp_example_ip]"
proof -
  let ?ops = "[(\<lambda>_. None, esp_example_ip, 30)]"
  obtain w where w: "send_all example_prims ?ops (example_tunnel 5 6) = [(w, esp_example_ip)]" using example_sent by blast
  have sd: "self_delimiting esp_example_ip"
    by (simp add: self_delimiting_def version_def esp_example_ip_def eval_simps)
  have "recv_all example_prims [w, w] (example_tunnel 9 5) =
      map (sent_packet [(w, esp_example_ip)]) (spec_accepted 64 (\<lambda>c. c \<noteq> 0) {} (map seq_of [w, w]))"
    using esp_tunnel_delivers [OF example_prims_ok, of ?ops "example_tunnel 5 6" example_crypter example_crypter "example_tunnel 9 5" example_crypter
      "[(w, esp_example_ip)]" "[w, w]" "[w, w]"] w sd
    by (simp add: rand_ok_def example_tunnel_def example_crypterFor del: send_all.simps)
  moreover have "seq_of w \<noteq> 0"
    using send_all_carries [OF example_prims_ok, of ?ops "example_tunnel 5 6" example_crypter example_crypter example_crypter] w
      prepares_fresh [of "espSA (example_tunnel 5 6)" example_prims example_crypter example_crypter]
    by (simp add: rand_ok_def example_tunnel_def example_crypterFor carries_def crypter_ok_def example_crypter_def aead_inv_def
        del: send_all.simps)
  ultimately show ?thesis using w by (simp add: fresh_def packet_at_def)
qed

end
