(* ===== verification/Ike_Message.thy ===== *)
theory Ike_Message
  imports Prelude
begin

text \<open>
  IKEv2 messages, \<^verbatim>\<open>internal/ikev2/payload/message.go\<close>: the fixed header, the chain of generic
  payloads, its builder, and the second walk over a decrypted chain
  (\<^verbatim>\<open>parseInnerPayloads\<close> of \<^verbatim>\<open>internal/ikev2/ike/sk.go\<close>).  The parsers step through the buffer;
  the model passes on the part of the buffer not yet read.
\<close>

definition IkeHeaderLen :: nat where "IkeHeaderLen = 28"
definition genericPayloadHeaderLen :: nat where "genericPayloadHeaderLen = 4"

definition FlagInitiator :: byte where "FlagInitiator = 0x08"
definition FlagResponse :: byte where "FlagResponse = 0x20"

definition NoNextPayload :: byte where "NoNextPayload = 0"
definition TypeNotify :: byte where "TypeNotify = 41"
definition TypeSK :: byte where "TypeSK = 46"
definition TypeSKF :: byte where "TypeSKF = 53"

lemmas ike_types = NoNextPayload_def TypeSK_def TypeSKF_def
lemmas ike_lens = IkeHeaderLen_def genericPayloadHeaderLen_def

datatype ike_error = ErrTruncated | BadHeaderLength | BadPayloadLength byte

section \<open>The header\<close>

record IkeHeader =
  InitiatorSPI :: u64
  ResponderSPI :: u64
  NextPayload :: byte
  Version :: byte
  ExchangeType :: byte
  Flags :: byte
  MessageID :: u32
  Length :: u32

definition IsInitiator :: "IkeHeader \<Rightarrow> bool" where
  "IsInitiator h \<longleftrightarrow> Flags h AND FlagInitiator \<noteq> 0"

definition IsResponse :: "IkeHeader \<Rightarrow> bool" where
  "IsResponse h \<longleftrightarrow> Flags h AND FlagResponse \<noteq> 0"

definition MarshalIkeHeader :: "IkeHeader \<Rightarrow> bytes \<Rightarrow> bytes" where
  "MarshalIkeHeader h dst = dst @ be64 (InitiatorSPI h) @ be64 (ResponderSPI h)
     @ [NextPayload h, Version h, ExchangeType h, Flags h] @ be32 (MessageID h) @ be32 (Length h)"

definition ParseIkeHeader :: "bytes \<Rightarrow> ike_error + IkeHeader" where
  "ParseIkeHeader buf =
     (if length buf < IkeHeaderLen then Err ErrTruncated
      else Ok \<lparr>InitiatorSPI = get64 0 buf, ResponderSPI = get64 8 buf, NextPayload = buf ! 16, Version = buf ! 17,
        ExchangeType = buf ! 18, Flags = buf ! 19, MessageID = get32 20 buf, Length = get32 24 buf\<rparr>)"

section \<open>The payload chain\<close>

record RawPayload =
  Type :: byte
  Critical :: bool
  Body :: bytes

record IkeMessage =
  Header :: IkeHeader
  Payloads :: "RawPayload list"

definition FirstPayloadType :: "IkeMessage \<Rightarrow> byte" where
  "FirstPayloadType m = (case Payloads m of [] \<Rightarrow> NoNextPayload | p # _ \<Rightarrow> Type p)"

definition Find :: "byte \<Rightarrow> IkeMessage \<Rightarrow> RawPayload option" where
  "Find t m = List.find (\<lambda>p. Type p = t) (Payloads m)"

definition FindAll :: "byte \<Rightarrow> IkeMessage \<Rightarrow> RawPayload list" where
  "FindAll t m = filter (\<lambda>p. Type p = t) (Payloads m)"

function parsePayloadChain :: "byte \<Rightarrow> bytes \<Rightarrow> ike_error + RawPayload list" where
  "parsePayloadChain nxt buf =
     (if nxt = NoNextPayload then Ok []
      else if length buf < genericPayloadHeaderLen then Err ErrTruncated
      else let len = unat (get16 2 buf) in
           if len < genericPayloadHeaderLen \<or> len > length buf then Err (BadPayloadLength nxt)
           else let p = \<lparr>Type = nxt, Critical = (buf ! 1 AND 0x80 \<noteq> 0), Body = slice genericPayloadHeaderLen len buf\<rparr> in
                if nxt = TypeSK \<or> nxt = TypeSKF then Ok [p]
                else map_sum id (Cons p) (parsePayloadChain (buf ! 0) (drop len buf)))"
  by pat_completeness auto
termination
  by (relation "measure (\<lambda>(nxt, buf). length buf)") (auto simp: genericPayloadHeaderLen_def)

declare parsePayloadChain.simps [simp del]

definition ParseMessage :: "bytes \<Rightarrow> ike_error + IkeMessage" where
  "ParseMessage buf = (case ParseIkeHeader buf of
     Err x \<Rightarrow> Err x
   | Ok h \<Rightarrow>
       if unat (Length h) \<noteq> length buf then Err BadHeaderLength
       else map_sum id (\<lambda>ps. \<lparr>Header = h, Payloads = ps\<rparr>) (parsePayloadChain (NextPayload h) (drop IkeHeaderLen buf)))"

text \<open>\<^verbatim>\<open>parseInnerPayloads\<close>, the same walk written out again for a decrypted chain.\<close>

function parseInnerPayloads :: "byte \<Rightarrow> bytes \<Rightarrow> ike_error + RawPayload list" where
  "parseInnerPayloads nxt inner =
     (if nxt = NoNextPayload then Ok []
      else if length inner < 4 then Err ErrTruncated
      else let len = unat (get16 2 inner) in
           if len < 4 \<or> len > length inner then Err (BadPayloadLength nxt)
           else map_sum id (Cons \<lparr>Type = nxt, Critical = (inner ! 1 AND 0x80 \<noteq> 0), Body = slice 4 len inner\<rparr>)
                  (parseInnerPayloads (inner ! 0) (drop len inner)))"
  by pat_completeness auto
termination
  by (relation "measure (\<lambda>(nxt, buf). length buf)") auto

declare parseInnerPayloads.simps [simp del]

section \<open>The builder\<close>

record Builder =
  b_buf :: bytes
  b_firstType :: byte
  b_haveFirst :: bool
  b_lastNextOff :: int

definition NewBuilder :: Builder where
  "NewBuilder = \<lparr>b_buf = [], b_firstType = 0, b_haveFirst = False, b_lastNextOff = -1\<rparr>"

definition Add :: "byte \<Rightarrow> bool \<Rightarrow> bytes \<Rightarrow> Builder \<Rightarrow> Builder" where
  "Add t critical body b =
     (let b1 = (if \<not> b_haveFirst b then b\<lparr>b_firstType := t, b_haveFirst := True\<rparr>
                else b\<lparr>b_buf := (b_buf b)[nat (b_lastNextOff b) := t]\<rparr>);
          start = length (b_buf b1);
          crit = (if critical then 0x80 else 0);
          total = genericPayloadHeaderLen + length body
      in b1\<lparr>b_buf := b_buf b1 @ [NoNextPayload, crit] @ be16 (of_nat total) @ body, b_lastNextOff := int start\<rparr>)"

definition FirstType :: "Builder \<Rightarrow> byte" where
  "FirstType b = (if \<not> b_haveFirst b then NoNextPayload else b_firstType b)"

definition Bytes :: "Builder \<Rightarrow> bytes" where
  "Bytes b = b_buf b"

section \<open>The header round trip\<close>

lemma length_MarshalIkeHeader [simp]: "length (MarshalIkeHeader h dst) = length dst + 28"
  by (simp add: MarshalIkeHeader_def)

lemma ParseIkeHeader_Marshal: "ParseIkeHeader (MarshalIkeHeader h [] @ rest) = Ok h"
proof -
  have "(MarshalIkeHeader h [] @ rest) ! 16 = NextPayload h" "(MarshalIkeHeader h [] @ rest) ! 17 = Version h"
    "(MarshalIkeHeader h [] @ rest) ! 18 = ExchangeType h" "(MarshalIkeHeader h [] @ rest) ! 19 = Flags h"
    by (simp_all add: MarshalIkeHeader_def nth_append)
  moreover have "get64 0 (MarshalIkeHeader h [] @ rest) = InitiatorSPI h" "get64 8 (MarshalIkeHeader h [] @ rest) = ResponderSPI h"
    "get32 20 (MarshalIkeHeader h [] @ rest) = MessageID h" "get32 24 (MarshalIkeHeader h [] @ rest) = Length h"
    by (simp_all add: MarshalIkeHeader_def wire_simps)
  ultimately show ?thesis by (simp add: ParseIkeHeader_def IkeHeaderLen_def)
qed

section \<open>The chain round trip\<close>

definition next_of :: "RawPayload list \<Rightarrow> byte" where
  "next_of ps = (case ps of [] \<Rightarrow> NoNextPayload | p # _ \<Rightarrow> Type p)"

fun chain_bytes :: "RawPayload list \<Rightarrow> bytes" where
  "chain_bytes [] = []"
| "chain_bytes (p # ps) = [next_of ps, if Critical p then 0x80 else 0] @ be16 (of_nat (4 + length (Body p))) @ Body p @ chain_bytes ps"

definition payload_ok :: "RawPayload \<Rightarrow> bool" where
  "payload_ok p \<longleftrightarrow> Type p \<noteq> NoNextPayload \<and> length (Body p) \<le> 65531"

definition add_all :: "RawPayload list \<Rightarrow> Builder \<Rightarrow> Builder" where
  "add_all ps b = fold (\<lambda>p. Add (Type p) (Critical p) (Body p)) ps b"

lemma chain_patch:
  "(chain_bytes (ps @ [p]))[length (chain_bytes ps) := Type q] @ chain_bytes [q] = chain_bytes (ps @ [p, q])"
proof (induction ps)
  case Nil
  then show ?case by (simp add: next_of_def)
next
  case (Cons r ps)
  have n: "next_of (ps @ [p, q]) = next_of (ps @ [p])" by (cases ps) (simp_all add: next_of_def)
  let ?h = "[next_of (ps @ [p]), if Critical r then 0x80 else 0] @ be16 (of_nat (4 + length (Body r))) @ Body r"
  have "(?h @ chain_bytes (ps @ [p]))[length ?h + length (chain_bytes ps) := Type q] = ?h @ (chain_bytes (ps @ [p]))[length (chain_bytes ps) := Type q]"
    by (simp only: list_update_append) simp
  moreover have "chain_bytes ((r # ps) @ [p]) = ?h @ chain_bytes (ps @ [p])" "length (chain_bytes (r # ps)) = length ?h + length (chain_bytes ps)"
    "chain_bytes ((r # ps) @ [p, q]) = ?h @ chain_bytes (ps @ [p, q])"
    by (simp_all add: n)
  ultimately show ?case using Cons by (simp only: append_assoc)
qed

lemma add_all_chain:
  "add_all ps NewBuilder = \<lparr>b_buf = chain_bytes ps, b_firstType = (if ps = [] then 0 else Type (hd ps)), b_haveFirst = (ps \<noteq> []),
     b_lastNextOff = (if ps = [] then -1 else int (length (chain_bytes (butlast ps))))\<rparr>"
proof (induction ps rule: rev_induct)
  case Nil
  then show ?case by (simp add: add_all_def NewBuilder_def)
next
  case (snoc q ps)
  have a: "add_all (ps @ [q]) NewBuilder = Add (Type q) (Critical q) (Body q) (add_all ps NewBuilder)" by (simp add: add_all_def)
  show ?case
  proof (cases ps rule: rev_cases)
    case Nil
    then show ?thesis unfolding a snoc by (simp add: Add_def next_of_def genericPayloadHeaderLen_def)
  next
    case (snoc init p)
    have "Add (Type q) (Critical q) (Body q) (add_all ps NewBuilder) =
      \<lparr>b_buf = (chain_bytes ps)[length (chain_bytes init) := Type q] @ chain_bytes [q], b_firstType = Type (hd ps), b_haveFirst = True,
        b_lastNextOff = int (length (chain_bytes ps))\<rparr>"
      unfolding \<open>add_all ps NewBuilder = _\<close> using snoc by (simp add: Add_def next_of_def genericPayloadHeaderLen_def Let_def)
    moreover have "hd (init @ [p, q]) = hd (init @ [p])" "butlast (init @ [p, q]) = init @ [p]"
      by (cases init) (simp_all add: butlast_append)
    ultimately show ?thesis unfolding a using snoc chain_patch [of init p q] by simp
  qed
qed

lemma and_80 [simp]: "(0x80 :: byte) AND 0x80 \<noteq> 0"
  by simp

text \<open>Both walks read a built chain back; only the outer one stops at an encrypted payload.\<close>

lemma chain_step:
  assumes "payload_ok p"
  shows "parseInnerPayloads (Type p) (chain_bytes (p # ps) @ rest) = map_sum id (Cons p) (parseInnerPayloads (next_of ps) (chain_bytes ps @ rest))"
    and "parsePayloadChain (Type p) (chain_bytes (p # ps) @ rest) =
      (if Type p = TypeSK \<or> Type p = TypeSKF then Ok [p] else map_sum id (Cons p) (parsePayloadChain (next_of ps) (chain_bytes ps @ rest)))"
proof -
  let ?b = "chain_bytes (p # ps) @ rest"
  have l: "unat (get16 2 ?b) = 4 + length (Body p)"
    using assms by (simp add: wire_simps payload_ok_def unat_of_nat_small flip: of_nat_add)
  define g where "g = [next_of ps, if Critical p then 0x80 else 0] @ be16 (of_nat (4 + length (Body p)))"
  have g: "?b = g @ Body p @ chain_bytes ps @ rest" "length g = 4" by (simp_all add: g_def)
  have b: "slice 4 (4 + length (Body p)) ?b = Body p" "drop (4 + length (Body p)) ?b = chain_bytes ps @ rest"
    unfolding g(1) using g(2) by (simp_all add: slice_def)
  have c: "(?b ! 1 AND 0x80 \<noteq> 0) = Critical p" "?b ! 0 = next_of ps" by simp_all
  have n: "4 + length (Body p) \<le> length ?b" by simp
  have p: "\<lparr>Type = Type p, Critical = Critical p, Body = Body p\<rparr> = p" by simp
  let ?p = "\<lparr>Type = Type p, Critical = Critical p, Body = Body p\<rparr>"
  have "parseInnerPayloads (Type p) ?b = map_sum id (Cons ?p) (parseInnerPayloads (next_of ps) (chain_bytes ps @ rest))"
    using assms l b c n by (subst parseInnerPayloads.simps) (simp add: payload_ok_def del: chain_bytes.simps)
  then show "parseInnerPayloads (Type p) ?b = map_sum id (Cons p) (parseInnerPayloads (next_of ps) (chain_bytes ps @ rest))"
    unfolding p .
  have "parsePayloadChain (Type p) ?b =
      (if Type p = TypeSK \<or> Type p = TypeSKF then Ok [?p] else map_sum id (Cons ?p) (parsePayloadChain (next_of ps) (chain_bytes ps @ rest)))"
    using assms l b c n by (subst parsePayloadChain.simps) (simp add: payload_ok_def genericPayloadHeaderLen_def Let_def del: chain_bytes.simps)
  then show "parsePayloadChain (Type p) ?b =
      (if Type p = TypeSK \<or> Type p = TypeSKF then Ok [p] else map_sum id (Cons p) (parsePayloadChain (next_of ps) (chain_bytes ps @ rest)))"
    unfolding p .
qed

lemma inner_chain_roundtrip:
  "\<forall>p \<in> set ps. payload_ok p \<Longrightarrow> parseInnerPayloads (next_of ps) (chain_bytes ps @ rest) = Ok ps"
proof (induction ps)
  case Nil
  then show ?case by (subst parseInnerPayloads.simps) (simp add: next_of_def)
next
  case (Cons p ps)
  then show ?case using chain_step(1) [of p ps rest] by (simp add: next_of_def [of "p # ps"] del: chain_bytes.simps)
qed

lemma outer_chain_roundtrip:
  "\<forall>p \<in> set ps. payload_ok p \<and> Type p \<noteq> TypeSK \<and> Type p \<noteq> TypeSKF \<Longrightarrow> parsePayloadChain (next_of ps) (chain_bytes ps @ rest) = Ok ps"
proof (induction ps)
  case Nil
  then show ?case by (subst parsePayloadChain.simps) (simp add: next_of_def)
next
  case (Cons p ps)
  then show ?case using chain_step(2) [of p ps rest] by (simp add: next_of_def [of "p # ps"] del: chain_bytes.simps)
qed

text \<open>
  C33: An IKE message built from a header and a list of payloads parses back to them: the builder's
  back-patched chain gives the parser every payload's type, critical bit and body in order, and the
  header announces the first one and the length.
\<close>

theorem ike_message_roundtrip:
  assumes "\<forall>p \<in> set ps. payload_ok p \<and> Type p \<noteq> TypeSK \<and> Type p \<noteq> TypeSKF"
    and "b = add_all ps NewBuilder" and "28 + length (Bytes b) < 2 ^ 32"
    and "h = h0\<lparr>NextPayload := FirstType b, Length := of_nat (28 + length (Bytes b))\<rparr>"
  shows "ParseMessage (MarshalIkeHeader h [] @ Bytes b) = Ok \<lparr>Header = h, Payloads = ps\<rparr>
    \<and> parseInnerPayloads (FirstType b) (Bytes b) = Ok ps"
proof -
  have b: "Bytes b = chain_bytes ps" "FirstType b = next_of ps"
    using assms(2) by (simp_all add: add_all_chain Bytes_def FirstType_def next_of_def split: list.split)
  have l: "unat (Length h) = 28 + length (chain_bytes ps)" using assms(3,4) b by (simp add: unat_of_nat_small flip: of_nat_add)
  have n: "NextPayload h = next_of ps" using assms(4) b by simp
  have "ParseMessage (MarshalIkeHeader h [] @ chain_bytes ps) = Ok \<lparr>Header = h, Payloads = ps\<rparr>"
    using outer_chain_roundtrip [OF assms(1), of "[]"] l n by (simp add: ParseMessage_def ParseIkeHeader_Marshal IkeHeaderLen_def)
  moreover have "parseInnerPayloads (next_of ps) (chain_bytes ps) = Ok ps"
    using inner_chain_roundtrip [of ps "[]"] assms(1) by simp
  ultimately show ?thesis by (simp add: b)
qed


definition example_payloads :: "RawPayload list" where
  "example_payloads = [\<lparr>Type = 33, Critical = True, Body = [1, 2]\<rparr>, \<lparr>Type = 40, Critical = False, Body = [3]\<rparr>]"

definition example_header :: IkeHeader where
  "example_header = \<lparr>InitiatorSPI = 7, ResponderSPI = 9, NextPayload = 0, Version = 0x20, ExchangeType = 34, Flags = 8, MessageID = 1, Length = 0\<rparr>"

theorem ike_message_roundtrip_witness:
  "let b = add_all example_payloads NewBuilder;
       h = example_header\<lparr>NextPayload := FirstType b, Length := of_nat (28 + length (Bytes b))\<rparr>
   in 28 + length (Bytes b) < 2 ^ 32 \<and> ParseMessage (MarshalIkeHeader h [] @ Bytes b) = Ok \<lparr>Header = h, Payloads = example_payloads\<rparr>"
proof -
  have ok: "\<forall>p \<in> set example_payloads. payload_ok p \<and> Type p \<noteq> TypeSK \<and> Type p \<noteq> TypeSKF"
    by (simp add: example_payloads_def payload_ok_def ike_types)
  have l: "28 + length (Bytes (add_all example_payloads NewBuilder)) < 2 ^ 32"
    by (simp add: add_all_chain Bytes_def example_payloads_def)
  show ?thesis using ike_message_roundtrip [OF ok refl l refl, of example_header] l by (simp add: Let_def)
qed

end
