(* ===== verification/Ike_Payload.thy ===== *)
theory Ike_Payload
  imports Ike_Message
begin

text \<open>
  The bodies of IKEv2 payloads, \<^verbatim>\<open>internal/ikev2/payload/bodies.go\<close> and \<^verbatim>\<open>sa.go\<close>: an encoder and a
  decoder per payload.  A decoder's loop over the buffer passes on what is left of it; the value that
  the code returns beside an error is not part of the model.
\<close>

datatype body_error = BodyTruncated | BadProposalLength nat | BadTransformLength nat | BadSelectorLength nat

section \<open>Key exchange, nonce, notify\<close>

record KEPayload =
  ke_Group :: u16
  KeyData :: bytes

definition MarshalKE :: "KEPayload \<Rightarrow> bytes" where
  "MarshalKE ke = be16 (ke_Group ke) @ [0, 0] @ KeyData ke"

definition ParseKE :: "bytes \<Rightarrow> body_error + KEPayload" where
  "ParseKE buf = (if length buf < 4 then Err BodyTruncated else Ok \<lparr>ke_Group = get16 0 buf, KeyData = drop 4 buf\<rparr>)"

definition MarshalNonce :: "bytes \<Rightarrow> bytes" where
  "MarshalNonce nonce = nonce"

definition ParseNonce :: "bytes \<Rightarrow> bytes" where
  "ParseNonce buf = buf"

record NotifyPayload =
  n_Protocol :: byte
  n_Type :: u16
  n_SPI :: bytes
  n_Data :: bytes

definition MarshalNotify :: "NotifyPayload \<Rightarrow> bytes" where
  "MarshalNotify n = [n_Protocol n, of_nat (length (n_SPI n))] @ be16 (n_Type n) @ n_SPI n @ n_Data n"

definition ParseNotify :: "bytes \<Rightarrow> body_error + NotifyPayload" where
  "ParseNotify buf =
     (if length buf < 4 then Err BodyTruncated
      else let spiSize = unat (buf ! 1) in
        if 4 + spiSize > length buf then Err BodyTruncated
        else Ok \<lparr>n_Protocol = buf ! 0, n_Type = get16 2 buf, n_SPI = slice 4 (4 + spiSize) buf, n_Data = drop (4 + spiSize) buf\<rparr>)"

section \<open>Identity, certificates, authentication\<close>

record IDPayload =
  id_Type :: byte
  id_Data :: bytes

definition MarshalID :: "IDPayload \<Rightarrow> bytes" where
  "MarshalID i = [id_Type i, 0, 0, 0] @ id_Data i"

definition ParseID :: "bytes \<Rightarrow> body_error + IDPayload" where
  "ParseID buf = (if length buf < 4 then Err BodyTruncated else Ok \<lparr>id_Type = buf ! 0, id_Data = drop 4 buf\<rparr>)"

record CertPayload =
  cert_Encoding :: byte
  cert_Data :: bytes

definition MarshalCert :: "CertPayload \<Rightarrow> bytes" where
  "MarshalCert c = [cert_Encoding c] @ cert_Data c"

definition ParseCert :: "bytes \<Rightarrow> body_error + CertPayload" where
  "ParseCert buf = (if length buf < 1 then Err BodyTruncated else Ok \<lparr>cert_Encoding = buf ! 0, cert_Data = drop 1 buf\<rparr>)"

record CertReqPayload =
  creq_Encoding :: byte
  CAs :: bytes

definition MarshalCertReq :: "CertReqPayload \<Rightarrow> bytes" where
  "MarshalCertReq c = [creq_Encoding c] @ CAs c"

definition ParseCertReq :: "bytes \<Rightarrow> body_error + CertReqPayload" where
  "ParseCertReq buf = (if length buf < 1 then Err BodyTruncated else Ok \<lparr>creq_Encoding = buf ! 0, CAs = drop 1 buf\<rparr>)"

record AuthPayload =
  auth_Method :: byte
  auth_Data :: bytes

definition MarshalAuth :: "AuthPayload \<Rightarrow> bytes" where
  "MarshalAuth a = [auth_Method a, 0, 0, 0] @ auth_Data a"

definition ParseAuth :: "bytes \<Rightarrow> body_error + AuthPayload" where
  "ParseAuth buf = (if length buf < 4 then Err BodyTruncated else Ok \<lparr>auth_Method = buf ! 0, auth_Data = drop 4 buf\<rparr>)"

section \<open>Traffic selectors\<close>

text \<open>\<^verbatim>\<open>net.IP.To4\<close> and \<^verbatim>\<open>To16\<close>; nil is the empty address.\<close>

definition v4InV6Prefix :: bytes where
  "v4InV6Prefix = replicate 10 0 @ [0xff, 0xff]"

definition To4 :: "bytes \<Rightarrow> bytes" where
  "To4 ip = (if length ip = 4 then ip
     else if length ip = 16 \<and> take 12 ip = v4InV6Prefix then drop 12 ip else [])"

definition To16 :: "bytes \<Rightarrow> bytes" where
  "To16 ip = (if length ip = 4 then v4InV6Prefix @ ip else if length ip = 16 then ip else [])"

definition TSIPv4AddrRange :: byte where "TSIPv4AddrRange = 7"
definition TSIPv6AddrRange :: byte where "TSIPv6AddrRange = 8"

record TrafficSelector =
  ts_Type :: byte
  IPProtocol :: byte
  StartPort :: u16
  EndPort :: u16
  StartAddr :: bytes
  EndAddr :: bytes

definition marshalSelector :: "TrafficSelector \<Rightarrow> bytes" where
  "marshalSelector s =
     (let addrLen = (if ts_Type s = TSIPv4AddrRange then 4 else if ts_Type s = TSIPv6AddrRange then 16 else 0);
          total = 8 + 2 * addrLen;
          conv = (if addrLen = 4 then To4 else To16)
      in [ts_Type s, IPProtocol s] @ be16 (of_nat total) @ be16 (StartPort s) @ be16 (EndPort s)
         @ conv (StartAddr s) @ conv (EndAddr s))"

definition MarshalTS :: "TrafficSelector list \<Rightarrow> bytes" where
  "MarshalTS sels = [of_nat (length sels), 0, 0, 0] @ concat (map marshalSelector sels)"

fun parse_selectors :: "nat \<Rightarrow> bytes \<Rightarrow> body_error + TrafficSelector list" where
  "parse_selectors 0 buf = Ok []"
| "parse_selectors (Suc count) buf =
     (if length buf < 8 then Err BodyTruncated
      else let slen = unat (get16 2 buf) in
        if slen < 8 \<or> slen > length buf then Err (BadSelectorLength slen)
        else let addrLen = (slen - 8) div 2;
                 sel = \<lparr>ts_Type = buf ! 0, IPProtocol = buf ! 1, StartPort = get16 4 buf, EndPort = get16 6 buf,
                        StartAddr = slice 8 (8 + addrLen) buf, EndAddr = slice (8 + addrLen) (8 + 2 * addrLen) buf\<rparr>
             in map_sum id (Cons sel) (parse_selectors count (drop slen buf)))"

definition ParseTS :: "bytes \<Rightarrow> body_error + TrafficSelector list" where
  "ParseTS buf = (if length buf < 4 then Err BodyTruncated else parse_selectors (unat (buf ! 0)) (drop 4 buf))"

section \<open>Delete and configuration\<close>

record DeletePayload =
  d_Protocol :: byte
  SPISize :: byte
  SPIs :: "bytes list"

definition MarshalDelete :: "DeletePayload \<Rightarrow> bytes" where
  "MarshalDelete d = [d_Protocol d, SPISize d] @ be16 (of_nat (length (SPIs d))) @ concat (SPIs d)"

fun parse_spis :: "nat \<Rightarrow> nat \<Rightarrow> bytes \<Rightarrow> body_error + bytes list" where
  "parse_spis sz 0 buf = Ok []"
| "parse_spis sz (Suc n) buf =
     (if sz > length buf then Err BodyTruncated
      else map_sum id (Cons (take sz buf)) (parse_spis sz n (drop sz buf)))"

definition ParseDelete :: "bytes \<Rightarrow> body_error + DeletePayload" where
  "ParseDelete buf =
     (if length buf < 4 then Err BodyTruncated
      else map_sum id (\<lambda>ss. \<lparr>d_Protocol = buf ! 0, SPISize = buf ! 1, SPIs = ss\<rparr>)
             (parse_spis (unat (buf ! 1)) (unat (get16 2 buf)) (drop 4 buf)))"

record CFGAttr =
  a_Type :: u16
  a_Value :: bytes

record CPPayload =
  cp_Type :: byte
  Attrs :: "CFGAttr list"

definition marshal_attr :: "CFGAttr \<Rightarrow> bytes" where
  "marshal_attr a = be16 (a_Type a AND 0x7fff) @ be16 (of_nat (length (a_Value a))) @ a_Value a"

definition MarshalCP :: "CPPayload \<Rightarrow> bytes" where
  "MarshalCP cp = [cp_Type cp, 0, 0, 0] @ concat (map marshal_attr (Attrs cp))"

function parse_attrs :: "bytes \<Rightarrow> body_error + CFGAttr list" where
  "parse_attrs buf =
     (if length buf < 4 then Ok []
      else let atype = get16 0 buf AND 0x7fff; alen = unat (get16 2 buf) in
        if 4 + alen > length buf then Err BodyTruncated
        else map_sum id (Cons \<lparr>a_Type = atype, a_Value = slice 4 (4 + alen) buf\<rparr>) (parse_attrs (drop (4 + alen) buf)))"
  by pat_completeness auto
termination
  by (relation "measure length") auto

declare parse_attrs.simps [simp del]

definition ParseCP :: "bytes \<Rightarrow> body_error + CPPayload" where
  "ParseCP buf =
     (if length buf < 4 then Err BodyTruncated
      else map_sum id (\<lambda>as. \<lparr>cp_Type = buf ! 0, Attrs = as\<rparr>) (parse_attrs (drop 4 buf)))"

definition AttrValue :: "u16 \<Rightarrow> CPPayload \<Rightarrow> bytes option" where
  "AttrValue t cp = map_option a_Value (List.find (\<lambda>a. a_Type a = t) (Attrs cp))"

section \<open>Security association proposals\<close>

record Transform =
  tr_Type :: byte
  tr_ID :: u16
  tr_KeyLen :: u16

record Proposal =
  Num :: byte
  Protocol :: byte
  SPI :: bytes
  Transforms :: "Transform list"

definition Get :: "byte \<Rightarrow> Proposal \<Rightarrow> Transform option" where
  "Get t p = List.find (\<lambda>tr. tr_Type tr = t) (Transforms p)"

definition AttrKeyLength :: u16 where "AttrKeyLength = 14"

definition marshalTransform :: "Transform \<Rightarrow> bool \<Rightarrow> bytes" where
  "marshalTransform t lst =
     (let attr = (if tr_KeyLen t \<noteq> 0 then be16 (0x8000 OR AttrKeyLength) @ be16 (tr_KeyLen t) else []);
          total = 8 + length attr
      in [if lst then 0 else 3, 0] @ be16 (of_nat total) @ [tr_Type t, 0] @ be16 (tr_ID t) @ attr)"

fun marshal_transforms :: "Transform list \<Rightarrow> bytes" where
  "marshal_transforms [] = []"
| "marshal_transforms (t # ts) = marshalTransform t (ts = []) @ marshal_transforms ts"

definition marshalProposal :: "Proposal \<Rightarrow> bool \<Rightarrow> bytes" where
  "marshalProposal p lst =
     (let body = marshal_transforms (Transforms p);
          hdrLen = 8 + length (SPI p);
          total = hdrLen + length body
      in [if lst then 0 else 2, 0] @ be16 (of_nat total)
         @ [Num p, Protocol p, of_nat (length (SPI p)), of_nat (length (Transforms p))] @ SPI p @ body)"

fun MarshalSA :: "Proposal list \<Rightarrow> bytes" where
  "MarshalSA [] = []"
| "MarshalSA (p # ps) = marshalProposal p (ps = []) @ MarshalSA ps"

function parseTransformAttrs :: "bytes \<Rightarrow> Transform \<Rightarrow> body_error + Transform" where
  "parseTransformAttrs buf tr =
     (if buf = [] then Ok tr
      else if length buf < 4 then Err BodyTruncated
      else let af = get16 0 buf; atype = af AND 0x7fff in
        if af AND 0x8000 \<noteq> 0 then
          parseTransformAttrs (drop 4 buf) (if atype = AttrKeyLength then tr\<lparr>tr_KeyLen := get16 2 buf\<rparr> else tr)
        else parseTransformAttrs (drop (4 + unat (get16 2 buf)) buf) tr)"
  by pat_completeness auto
termination
  by (relation "measure (\<lambda>(buf, tr). length buf)") auto

declare parseTransformAttrs.simps [simp del]

fun parseTransforms :: "bytes \<Rightarrow> nat \<Rightarrow> body_error + Transform list" where
  "parseTransforms buf 0 = Ok []"
| "parseTransforms buf (Suc count) =
     (if length buf < 8 then Err BodyTruncated
      else let more = buf ! 0; tlen = unat (get16 2 buf) in
        if tlen < 8 \<or> tlen > length buf then Err (BadTransformLength tlen)
        else case parseTransformAttrs (slice 8 tlen buf) \<lparr>tr_Type = buf ! 4, tr_ID = get16 6 buf, tr_KeyLen = 0\<rparr> of
          Err x \<Rightarrow> Err x
        | Ok tr \<Rightarrow> if more = 0 then Ok [tr] else map_sum id (Cons tr) (parseTransforms (drop tlen buf) count))"

function ParseSA :: "bytes \<Rightarrow> body_error + Proposal list" where
  "ParseSA buf =
     (if buf = [] then Ok []
      else if length buf < 8 then Err BodyTruncated
      else let more = buf ! 0; plen = unat (get16 2 buf) in
        if plen < 8 \<or> plen > length buf then Err (BadProposalLength plen)
        else let spiSize = unat (buf ! 6); numTr = unat (buf ! 7) in
          if 8 + spiSize > plen then Err BodyTruncated
          else case parseTransforms (slice (8 + spiSize) plen buf) numTr of
            Err x \<Rightarrow> Err x
          | Ok trs \<Rightarrow>
              let p = \<lparr>Num = buf ! 4, Protocol = buf ! 5, SPI = slice 8 (8 + spiSize) buf, Transforms = trs\<rparr> in
              if more = 0 then Ok [p] else map_sum id (Cons p) (ParseSA (drop plen buf)))"
  by pat_completeness auto
termination
  by (relation "measure length") auto

declare ParseSA.simps [simp del]

section \<open>Round trips of the simple payloads\<close>

lemma ParseKE_Marshal: "ParseKE (MarshalKE ke) = Ok ke"
  by (simp add: ParseKE_def MarshalKE_def)

lemma ParseNotify_Marshal:
  assumes "length (n_SPI n) < 256"
  shows "ParseNotify (MarshalNotify n) = Ok n"
proof -
  have u: "unat (of_nat (length (n_SPI n)) :: byte) = length (n_SPI n)" using assms by (intro unat_of_nat_small) simp
  define h where "h = [n_Protocol n, of_nat (length (n_SPI n))] @ be16 (n_Type n)"
  have m: "MarshalNotify n = h @ n_SPI n @ n_Data n" by (simp add: MarshalNotify_def h_def)
  have h: "length h = 4" "h ! 0 = n_Protocol n" "h ! 1 = of_nat (length (n_SPI n))" "get16 2 h = n_Type n"
    by (simp_all add: h_def wire_simps)
  have "get16 2 (h @ x) = n_Type n" for x using h by (simp add: get16_append)
  then show ?thesis using u h by (simp add: ParseNotify_def m nth_append slice_def Let_def)
qed

lemma ParseID_Marshal: "ParseID (MarshalID i) = Ok i"
  and ParseCert_Marshal: "ParseCert (MarshalCert c) = Ok c"
  and ParseCertReq_Marshal: "ParseCertReq (MarshalCertReq r) = Ok r"
  and ParseAuth_Marshal: "ParseAuth (MarshalAuth a) = Ok a"
  by (simp_all add: ParseID_def MarshalID_def ParseCert_def MarshalCert_def ParseCertReq_def MarshalCertReq_def
      ParseAuth_def MarshalAuth_def)

section \<open>Round trips of the lists\<close>

definition selector_ok :: "TrafficSelector \<Rightarrow> bool" where
  "selector_ok s \<longleftrightarrow> (ts_Type s = TSIPv4AddrRange \<and> length (StartAddr s) = 4 \<and> length (EndAddr s) = 4)
     \<or> (ts_Type s = TSIPv6AddrRange \<and> length (StartAddr s) = 16 \<and> length (EndAddr s) = 16)"

lemma marshalSelector_shape:
  assumes "selector_ok s"
  shows "\<exists>n. marshalSelector s = [ts_Type s, IPProtocol s] @ be16 (of_nat (8 + 2 * n)) @ be16 (StartPort s) @ be16 (EndPort s) @ StartAddr s @ EndAddr s
    \<and> length (StartAddr s) = n \<and> length (EndAddr s) = n \<and> n \<le> 16"
  using assms by (auto simp: selector_ok_def marshalSelector_def TSIPv4AddrRange_def TSIPv6AddrRange_def To4_def To16_def)

lemma parse_selector_step:
  assumes "selector_ok s"
  shows "parse_selectors (Suc k) (marshalSelector s @ rest) = map_sum id (Cons s) (parse_selectors k rest)"
proof -
  obtain n where m: "marshalSelector s = [ts_Type s, IPProtocol s] @ be16 (of_nat (8 + 2 * n)) @ be16 (StartPort s) @ be16 (EndPort s) @ StartAddr s @ EndAddr s"
    and l: "length (StartAddr s) = n" "length (EndAddr s) = n" "n \<le> 16"
    using marshalSelector_shape [OF assms] by blast
  let ?b = "marshalSelector s @ rest"
  define h where "h = [ts_Type s, IPProtocol s] @ be16 (of_nat (8 + 2 * n)) @ be16 (StartPort s) @ be16 (EndPort s)"
  have b: "?b = h @ StartAddr s @ EndAddr s @ rest" by (simp add: m h_def)
  have h: "length h = 8" "h ! 0 = ts_Type s" "h ! 1 = IPProtocol s" by (simp_all add: h_def)
  have g: "get16 2 ?b = of_nat (8 + 2 * n)" "get16 4 ?b = StartPort s" "get16 6 ?b = EndPort s"
    by (simp_all add: m wire_simps)
  have u: "unat (of_nat (8 + 2 * n) :: u16) = 8 + 2 * n" using l(3) by (intro unat_of_nat_small) simp
  have n: "?b ! 0 = ts_Type s" "?b ! 1 = IPProtocol s" "length ?b = 8 + 2 * n + length rest" "drop (8 + 2 * n) ?b = rest"
    "slice 8 (8 + n) ?b = StartAddr s" "slice (8 + n) (8 + 2 * n) ?b = EndAddr s"
    unfolding b using l h by (simp_all add: slice_def nth_append)
  have e: "\<lparr>ts_Type = ts_Type s, IPProtocol = IPProtocol s, StartPort = StartPort s, EndPort = EndPort s,
      StartAddr = StartAddr s, EndAddr = EndAddr s\<rparr> = s" by simp
  show ?thesis by (simp only: parse_selectors.simps g u Let_def nonzero_mult_div_cancel_left diff_add_inverse zero_neq_numeral n e) simp
qed

lemma parse_selectors_roundtrip:
  "\<forall>s \<in> set ss. selector_ok s \<Longrightarrow> parse_selectors (length ss) (concat (map marshalSelector ss) @ rest) = Ok ss"
  by (induction ss) (simp_all add: parse_selector_step del: parse_selectors.simps(2))

lemma ParseTS_Marshal:
  assumes "\<forall>s \<in> set ss. selector_ok s" "length ss < 256"
  shows "ParseTS (MarshalTS ss) = Ok ss"
proof -
  have "unat (of_nat (length ss) :: byte) = length ss" using assms(2) by (intro unat_of_nat_small) simp
  then show ?thesis using parse_selectors_roundtrip [OF assms(1), of "[]"] by (simp add: ParseTS_def MarshalTS_def)
qed

lemma parse_spis_roundtrip:
  "\<forall>x \<in> set xs. length x = sz \<Longrightarrow> parse_spis sz (length xs) (concat xs) = Ok xs"
  by (induction xs) simp_all

lemma ParseDelete_Marshal:
  assumes "\<forall>x \<in> set (SPIs d). length x = unat (SPISize d)" "length (SPIs d) < 65536"
  shows "ParseDelete (MarshalDelete d) = Ok d"
proof -
  have u: "unat (of_nat (length (SPIs d)) :: u16) = length (SPIs d)" using assms(2) by (intro unat_of_nat_small) simp
  have "get16 2 (MarshalDelete d) = of_nat (length (SPIs d))" by (simp add: MarshalDelete_def wire_simps)
  then show ?thesis using u parse_spis_roundtrip [OF assms(1)] by (simp add: ParseDelete_def MarshalDelete_def)
qed

definition attr_ok :: "CFGAttr \<Rightarrow> bool" where
  "attr_ok a \<longleftrightarrow> a_Type a AND 0x7fff = a_Type a \<and> length (a_Value a) < 65536"

lemma parse_attrs_step:
  assumes "attr_ok a"
  shows "parse_attrs (marshal_attr a @ rest) = map_sum id (Cons a) (parse_attrs rest)"
proof -
  have u: "unat (of_nat (length (a_Value a)) :: u16) = length (a_Value a)"
    using assms by (intro unat_of_nat_small) (simp add: attr_ok_def)
  have g: "get16 0 (marshal_attr a @ rest) = a_Type a" "get16 2 (marshal_attr a @ rest) = of_nat (length (a_Value a))"
    using assms by (simp_all add: marshal_attr_def wire_simps attr_ok_def)
  have e: "\<lparr>a_Type = a_Type a, a_Value = a_Value a\<rparr> = a" by simp
  show ?thesis
    using assms by (subst parse_attrs.simps) (simp add: g u Let_def, simp add: e marshal_attr_def slice_def attr_ok_def flip: append_assoc)
qed

lemma ParseCP_Marshal:
  assumes "\<forall>a \<in> set (Attrs cp). attr_ok a"
  shows "ParseCP (MarshalCP cp) = Ok cp"
proof -
  have "parse_attrs (concat (map marshal_attr as)) = Ok as" if "\<forall>a \<in> set as. attr_ok a" for as
    using that
  proof (induction as)
    case Nil
    then show ?case by (subst parse_attrs.simps) simp
  qed (simp add: parse_attrs_step)
  from this [OF assms] show ?thesis by (simp add: ParseCP_def MarshalCP_def)
qed

section \<open>Round trip of proposals\<close>

lemma parse_key_length:
  "parseTransformAttrs (if k \<noteq> 0 then be16 (0x8000 OR AttrKeyLength) @ be16 k else []) \<lparr>tr_Type = t, tr_ID = i, tr_KeyLen = 0\<rparr>
     = Ok \<lparr>tr_Type = t, tr_ID = i, tr_KeyLen = k\<rparr>"
proof (cases "k = 0")
  case False
  have "get16 0 (be16 (0x8000 OR AttrKeyLength) @ be16 k) = 0x800e" "get16 2 (be16 (0x8000 OR AttrKeyLength) @ be16 k) = k"
    by (simp_all add: wire_simps AttrKeyLength_def)
  then show ?thesis using False
    by (subst parseTransformAttrs.simps, subst parseTransformAttrs.simps) (auto simp: Let_def AttrKeyLength_def simp flip: length_0_conv)
qed (subst parseTransformAttrs.simps, simp)

lemma parseTransforms_step:
  "parseTransforms (marshalTransform t lst @ rest) (Suc k) =
     (if lst then Ok [t] else map_sum id (Cons t) (parseTransforms rest k))"
proof -
  define attr where "attr = (if tr_KeyLen t \<noteq> 0 then be16 (0x8000 OR AttrKeyLength) @ be16 (tr_KeyLen t) else [])"
  have la: "length attr = 0 \<or> length attr = 4" by (simp add: attr_def)
  let ?b = "marshalTransform t lst @ rest"
  have m: "marshalTransform t lst = [if lst then 0 else 3, 0] @ be16 (of_nat (8 + length attr)) @ [tr_Type t, 0] @ be16 (tr_ID t) @ attr"
    by (simp add: marshalTransform_def attr_def Let_def)
  have u: "unat (of_nat (8 + length attr) :: u16) = 8 + length attr" using la by (intro unat_of_nat_small) auto
  have g: "get16 2 ?b = of_nat (8 + length attr)" "get16 6 ?b = tr_ID t" by (simp_all add: m wire_simps)
  define h where "h = [if lst then 0 else 3, 0] @ be16 (of_nat (8 + length attr)) @ [tr_Type t, 0] @ be16 (tr_ID t)"
  have b: "?b = h @ attr @ rest" by (simp add: m h_def)
  have h: "length h = 8" "h ! 0 = (if lst then 0 else 3)" "h ! 4 = tr_Type t" by (simp_all add: h_def nth_append)
  have n: "?b ! 0 = (if lst then 0 else 3)" "?b ! 4 = tr_Type t" "length ?b = 8 + length attr + length rest"
    "drop (8 + length attr) ?b = rest" "slice 8 (8 + length attr) ?b = attr"
    unfolding b using h by (simp_all add: slice_def nth_append)
  have p: "parseTransformAttrs attr \<lparr>tr_Type = tr_Type t, tr_ID = tr_ID t, tr_KeyLen = 0\<rparr> = Ok t"
    unfolding attr_def parse_key_length by simp
  show ?thesis by (simp only: parseTransforms.simps g u n Let_def p) simp
qed

lemma parseTransforms_roundtrip: "parseTransforms (marshal_transforms ts) (length ts) = Ok ts"
proof (induction ts)
  case (Cons t ts)
  then show ?case using parseTransforms_step [of t "ts = []" "marshal_transforms ts" "length ts"]
    by (cases ts) (simp_all del: parseTransforms.simps(2))
qed simp

definition proposal_ok :: "Proposal \<Rightarrow> bool" where
  "proposal_ok p \<longleftrightarrow> length (SPI p) < 256 \<and> length (Transforms p) < 256"

lemma length_marshal_transforms: "length (marshal_transforms ts) \<le> 12 * length ts"
  by (induction ts) (auto simp: marshalTransform_def Let_def)

lemma ParseSA_step:
  assumes "proposal_ok p"
  shows "ParseSA (marshalProposal p lst @ rest) = (if lst then Ok [p] else map_sum id (Cons p) (ParseSA rest))"
proof -
  define body where "body = marshal_transforms (Transforms p)"
  define n where "n = 8 + length (SPI p) + length body"
  let ?b = "marshalProposal p lst @ rest"
  have m: "marshalProposal p lst = [if lst then 0 else 2, 0] @ be16 (of_nat n)
         @ [Num p, Protocol p, of_nat (length (SPI p)), of_nat (length (Transforms p))] @ SPI p @ body"
    by (simp add: marshalProposal_def body_def n_def Let_def)
  have "n < 65536" using assms length_marshal_transforms [of "Transforms p"] by (simp add: n_def body_def proposal_ok_def)
  then have u: "unat (of_nat n :: u16) = n" by (intro unat_of_nat_small) simp
  have us: "unat (of_nat (length (SPI p)) :: byte) = length (SPI p)" "unat (of_nat (length (Transforms p)) :: byte) = length (Transforms p)"
    using assms by (auto simp: proposal_ok_def intro!: unat_of_nat_small)
  have g: "get16 2 ?b = of_nat n" by (simp add: m wire_simps)
  define h where "h = [if lst then 0 else 2, 0] @ be16 (of_nat n)
         @ [Num p, Protocol p, of_nat (length (SPI p)), of_nat (length (Transforms p))]"
  have b: "?b = h @ SPI p @ body @ rest" by (simp add: m h_def)
  have h: "length h = 8" "h ! 0 = (if lst then 0 else 2)" "h ! 4 = Num p" "h ! 5 = Protocol p"
    "h ! 6 = of_nat (length (SPI p))" "h ! 7 = of_nat (length (Transforms p))" by (simp_all add: h_def nth_append)
  have i: "?b ! 0 = (if lst then 0 else 2)" "?b ! 4 = Num p" "?b ! 5 = Protocol p" "?b ! 6 = of_nat (length (SPI p))"
    "?b ! 7 = of_nat (length (Transforms p))" "length ?b = n + length rest" "drop n ?b = rest"
    "slice 8 (8 + length (SPI p)) ?b = SPI p" "slice (8 + length (SPI p)) n ?b = body" "?b \<noteq> []"
    unfolding b using h by (auto simp: slice_def nth_append n_def)
  have p: "parseTransforms body (length (Transforms p)) = Ok (Transforms p)"
    unfolding body_def by (rule parseTransforms_roundtrip)
  have c: "\<not> n + length rest < 8" "\<not> (n < 8 \<or> n + length rest < n)" "\<not> n < 8 + length (SPI p)" by (simp_all add: n_def)
  have e: "\<lparr>Num = Num p, Protocol = Protocol p, SPI = SPI p, Transforms = Transforms p\<rparr> = p" by simp
  show ?thesis by (subst ParseSA.simps) (simp only: g u us i Let_def p c if_False sum.case e, simp)
qed

lemma ParseSA_Marshal: "\<forall>p \<in> set ps. proposal_ok p \<Longrightarrow> ParseSA (MarshalSA ps) = Ok ps"
proof (induction ps)
  case Nil
  then show ?case by (subst ParseSA.simps) simp
next
  case (Cons p ps)
  then show ?case using ParseSA_step [of p "ps = []" "MarshalSA ps"] by (cases ps) simp_all
qed

section \<open>Properties\<close>

text \<open>
  C35: every payload body that is encoded decodes to what was encoded: key exchange, nonce, notify,
  identity, certificate, certificate request and authentication bodies with any contents (an SPI of a notify shorter than 256 octets), traffic
  selectors with addresses of their type, deletes whose SPIs have the announced size, configuration attributes
  with 15-bit types, and any list of proposals with any transforms, with and without a key length, whose counts fit an octet.
\<close>

theorem ike_bodies_roundtrip:
  assumes "length (n_SPI n) < 256"
    and "\<forall>s \<in> set ss. selector_ok s" "length ss < 256"
    and "\<forall>x \<in> set (SPIs d). length x = unat (SPISize d)" "length (SPIs d) < 65536"
    and "\<forall>a \<in> set (Attrs cp). attr_ok a" and "\<forall>p \<in> set ps. proposal_ok p"
  shows "ParseKE (MarshalKE ke) = Ok ke \<and> ParseNonce (MarshalNonce x) = x \<and> ParseNotify (MarshalNotify n) = Ok n
    \<and> ParseID (MarshalID i) = Ok i \<and> ParseCert (MarshalCert c) = Ok c \<and> ParseCertReq (MarshalCertReq r) = Ok r
    \<and> ParseAuth (MarshalAuth a) = Ok a \<and> ParseTS (MarshalTS ss) = Ok ss \<and> ParseDelete (MarshalDelete d) = Ok d
    \<and> ParseCP (MarshalCP cp) = Ok cp \<and> ParseSA (MarshalSA ps) = Ok ps"
  using ParseNotify_Marshal [OF assms(1)] ParseTS_Marshal [OF assms(2,3)] ParseDelete_Marshal [OF assms(4,5)]
    ParseCP_Marshal [OF assms(6)] ParseSA_Marshal [OF assms(7)]
  by (simp add: ParseKE_Marshal ParseID_Marshal ParseCert_Marshal ParseCertReq_Marshal ParseAuth_Marshal
      ParseNonce_def MarshalNonce_def)

lemma ike_bodies_roundtrip_witness:
  "let sel = \<lparr>ts_Type = 7, IPProtocol = 0, StartPort = 0, EndPort = 65535, StartAddr = [10, 0, 0, 0], EndAddr = [10, 0, 0, 255]\<rparr>;
       prop = \<lparr>Num = 1, Protocol = 3, SPI = [1, 2, 3, 4], Transforms = [\<lparr>tr_Type = 1, tr_ID = 20, tr_KeyLen = 256\<rparr>, \<lparr>tr_Type = 5, tr_ID = 0, tr_KeyLen = 0\<rparr>]\<rparr>
   in ParseTS (MarshalTS [sel]) = Ok [sel] \<and> ParseSA (MarshalSA [prop, prop]) = Ok [prop, prop]"
  using ike_bodies_roundtrip [of "\<lparr>n_Protocol = 0, n_Type = 16390, n_SPI = [], n_Data = [1]\<rparr>"
      "[\<lparr>ts_Type = 7, IPProtocol = 0, StartPort = 0, EndPort = 65535, StartAddr = [10, 0, 0, 0], EndAddr = [10, 0, 0, 255]\<rparr>]"
      "\<lparr>d_Protocol = 3, SPISize = 4, SPIs = [[1, 2, 3, 4]]\<rparr>" "\<lparr>cp_Type = 1, Attrs = []\<rparr>"
      "[\<lparr>Num = 1, Protocol = 3, SPI = [1, 2, 3, 4], Transforms = [\<lparr>tr_Type = 1, tr_ID = 20, tr_KeyLen = 256\<rparr>, \<lparr>tr_Type = 5, tr_ID = 0, tr_KeyLen = 0\<rparr>]\<rparr>,
       \<lparr>Num = 1, Protocol = 3, SPI = [1, 2, 3, 4], Transforms = [\<lparr>tr_Type = 1, tr_ID = 20, tr_KeyLen = 256\<rparr>, \<lparr>tr_Type = 5, tr_ID = 0, tr_KeyLen = 0\<rparr>]\<rparr>]"]
  by (simp add: selector_ok_def TSIPv4AddrRange_def proposal_ok_def Let_def del: MarshalSA.simps)

end
