(* ===== verification/Ike_Sk.thy ===== *)
theory Ike_Sk
  imports Ike_Payload Crypto
begin

text \<open>
  Cipher suites, keys and the encrypted payload of IKEv2: the negotiation of
  \<^verbatim>\<open>internal/ikev2/ike/suite.go\<close>, the derivations of \<^verbatim>\<open>keymat.go\<close> and the SK payload of \<^verbatim>\<open>sk.go\<close>.
  A PRF is the hash its HMAC is built on.  \<^verbatim>\<open>prf+\<close> is the partial function of the theory Crypto, so
  a derivation returns an option.
\<close>

section \<open>Suites\<close>

definition ProtoIKE :: byte where "ProtoIKE = 1"
definition ProtoESP :: byte where "ProtoESP = 3"
definition TransformENCR :: byte where "TransformENCR = 1"
definition TransformPRF :: byte where "TransformPRF = 2"
definition TransformINTEG :: byte where "TransformINTEG = 3"
definition TransformDH :: byte where "TransformDH = 4"
definition TransformESN :: byte where "TransformESN = 5"
definition TransformADDKE1 :: byte where "TransformADDKE1 = 6"
definition ESN_NONE :: u16 where "ESN_NONE = 0"

lemmas transform_types = TransformENCR_def TransformPRF_def TransformINTEG_def TransformDH_def TransformESN_def

record Suite =
  su_EncrID :: u16
  su_EncrKeyLn :: u16
  su_PRFID :: u16
  su_IntegID :: u16
  su_DHID :: u16
  su_Cipher :: SKCipher
  su_PRF :: hash_alg
  su_Integ :: "Integrity option"

definition isAEAD :: "u16 \<Rightarrow> bool" where
  "isAEAD encrID \<longleftrightarrow> encrID = ENCR_AES_GCM_16 \<or> encrID = ENCR_CHACHA20_P"

definition supportedENCR :: "u16 \<Rightarrow> bool" where
  "supportedENCR i \<longleftrightarrow> i = ENCR_AES_GCM_16 \<or> i = ENCR_CHACHA20_P \<or> i = ENCR_AES_CBC"

definition supportedPRF :: "u16 \<Rightarrow> bool" where
  "supportedPRF i \<longleftrightarrow> i = 2 \<or> i = 5 \<or> i = 6 \<or> i = 7"

definition supportedInteg :: "u16 \<Rightarrow> bool" where
  "supportedInteg i \<longleftrightarrow> i = 2 \<or> i = 12 \<or> i = 13 \<or> i = 14"

definition supportedDH :: "u16 \<Rightarrow> bool" where
  "supportedDH i \<longleftrightarrow> i = 31 \<or> i = 19 \<or> i = 20 \<or> i = 21 \<or> i = 14"

definition supportedADDKE :: "u16 \<Rightarrow> bool" where
  "supportedADDKE i \<longleftrightarrow> i = 36"

definition chosenTransform :: "Proposal \<Rightarrow> byte \<Rightarrow> (u16 \<Rightarrow> bool) \<Rightarrow> Transform option" where
  "chosenTransform p tt ok = List.find (\<lambda>tr. tr_Type tr = tt \<and> ok (tr_ID tr)) (Transforms p)"

definition SelectADDKE :: "Proposal \<Rightarrow> u16 option" where
  "SelectADDKE p = map_option tr_ID (chosenTransform p TransformADDKE1 supportedADDKE)"

abbreviation mk_tr :: "byte \<Rightarrow> u16 \<Rightarrow> u16 \<Rightarrow> Transform" where
  "mk_tr t i k \<equiv> \<lparr>tr_Type = t, tr_ID = i, tr_KeyLen = k\<rparr>"

definition buildSuite :: "prims \<Rightarrow> Transform \<Rightarrow> Transform \<Rightarrow> Transform \<Rightarrow> Transform \<Rightarrow> crypt_error + Suite" where
  "buildSuite P encr prf integ dh = (case Cipher (tr_ID encr) (uint (tr_KeyLen encr)) of
     Err x \<Rightarrow> Err x
   | Ok c \<Rightarrow> (case PRF_of (tr_ID prf) of
       Err x \<Rightarrow> Err x
     | Ok pf \<Rightarrow>
         let s = \<lparr>su_EncrID = tr_ID encr, su_EncrKeyLn = tr_KeyLen encr, su_PRFID = tr_ID prf, su_IntegID = 0,
                  su_DHID = tr_ID dh, su_Cipher = c, su_PRF = pf, su_Integ = None\<rparr>
         in if \<not> isAEAD (tr_ID encr) then (case Integrity_of P (tr_ID integ) of
              Err x \<Rightarrow> Err x
            | Ok ig \<Rightarrow> Ok (s\<lparr>su_IntegID := tr_ID integ, su_Integ := Some ig\<rparr>))
            else Ok s))"

text \<open>One round of the loop over the peer's proposals; \<open>None\<close> is \<^verbatim>\<open>continue\<close>.\<close>

definition try_ike_proposal :: "prims \<Rightarrow> Proposal \<Rightarrow> (Suite \<times> Proposal) option" where
  "try_ike_proposal P p =
     (if Protocol p \<noteq> ProtoIKE then None
      else case chosenTransform p TransformENCR supportedENCR of None \<Rightarrow> None
      | Some encr \<Rightarrow> (case chosenTransform p TransformPRF supportedPRF of None \<Rightarrow> None
      | Some prf \<Rightarrow> (case chosenTransform p TransformDH supportedDH of None \<Rightarrow> None
      | Some dh \<Rightarrow>
          (case (if isAEAD (tr_ID encr) then Some (mk_tr 0 0 0) else chosenTransform p TransformINTEG supportedInteg) of None \<Rightarrow> None
           | Some integ \<Rightarrow> (case buildSuite P encr prf integ dh of Err _ \<Rightarrow> None
             | Ok suite \<Rightarrow>
                 Some (suite, \<lparr>Num = Num p, Protocol = ProtoIKE, SPI = [],
                   Transforms = [mk_tr TransformENCR (tr_ID encr) (tr_KeyLen encr), mk_tr TransformPRF (tr_ID prf) 0]
                     @ (if isAEAD (tr_ID encr) then [] else [mk_tr TransformINTEG (tr_ID integ) 0])
                     @ [mk_tr TransformDH (tr_ID dh) 0]\<rparr>))))))"

fun first_some :: "('a \<Rightarrow> 'b option) \<Rightarrow> 'a list \<Rightarrow> 'b option" where
  "first_some f [] = None"
| "first_some f (x # xs) = (case f x of Some y \<Rightarrow> Some y | None \<Rightarrow> first_some f xs)"

definition SelectIKESuite :: "prims \<Rightarrow> Proposal list \<Rightarrow> (Suite \<times> Proposal) option" where
  "SelectIKESuite P sa = first_some (try_ike_proposal P) sa"

record ESPSuite =
  es_EncrID :: u16
  es_EncrKeyLn :: u16
  es_IntegID :: u16
  es_Cipher :: SKCipher
  es_Integ :: "Integrity option"

definition try_esp_proposal :: "prims \<Rightarrow> Proposal \<Rightarrow> (ESPSuite \<times> Proposal) option" where
  "try_esp_proposal P p =
     (if Protocol p \<noteq> ProtoESP then None
      else case chosenTransform p TransformENCR supportedENCR of None \<Rightarrow> None
      | Some encr \<Rightarrow>
          (case (if isAEAD (tr_ID encr) then Some (mk_tr 0 0 0) else chosenTransform p TransformINTEG supportedInteg) of None \<Rightarrow> None
           | Some integ \<Rightarrow> (case Cipher (tr_ID encr) (uint (tr_KeyLen encr)) of Err _ \<Rightarrow> None
             | Ok c \<Rightarrow>
                 let es = \<lparr>es_EncrID = tr_ID encr, es_EncrKeyLn = tr_KeyLen encr, es_IntegID = 0, es_Cipher = c, es_Integ = None\<rparr>;
                     acc = (\<lambda>ig. \<lparr>Num = Num p, Protocol = ProtoESP, SPI = SPI p,
                       Transforms = [mk_tr TransformENCR (tr_ID encr) (tr_KeyLen encr)] @ ig @ [mk_tr TransformESN ESN_NONE 0]\<rparr>)
                 in if \<not> isAEAD (tr_ID encr) then (case Integrity_of P (tr_ID integ) of
                      Err _ \<Rightarrow> None
                    | Ok ig \<Rightarrow> Some (es\<lparr>es_IntegID := tr_ID integ, es_Integ := Some ig\<rparr>, acc [mk_tr TransformINTEG (tr_ID integ) 0]))
                    else Some (es, acc []))))"

definition SelectESPSuite :: "prims \<Rightarrow> Proposal list \<Rightarrow> (ESPSuite \<times> Proposal) option" where
  "SelectESPSuite P sa = first_some (try_esp_proposal P) sa"

definition encKeyLen :: "Suite \<Rightarrow> nat" where
  "encKeyLen s = KeyLen (su_Cipher s)"

definition integKeyLen :: "Suite \<Rightarrow> nat" where
  "integKeyLen s = (case su_Integ s of None \<Rightarrow> 0 | Some i \<Rightarrow> integ_KeyLen i)"

section \<open>Keys\<close>

record SAKeys =
  SKd :: bytes
  SKai :: bytes
  SKar :: bytes
  SKei :: bytes
  SKer :: bytes
  SKpi :: bytes
  SKpr :: bytes

definition Apply :: "prims \<Rightarrow> hash_alg \<Rightarrow> bytes \<Rightarrow> bytes \<Rightarrow> bytes" where
  "Apply P prf key data = hmac P prf key data"

definition expandIKEKeys ::
    "prims \<Rightarrow> hash_alg \<Rightarrow> bytes \<Rightarrow> bytes \<Rightarrow> bytes \<Rightarrow> u64 \<Rightarrow> u64 \<Rightarrow> nat \<Rightarrow> nat \<Rightarrow> SAKeys option" where
  "expandIKEKeys P prf skeyseed ni nr spiI spiR encKL integKL =
     (let seed = ni @ nr @ be64 spiI @ be64 spiR;
          sz = hash_size prf;
          total = sz + 2 * integKL + 2 * encKL + 2 * sz
      in map_option (\<lambda>km.
           let o1 = sz; o2 = o1 + integKL; o3 = o2 + integKL; o4 = o3 + encKL; o5 = o4 + encKL; o6 = o5 + sz; o7 = o6 + sz
           in \<lparr>SKd = slice 0 o1 km, SKai = slice o1 o2 km, SKar = slice o2 o3 km, SKei = slice o3 o4 km,
               SKer = slice o4 o5 km, SKpi = slice o5 o6 km, SKpr = slice o6 o7 km\<rparr>)
         (Plus (hmac P prf) skeyseed seed total))"

definition DeriveIKEKeys ::
    "prims \<Rightarrow> hash_alg \<Rightarrow> bytes \<Rightarrow> bytes \<Rightarrow> bytes \<Rightarrow> u64 \<Rightarrow> u64 \<Rightarrow> nat \<Rightarrow> nat \<Rightarrow> (bytes \<times> SAKeys) option" where
  "DeriveIKEKeys P prf sharedSecret ni nr spiI spiR encKL integKL =
     (let skeyseed = Apply P prf (ni @ nr) sharedSecret
      in map_option (Pair skeyseed) (expandIKEKeys P prf skeyseed ni nr spiI spiR encKL integKL))"

definition DeriveRekeyedIKEKeys ::
    "prims \<Rightarrow> hash_alg \<Rightarrow> bytes \<Rightarrow> bytes \<Rightarrow> bytes \<Rightarrow> bytes \<Rightarrow> u64 \<Rightarrow> u64 \<Rightarrow> nat \<Rightarrow> nat \<Rightarrow> SAKeys option" where
  "DeriveRekeyedIKEKeys P prf oldSKd dhSecret ni nr spiI spiR encKL integKL =
     (let skeyseed = Apply P prf oldSKd (dhSecret @ ni @ nr) in expandIKEKeys P prf skeyseed ni nr spiI spiR encKL integKL)"

definition DeriveIntermediateSKEYSEED :: "prims \<Rightarrow> hash_alg \<Rightarrow> bytes \<Rightarrow> bytes \<Rightarrow> bytes \<Rightarrow> bytes \<Rightarrow> bytes" where
  "DeriveIntermediateSKEYSEED P prf prevSKd newSharedSecret ni nr = Apply P prf prevSKd (newSharedSecret @ ni @ nr)"

definition DeriveChildKeys :: "prims \<Rightarrow> hash_alg \<Rightarrow> bytes \<Rightarrow> bytes \<Rightarrow> bytes \<Rightarrow> bytes \<Rightarrow> nat \<Rightarrow> bytes option" where
  "DeriveChildKeys P prf skd dhSecret ni nr n = Plus (hmac P prf) skd (dhSecret @ ni @ nr) n"

definition AuthOctets :: "prims \<Rightarrow> hash_alg \<Rightarrow> bytes \<Rightarrow> bytes \<Rightarrow> bytes \<Rightarrow> bytes \<Rightarrow> bytes \<Rightarrow> bytes" where
  "AuthOctets P prf realMessage peerNonce skp idPayload intAuth =
     realMessage @ peerNonce @ Apply P prf skp idPayload @ intAuth"

definition keyPad :: bytes where
  "keyPad = map (\<lambda>c. of_nat (of_char c)) ''Key Pad for IKEv2''"

definition PSKAuth :: "prims \<Rightarrow> hash_alg \<Rightarrow> bytes \<Rightarrow> bytes \<Rightarrow> bytes" where
  "PSKAuth P prf psk signedOctets = Apply P prf (Apply P prf psk keyPad) signedOctets"

section \<open>The encrypted payload\<close>

datatype keyDir = dirInitiatorToResponder | dirResponderToInitiator

fun encryptKeys :: "SAKeys \<Rightarrow> keyDir \<Rightarrow> bytes \<times> bytes" where
  "encryptKeys keys dirInitiatorToResponder = (SKei keys, SKai keys)"
| "encryptKeys keys dirResponderToInitiator = (SKer keys, SKar keys)"

datatype sk_error = SkCrypt crypt_error | BodyLengthMismatch | MalformedFraming | BadPad nat | SkfShort | NoRoom | TooManyFragments nat

definition padRFC7296 :: "bytes \<Rightarrow> nat \<Rightarrow> bytes" where
  "padRFC7296 pt blk =
     (if blk \<le> 1 then pt @ [0]
      else let padLen = blk - (length pt + 1) mod blk;
               padLen = (if padLen = blk then 0 else padLen)
           in pt @ map (\<lambda>i. of_nat (i + 1)) [0..<padLen] @ [of_nat padLen])"

definition stripRFC7296Pad :: "bytes \<Rightarrow> sk_error + bytes" where
  "stripRFC7296Pad padded =
     (if padded = [] then Ok []
      else let padLen = unat (last padded) in
        if padLen + 1 > length padded then Err (BadPad padLen)
        else Ok (take (length padded - padLen - 1) padded))"

definition sealSK :: "prims \<Rightarrow> rand \<Rightarrow> Suite \<Rightarrow> bytes \<Rightarrow> bytes \<Rightarrow> bytes \<Rightarrow> bytes \<Rightarrow> crypt_error + bytes" where
  "sealSK P rnd suite encKey integKey aad inner = (case su_Integ suite of
     None \<Rightarrow> SK_Seal P rnd (su_Cipher suite) encKey aad (inner @ [0])
   | Some i \<Rightarrow> (case su_Cipher suite of
       aeadCipher _ _ \<Rightarrow> Err LacksETM
     | cbcCipher _ \<Rightarrow> SealETM P rnd encKey integKey aad (padRFC7296 inner (BlockLen (su_Cipher suite))) i))"

definition openSK :: "prims \<Rightarrow> Suite \<Rightarrow> bytes \<Rightarrow> bytes \<Rightarrow> bytes \<Rightarrow> bytes \<Rightarrow> crypt_error + bytes" where
  "openSK P suite encKey integKey aad ivCtIcv = (case su_Integ suite of
     None \<Rightarrow> SK_Open P (su_Cipher suite) encKey aad ivCtIcv
   | Some i \<Rightarrow> (case su_Cipher suite of
       aeadCipher _ _ \<Rightarrow> Err LacksETM
     | cbcCipher _ \<Rightarrow> OpenETM P encKey integKey aad ivCtIcv i))"

definition icv_len :: "Suite \<Rightarrow> nat" where
  "icv_len suite = (case su_Integ suite of None \<Rightarrow> ICVLen (su_Cipher suite) | Some i \<Rightarrow> integ_ICVLen i)"

definition ct_len :: "nat \<Rightarrow> nat \<Rightarrow> nat" where
  "ct_len blk ptLen =
     (if blk \<le> 1 then ptLen + 1
      else let padLen = blk - (ptLen + 1) mod blk; padLen = (if padLen = blk then 0 else padLen) in ptLen + padLen + 1)"

definition buildEncryptedMessage ::
    "prims \<Rightarrow> rand \<Rightarrow> IkeHeader \<Rightarrow> Suite \<Rightarrow> SAKeys \<Rightarrow> keyDir \<Rightarrow> byte \<Rightarrow> bytes \<Rightarrow> sk_error + bytes" where
  "buildEncryptedMessage P rnd hdr suite keys dir firstInner innerPayloads =
     (let (encKey, integKey) = encryptKeys keys dir;
          skBodyLen = IVLen (su_Cipher suite) + ct_len (BlockLen (su_Cipher suite)) (length innerPayloads) + icv_len suite;
          skPayloadLen = 4 + skBodyLen;
          total = IkeHeaderLen + skPayloadLen;
          hdr = hdr\<lparr>NextPayload := TypeSK, Version := 0x20, Length := of_nat total\<rparr>;
          aad = MarshalIkeHeader hdr [] @ [firstInner, 0, of_nat (skPayloadLen div 256), of_nat skPayloadLen]
      in case sealSK P rnd suite encKey integKey aad innerPayloads of
           Err x \<Rightarrow> Err (SkCrypt x)
         | Ok sealed \<Rightarrow> if length sealed \<noteq> skBodyLen then Err BodyLengthMismatch else Ok (aad @ sealed))"

definition decryptSK :: "prims \<Rightarrow> bytes \<Rightarrow> RawPayload \<Rightarrow> Suite \<Rightarrow> SAKeys \<Rightarrow> keyDir \<Rightarrow> sk_error + (byte \<times> bytes)" where
  "decryptSK P raw skPayload suite keys dir =
     (let (encKey, integKey) = encryptKeys keys dir;
          bodyStart = int (length raw) - int (length (Body skPayload))
      in if bodyStart < int (IkeHeaderLen + 4) then Err MalformedFraming
         else let aad = take (nat bodyStart) raw; firstInner = raw ! (nat bodyStart - 4) in
           case openSK P suite encKey integKey aad (Body skPayload) of
             Err x \<Rightarrow> Err (SkCrypt x)
           | Ok padded \<Rightarrow> (case stripRFC7296Pad padded of
               Err x \<Rightarrow> Err x
             | Ok inner \<Rightarrow> Ok (firstInner, inner)))"

section \<open>Padding\<close>

definition pad_len :: "nat \<Rightarrow> nat \<Rightarrow> nat" where
  "pad_len blk n = (if blk \<le> 1 then 0 else (blk - (n + 1) mod blk) mod blk)"

lemma pad_len_eq:
  assumes "1 < blk"
  shows "(let padLen = blk - (n + 1) mod blk in if padLen = blk then 0 else padLen) = pad_len blk n"
proof -
  have "(n + 1) mod blk < blk" using assms by simp
  then show ?thesis using assms by (cases "(n + 1) mod blk = 0") (simp_all add: pad_len_def Let_def)
qed

lemma pad_len_lt: "pad_len blk n < max blk 1"
  by (simp add: pad_len_def max_def)

lemma ct_len_eq: "ct_len blk n = n + pad_len blk n + 1"
  using pad_len_eq [of blk n] by (cases "blk \<le> 1") (simp_all add: ct_len_def pad_len_def Let_def)

lemma padRFC7296_eq: "padRFC7296 pt blk = pt @ map (\<lambda>i. of_nat (i + 1)) [0..<pad_len blk (length pt)] @ [of_nat (pad_len blk (length pt))]"
  using pad_len_eq [of blk "length pt"] by (cases "blk \<le> 1") (simp_all add: padRFC7296_def pad_len_def Let_def)

lemma length_padRFC7296: "length (padRFC7296 pt blk) = ct_len blk (length pt)"
  by (simp add: padRFC7296_eq ct_len_eq)

lemma ct_len_aligned: "0 < blk \<Longrightarrow> ct_len blk n mod blk = 0"
proof -
  assume b: "0 < blk"
  let ?r = "(n + 1) mod blk"
  show ?thesis
  proof (cases "blk = 1")
    case False
    then have "ct_len blk n mod blk = ((n + 1) + (blk - ?r) mod blk) mod blk"
      using b by (simp only: ct_len_eq pad_len_def) (simp add: ac_simps)
    also have "\<dots> = (?r + (blk - ?r)) mod blk" by (simp only: mod_add_right_eq mod_add_left_eq)
    also have "?r + (blk - ?r) = blk" using mod_less_divisor [OF b, of "n + 1"] by simp
    finally show ?thesis by simp
  qed simp
qed

lemma strip_pad:
  assumes "blk \<le> 255"
  shows "stripRFC7296Pad (padRFC7296 pt blk) = Ok pt"
proof -
  let ?p = "pad_len blk (length pt)"
  have "?p < 256" using pad_len_lt [of blk "length pt"] assms by (simp add: max_def split: if_splits)
  then have u: "unat (of_nat ?p :: byte) = ?p" by (intro unat_of_nat_small) simp
  have st: "length pad = q \<Longrightarrow> unat (of_nat q :: byte) = q \<Longrightarrow> stripRFC7296Pad (pt @ pad @ [of_nat q]) = Ok pt" for pad and q
    by (simp add: stripRFC7296Pad_def Let_def)
  show ?thesis unfolding padRFC7296_eq by (rule st [OF _ u]) simp
qed

section \<open>Sealing and opening\<close>

definition aes_len :: "nat \<Rightarrow> bool" where
  "aes_len kl \<longleftrightarrow> kl = 16 \<or> kl = 24 \<or> kl = 32"

definition suite_ok :: "Suite \<Rightarrow> bool" where
  "suite_ok s \<longleftrightarrow> (case su_Integ s of
     None \<Rightarrow> (\<exists>kl g. su_Cipher s = aeadCipher kl g \<and> (g = AESGCM \<and> aes_len kl \<or> g = ChaCha20Poly1305 \<and> kl = 32))
   | Some i \<Rightarrow> (\<exists>kl. su_Cipher s = cbcCipher kl \<and> aes_len kl \<and> integ_ok i))"

lemma aesKeyLen_ok: "aesKeyLen k = Ok kl \<Longrightarrow> aes_len kl"
  by (auto simp: aesKeyLen_def Let_def aes_len_def split: if_splits)

lemma buildSuite_ok:
  assumes "prims_ok P" "buildSuite P encr prf integ dh = Ok s"
  shows "suite_ok s"
  using assms(2) Integrity_of_ok [OF assms(1), of "tr_ID integ"]
  by (auto simp: buildSuite_def suite_ok_def Cipher_def isAEAD_def ENCR_AES_GCM_16_def ENCR_CHACHA20_P_def ENCR_AES_CBC_def
      NewAESGCMSKCipher_def NewChaCha20Poly1305SKCipher_def NewAESCBCSKCipher_def ChaCha20Poly1305KeySize_def Let_def
      dest: aesKeyLen_ok split: if_splits sum.splits)

lemma sealSK_openSK:
  assumes "prims_ok P" "rand_ok rnd" "suite_ok s" "sealSK P rnd s ek ik aad inner = Ok c"
  shows "\<exists>padded. openSK P s ek ik aad c = Ok padded \<and> stripRFC7296Pad padded = Ok inner"
    and "length c = IVLen (su_Cipher s) + ct_len (BlockLen (su_Cipher s)) (length inner) + icv_len s"
proof -
  have "(\<exists>padded. openSK P s ek ik aad c = Ok padded \<and> stripRFC7296Pad padded = Ok inner)
    \<and> length c = IVLen (su_Cipher s) + ct_len (BlockLen (su_Cipher s)) (length inner) + icv_len s"
  proof (cases "su_Integ s")
    case None
    then obtain kl g where k: "su_Cipher s = aeadCipher kl g" using assms(3) by (auto simp: suite_ok_def)
    have sl: "aead_Seal P rnd kl g ek aad (padRFC7296 inner 1) = Ok c"
      using assms(4) None k by (simp add: sealSK_def padRFC7296_def)
    show ?thesis
      using sk_aead.seal_open [OF assms(1,2), of "(kl, g, ek)" "(kl, g, ek)" aad "padRFC7296 inner 1" c]
        sk_aead.seal_length [OF assms(1,2), of "(kl, g, ek)" "(kl, g, ek)" aad "padRFC7296 inner 1" c] sl strip_pad [of 1 inner] None k
      by (simp add: openSK_def icv_len_def length_padRFC7296)
  next
    case (Some i)
    then obtain kl where k: "su_Cipher s = cbcCipher kl" "integ_ok i" using assms(3) by (auto simp: suite_ok_def)
    have sl: "SealETM P rnd ek ik aad (padRFC7296 inner 16) i = Ok c"
      using assms(4) Some k by (simp add: sealSK_def)
    show ?thesis
      using sk_etm.seal_open [OF assms(1,2), of "(ek, ik, i)" "(ek, ik, i)" aad "padRFC7296 inner 16" c]
        sk_etm.seal_length [OF assms(1,2), of "(ek, ik, i)" "(ek, ik, i)" aad "padRFC7296 inner 16" c] sl strip_pad [of 16 inner] Some k
      by (simp add: openSK_def icv_len_def length_padRFC7296)
  qed
  then show "\<exists>padded. openSK P s ek ik aad c = Ok padded \<and> stripRFC7296Pad padded = Ok inner"
    "length c = IVLen (su_Cipher s) + ct_len (BlockLen (su_Cipher s)) (length inner) + icv_len s" by simp_all
qed

text \<open>With keys of the lengths the suite asks for, sealing can fail only for want of random octets.\<close>

lemma sealSK_total:
  assumes "suite_ok s" "length ek = encKeyLen s" "\<And>n. rnd n \<noteq> None"
  shows "\<exists>c. sealSK P rnd s ek ik aad inner = Ok c"
proof (cases "su_Integ s")
  case None
  then obtain kl g where k: "su_Cipher s = aeadCipher kl g" "g = AESGCM \<and> aes_len kl \<or> g = ChaCha20Poly1305 \<and> kl = 32"
    using assms(1) by (auto simp: suite_ok_def)
  have "mkAEAD_ok g (take kl ek)" "length ek = kl + 4"
    using k assms(2) by (auto simp: mkAEAD_ok_def encKeyLen_def aes_key_ok_def aes_len_def ChaCha20Poly1305KeySize_def)
  then show ?thesis using None k assms(3) [of 8] by (auto simp: sealSK_def aead_Seal_def aead_of_def)
next
  case (Some i)
  then obtain kl where k: "su_Cipher s = cbcCipher kl" "aes_len kl" using assms(1) by (auto simp: suite_ok_def)
  have "aes_key_ok ek" using k assms(2) by (auto simp: encKeyLen_def aes_key_ok_def aes_len_def)
  then show ?thesis using Some k assms(3) [of 16] ct_len_aligned [of 16 "length inner"]
    by (auto simp: sealSK_def SealETM_def length_padRFC7296 Let_def)
qed

section \<open>Messages\<close>

text \<open>A message whose only payload, of the given type, has this body.\<close>

definition single_payload :: "IkeHeader \<Rightarrow> byte \<Rightarrow> byte \<Rightarrow> bytes \<Rightarrow> bytes" where
  "single_payload h t nxt body = MarshalIkeHeader (h\<lparr>NextPayload := t, Version := 0x20, Length := of_nat (32 + length body)\<rparr>) []
     @ [nxt, 0] @ be16 (of_nat (4 + length body)) @ body"

lemma length_single_payload [simp]: "length (single_payload h t nxt body) = 32 + length body"
  by (simp add: single_payload_def)

lemma be16_split: "n < 65536 \<Longrightarrow> be16 (of_nat n) = [of_nat (n div 256), of_nat n]"
proof -
  assume n: "n < 65536"
  have m: "(of_nat (k mod 256) :: byte) = of_nat k" for k by (simp add: word_unat_eq_iff unat_of_nat)
  have u: "unat (of_nat n :: u16) = n" using n by (intro unat_of_nat_small) simp
  have "be_bytes (Suc (Suc 0)) n = [of_nat (n div 256), of_nat n]" by (simp add: m del: of_nat_mod)
  then show ?thesis unfolding be16_def u by (simp only: numeral_2_eq_2)
qed

lemma ParseMessage_single:
  assumes "t = TypeSK \<or> t = TypeSKF" "4 + length body < 65536"
  shows "ParseMessage (single_payload h t nxt body) = Ok \<lparr>Header = h\<lparr>NextPayload := t, Version := 0x20, Length := of_nat (32 + length body)\<rparr>,
     Payloads = [\<lparr>Type = t, Critical = False, Body = body\<rparr>]\<rparr>"
proof -
  let ?h = "h\<lparr>NextPayload := t, Version := 0x20, Length := of_nat (32 + length body)\<rparr>"
  define g where "g = [nxt, 0] @ be16 (of_nat (4 + length body))"
  have lg: "length g = 4" "g ! 1 = 0" by (simp_all add: g_def)
  have u: "unat (of_nat (32 + length body) :: u32) = 32 + length body" "unat (of_nat (4 + length body) :: u16) = 4 + length body"
    by (rule unat_of_nat_small, use assms(2) in simp)+
  have b: "single_payload h t nxt body = MarshalIkeHeader ?h [] @ (g @ body)" by (simp add: single_payload_def g_def)
  have gl: "get16 2 (g @ body) = of_nat (4 + length body)" by (simp add: g_def wire_simps)
  have "parsePayloadChain t (g @ body) = Ok [\<lparr>Type = t, Critical = False, Body = body\<rparr>]"
    using assms(1) lg u(2) by (subst parsePayloadChain.simps)
      (auto simp: gl Let_def ike_types ike_lens nth_append slice_def)
  then show ?thesis
    unfolding ParseMessage_def using u(1) length_single_payload [of h t nxt body]
    by (simp add: b ParseIkeHeader_Marshal IkeHeaderLen_def del: length_single_payload)
qed

definition sk_body_len :: "Suite \<Rightarrow> nat \<Rightarrow> nat" where
  "sk_body_len s n = IVLen (su_Cipher s) + ct_len (BlockLen (su_Cipher s)) n + icv_len s"

lemma sk_message_roundtrip:
  assumes "prims_ok P" "rand_ok rnd" "suite_ok s" "4 + sk_body_len s (length inner) < 65536"
    and "buildEncryptedMessage P rnd h s keys dir first inner = Ok raw"
  shows "\<exists>m sk. ParseMessage raw = Ok m \<and> Find TypeSKF m = None \<and> Find TypeSK m = Some sk
    \<and> decryptSK P raw sk s keys dir = Ok (first, inner) \<and> length raw = 32 + sk_body_len s (length inner)
    \<and> InitiatorSPI (Header m) = InitiatorSPI h \<and> ResponderSPI (Header m) = ResponderSPI h
    \<and> ExchangeType (Header m) = ExchangeType h \<and> Flags (Header m) = Flags h \<and> MessageID (Header m) = MessageID h"
proof -
  obtain ek ik where k: "encryptKeys keys dir = (ek, ik)" by (cases "encryptKeys keys dir")
  let ?n = "sk_body_len s (length inner)"
  define aad where "aad = MarshalIkeHeader (h\<lparr>NextPayload := TypeSK, Version := 0x20, Length := of_nat (32 + ?n)\<rparr>) []
     @ [first, 0] @ be16 (of_nat (4 + ?n))"
  have aad': "aad = MarshalIkeHeader (h\<lparr>NextPayload := TypeSK, Version := 0x20, Length := of_nat (IkeHeaderLen + (4 + ?n))\<rparr>) []
      @ [first, 0, of_nat ((4 + ?n) div 256), of_nat (4 + ?n)]"
    unfolding aad_def be16_split [OF assms(4)] by (simp add: IkeHeaderLen_def)
  obtain c where c: "sealSK P rnd s ek ik aad inner = Ok c" "raw = aad @ c"
    using assms(5) unfolding buildEncryptedMessage_def k Let_def sk_body_len_def [symmetric] prod.case aad' [symmetric]
    by (auto split: sum.splits if_splits)
  have lc: "length c = ?n" using sealSK_openSK(2) [OF assms(1-3) c(1)] by (simp add: sk_body_len_def)
  obtain pd where pd: "openSK P s ek ik aad c = Ok pd" "stripRFC7296Pad pd = Ok inner" using sealSK_openSK(1) [OF assms(1-3) c(1)] by blast
  have la: "length aad = 32" by (simp add: aad_def)
  have raw: "raw = single_payload h TypeSK first c" by (simp add: c(2) aad_def single_payload_def lc)
  have a28: "aad ! 28 = first" by (simp add: aad_def nth_append)
  have "decryptSK P raw \<lparr>Type = TypeSK, Critical = False, Body = c\<rparr> s keys dir = Ok (first, inner)"
    using pd la a28 by (simp add: decryptSK_def k c(2) IkeHeaderLen_def nth_append)
  then show ?thesis
    using ParseMessage_single [of TypeSK c h first] assms(4) lc la
    by (simp add: raw Find_def ike_types)
qed

lemma buildEncryptedMessage_total:
  assumes "prims_ok P" "rand_ok rnd" "suite_ok s" "length (fst (encryptKeys keys dir)) = encKeyLen s" "\<And>n. rnd n \<noteq> None"
  shows "\<exists>raw. buildEncryptedMessage P rnd hdr s keys dir first inner = Ok raw"
proof -
  obtain ek ik where d: "encryptKeys keys dir = (ek, ik)" "length ek = encKeyLen s" using assms(4) by (cases "encryptKeys keys dir") simp
  have sl: "\<exists>c. sealSK P rnd s ek ik aad inner = Ok c \<and> length c = sk_body_len s (length inner)" for aad
  proof -
    obtain c where c: "sealSK P rnd s ek ik aad inner = Ok c" using sealSK_total [where rnd = rnd, OF assms(3) d(2) assms(5)] by blast
    then show ?thesis using sealSK_openSK(2) [OF assms(1-3) c] by (simp add: sk_body_len_def)
  qed
  have w: "\<exists>c. f = Ok c \<and> length c = n \<Longrightarrow>
    \<exists>raw. (case f of Err x \<Rightarrow> Err (SkCrypt x) | Ok sealed \<Rightarrow> if length sealed \<noteq> n then Err BodyLengthMismatch else Ok (a @ sealed)) = Ok raw"
    for f n a by auto
  show ?thesis unfolding buildEncryptedMessage_def d(1) Let_def sk_body_len_def [symmetric] prod.case by (rule w, rule sl)
qed

section \<open>Negotiation and keys together\<close>

lemma first_some_in: "first_some f xs = Some y \<Longrightarrow> \<exists>x \<in> set xs. f x = Some y"
  by (induction xs) (auto split: option.splits)

lemma chosenTransform_in: "chosenTransform p tt ok = Some t \<Longrightarrow> t \<in> set (Transforms p) \<and> tr_Type t = tt \<and> ok (tr_ID t)"
  by (auto simp: chosenTransform_def find_Some_iff)

text \<open>A transform of the accepted proposal answers one that was offered: same type and algorithm, and for encryption the same key length.\<close>

definition offered :: "Proposal \<Rightarrow> Transform \<Rightarrow> bool" where
  "offered p t \<longleftrightarrow> (\<exists>u \<in> set (Transforms p). tr_Type u = tr_Type t \<and> tr_ID u = tr_ID t
     \<and> (tr_Type t = TransformENCR \<longrightarrow> tr_KeyLen u = tr_KeyLen t))"

lemma offeredI:
  "u \<in> set (Transforms p) \<Longrightarrow> tr_Type u = t \<Longrightarrow> (t = TransformENCR \<Longrightarrow> tr_KeyLen u = k) \<Longrightarrow> offered p (mk_tr t (tr_ID u) k)"
  by (auto simp: offered_def)

lemma try_ike_proposal_offered:
  assumes "try_ike_proposal P p = Some (suite, acc)"
  shows "Protocol p = ProtoIKE \<and> Num acc = Num p \<and> (\<forall>t \<in> set (Transforms acc). offered p t)
    \<and> (\<exists>encr prf integ dh. buildSuite P encr prf integ dh = Ok suite)"
  using assms
  by (auto simp: try_ike_proposal_def transform_types split: if_splits option.splits sum.splits
      dest!: chosenTransform_in intro!: offeredI)

lemma expandIKEKeys_slices:
  assumes "prims_ok P"
  shows "\<exists>keys. expandIKEKeys P prf sd ni nr si sr ekl ikl = Some keys
    \<and> length (SKd keys) = hash_size prf \<and> length (SKai keys) = ikl \<and> length (SKar keys) = ikl
    \<and> length (SKei keys) = ekl \<and> length (SKer keys) = ekl \<and> length (SKpi keys) = hash_size prf \<and> length (SKpr keys) = hash_size prf
    \<and> Plus (hmac P prf) sd (ni @ nr @ be64 si @ be64 sr) (3 * hash_size prf + 2 * ikl + 2 * ekl)
        = Some (SKd keys @ SKai keys @ SKar keys @ SKei keys @ SKer keys @ SKpi keys @ SKpr keys)"
proof -
  let ?z = "hash_size prf"
  let ?n = "?z + 2 * ikl + 2 * ekl + 2 * ?z"
  obtain km where e: "Plus (hmac P prf) sd (ni @ nr @ be64 si @ be64 sr) ?n = Some km" and l: "length km = ?n"
    using Plus_hmac [OF assms] by blast
  let ?o3 = "?z + ikl + ikl"
  have sp: "km = slice 0 ?z km @ slice ?z (?z + ikl) km @ slice (?z + ikl) ?o3 km @ slice ?o3 (?o3 + ekl) km
     @ slice (?o3 + ekl) (?o3 + ekl + ekl) km @ slice (?o3 + ekl + ekl) (?o3 + ekl + ekl + ?z) km
     @ slice (?o3 + ekl + ekl + ?z) (?o3 + ekl + ekl + ?z + ?z) km"
  proof -
    have w: "km = slice 0 (?o3 + ekl + ekl + ?z + ?z) km" using l by (simp add: slice_def)
    show ?thesis by (subst w) (simp add: slice_split [symmetric])
  qed
  define keys where "keys = \<lparr>SKd = slice 0 ?z km, SKai = slice ?z (?z + ikl) km, SKar = slice (?z + ikl) ?o3 km, SKei = slice ?o3 (?o3 + ekl) km,
     SKer = slice (?o3 + ekl) (?o3 + ekl + ekl) km, SKpi = slice (?o3 + ekl + ekl) (?o3 + ekl + ekl + ?z) km,
     SKpr = slice (?o3 + ekl + ekl + ?z) (?o3 + ekl + ekl + ?z + ?z) km\<rparr>"
  have "expandIKEKeys P prf sd ni nr si sr ekl ikl = Some keys"
    unfolding expandIKEKeys_def Let_def e option.map keys_def ..
  moreover have "SKd keys @ SKai keys @ SKar keys @ SKei keys @ SKer keys @ SKpi keys @ SKpr keys = km"
    unfolding keys_def SAKeys.select_convs by (rule sp [symmetric])
  moreover have n: "3 * ?z + 2 * ikl + 2 * ekl = ?n" by simp
  moreover have "length (SKd keys) = ?z \<and> length (SKai keys) = ikl \<and> length (SKar keys) = ikl \<and> length (SKei keys) = ekl
    \<and> length (SKer keys) = ekl \<and> length (SKpi keys) = ?z \<and> length (SKpr keys) = ?z"
    by (simp add: keys_def l)
  ultimately show ?thesis using e unfolding n by (intro exI [of _ keys]) simp
qed

section \<open>Properties\<close>


definition example_proposal :: Proposal where
  "example_proposal = \<lparr>Num = 1, Protocol = 1, SPI = [], Transforms = [mk_tr 1 20 256, mk_tr 2 5 0, mk_tr 4 31 0]\<rparr>"

definition example_suite :: Suite where
  "example_suite = \<lparr>su_EncrID = 20, su_EncrKeyLn = 256, su_PRFID = 5, su_IntegID = 0, su_DHID = 31,
     su_Cipher = aeadCipher 32 AESGCM, su_PRF = SHA256, su_Integ = None\<rparr>"

lemma example_selected: "SelectIKESuite example_prims [example_proposal] = Some (example_suite, example_proposal)"
  by (simp add: SelectIKESuite_def try_ike_proposal_def example_proposal_def example_suite_def ProtoIKE_def transform_types chosenTransform_def
      supportedENCR_def supportedPRF_def supportedDH_def isAEAD_def ENCR_AES_GCM_16_def buildSuite_def Cipher_def NewAESGCMSKCipher_def
      aesKeyLen_def PRF_of_def Let_def)


end
