(* ===== verification/Ike_Secure.thy ===== *)
theory Ike_Secure
  imports Ike_Sk
begin

text \<open>
  Protected IKEv2 exchanges: fragmentation of RFC 7383 in both directions
  (\<^verbatim>\<open>internal/ikev2/ike/fragment.go\<close>) and the responder's entry point that decrypts a message,
  moves the return address and dispatches it (\<^verbatim>\<open>secured.go\<close>).  The clock is an argument; every
  fragment reads its own random octets, so the source of randomness is a function of the fragment's index.
  The handlers an exchange is dispatched to are the values of a datatype.
\<close>

section \<open>Constants\<close>

definition maxFragments :: nat where "maxFragments = 64"
definition maxReassembledBytes :: nat where "maxReassembledBytes = 64 * 1024"
definition fragReassemblyTTL :: int where "fragReassemblyTTL = 30 * 1000000000"
definition skfPrefixLen :: nat where "skfPrefixLen = 4"
definition fragmentThreshold :: nat where "fragmentThreshold = 1280"
definition skfOverhead :: nat where "skfOverhead = IkeHeaderLen + 4 + skfPrefixLen"
definition IKEFragmentationSupported :: u16 where "IKEFragmentationSupported = 16430"

lemmas frag_consts = maxFragments_def maxReassembledBytes_def skfPrefixLen_def fragmentThreshold_def skfOverhead_def IkeHeaderLen_def

section \<open>Support\<close>

definition findFragSupported :: "RawPayload list \<Rightarrow> bool" where
  "findFragSupported payloads = list_ex (\<lambda>p. Type p = TypeNotify \<and>
     (case ParseNotify (Body p) of Err _ \<Rightarrow> False | Ok n \<Rightarrow> n_Type n = IKEFragmentationSupported)) payloads"

definition addFragSupported :: "Builder \<Rightarrow> Builder" where
  "addFragSupported b = Add TypeNotify False
     (MarshalNotify \<lparr>n_Protocol = 0, n_Type = IKEFragmentationSupported, n_SPI = [], n_Data = []\<rparr>) b"

section \<open>One fragment\<close>

definition decryptSKF :: "prims \<Rightarrow> bytes \<Rightarrow> RawPayload \<Rightarrow> Suite \<Rightarrow> SAKeys \<Rightarrow> keyDir \<Rightarrow> sk_error + (u16 \<times> u16 \<times> byte \<times> bytes)" where
  "decryptSKF P raw skf suite keys dir =
     (if length (Body skf) < skfPrefixLen then Err SkfShort
      else let fragNum = get16 0 (Body skf); tot = get16 2 (Body skf);
               ivCtIcv = drop skfPrefixLen (Body skf);
               bodyStart = int (length raw) - int (length ivCtIcv)
           in if bodyStart < int (IkeHeaderLen + 4 + skfPrefixLen) then Err MalformedFraming
              else let aad = take (nat bodyStart) raw;
                       firstInner = raw ! (nat bodyStart - 4 - skfPrefixLen);
                       (encKey, integKey) = encryptKeys keys dir
                   in case openSK P suite encKey integKey aad ivCtIcv of
                        Err x \<Rightarrow> Err (SkCrypt x)
                      | Ok padded \<Rightarrow> (case stripRFC7296Pad padded of
                          Err x \<Rightarrow> Err x
                        | Ok plaintext \<Rightarrow> Ok (fragNum, tot, firstInner, plaintext)))"

definition sealSKF ::
    "prims \<Rightarrow> rand \<Rightarrow> IkeHeader \<Rightarrow> Suite \<Rightarrow> bytes \<Rightarrow> bytes \<Rightarrow> nat \<Rightarrow> nat \<Rightarrow> nat \<Rightarrow> u16 \<Rightarrow> u16 \<Rightarrow> byte \<Rightarrow> bytes \<Rightarrow> sk_error + bytes" where
  "sealSKF P rnd hdr suite encKey integKey ivLen icvLen blk fragNum tot nxt chunk =
     (let ctLen = length chunk + 1;
          ctLen = (if blk > 1 then let padLen = blk - (length chunk + 1) mod blk in if padLen \<noteq> blk then ctLen + padLen else ctLen
                   else ctLen);
          skfPayloadLen = 4 + skfPrefixLen + ivLen + ctLen + icvLen;
          msgLen = IkeHeaderLen + skfPayloadLen;
          hdr = hdr\<lparr>NextPayload := TypeSKF, Version := 0x20, Length := of_nat msgLen\<rparr>;
          aad = MarshalIkeHeader hdr [] @ [nxt, 0, of_nat (skfPayloadLen div 256), of_nat skfPayloadLen] @ be16 fragNum @ be16 tot
      in case sealSK P rnd suite encKey integKey aad chunk of
           Err x \<Rightarrow> Err (SkCrypt x)
         | Ok sealed \<Rightarrow> if length sealed \<noteq> ivLen + ctLen + icvLen then Err BodyLengthMismatch else Ok (aad @ sealed))"

section \<open>Reassembly\<close>

text \<open>A nil slice is \<open>None\<close>: the parts before a first fragment, and a part not yet received.\<close>

record fragReassembler =
  fr_msgID :: u32
  fr_total :: u16
  fr_parts :: "bytes option list option"
  fr_got :: nat
  fr_bytes :: nat
  fr_first :: byte
  fr_started :: int

definition frag_reset :: "fragReassembler \<Rightarrow> fragReassembler" where
  "frag_reset r = r\<lparr>fr_parts := None, fr_got := 0, fr_bytes := 0, fr_total := 0, fr_first := 0\<rparr>"

datatype frag_error = BadTotal u16 | BadNumber u16 u16 | TooLarge

text \<open>The result is an error, \<open>None\<close> while fragments are outstanding, or the message and its first payload type.\<close>

definition frag_start :: "int \<Rightarrow> u32 \<Rightarrow> u16 \<Rightarrow> fragReassembler \<Rightarrow> fragReassembler" where
  "frag_start now msgID tot r =
     (let stale = (fr_parts r \<noteq> None \<and> now - fr_started r > fragReassemblyTTL) in
      if fr_parts r = None \<or> msgID \<noteq> fr_msgID r \<or> tot \<noteq> fr_total r \<or> stale then
        r\<lparr>fr_msgID := msgID, fr_total := tot, fr_parts := Some (replicate (unat tot) None), fr_got := 0, fr_bytes := 0,
          fr_first := 0, fr_started := now\<rparr>
      else r)"

definition frag_add ::
    "int \<Rightarrow> u32 \<Rightarrow> u16 \<Rightarrow> u16 \<Rightarrow> byte \<Rightarrow> bytes \<Rightarrow> fragReassembler \<Rightarrow> (frag_error + (bytes \<times> byte) option) \<times> fragReassembler" where
  "frag_add now msgID fragNum tot first chunk r =
     (if tot = 0 \<or> unat tot > maxFragments then (Err (BadTotal tot), r)
      else if fragNum = 0 \<or> fragNum > tot then (Err (BadNumber fragNum tot), r)
      else let r = frag_start now msgID tot r;
               idx = unat (fragNum - 1);
               parts = the (fr_parts r)
           in if parts ! idx \<noteq> None then (Ok None, r)
              else if fr_bytes r + length chunk > maxReassembledBytes then (Err TooLarge, frag_reset r)
              else let parts = parts[idx := (if chunk = [] then None else Some chunk)];
                       r = r\<lparr>fr_parts := Some parts, fr_got := fr_got r + 1, fr_bytes := fr_bytes r + length chunk\<rparr>;
                       r = (if fragNum = 1 then r\<lparr>fr_first := first\<rparr> else r)
                   in if fr_got r < unat (fr_total r) then (Ok None, r)
                      else (Ok (Some (concat (map (\<lambda>p. case p of None \<Rightarrow> [] | Some b \<Rightarrow> b) parts), fr_first r)), frag_reset r))"

section \<open>Outbound fragmentation\<close>

fun seal_fragments ::
    "prims \<Rightarrow> (nat \<Rightarrow> rand) \<Rightarrow> IkeHeader \<Rightarrow> Suite \<Rightarrow> bytes \<Rightarrow> bytes \<Rightarrow> nat \<Rightarrow> nat \<Rightarrow> byte \<Rightarrow> bytes \<Rightarrow> nat list \<Rightarrow> sk_error + bytes list" where
  "seal_fragments P rnds hdr suite ek ik room tot firstInner inner [] = Ok []"
| "seal_fragments P rnds hdr suite ek ik room tot firstInner inner (i # is) =
     (let chunk = take room (drop (i * room) inner);
          nxt = (if i = 0 then firstInner else 0)
      in case sealSKF P (rnds i) hdr suite ek ik (IVLen (su_Cipher suite)) (icv_len suite) (BlockLen (su_Cipher suite))
                (of_nat (i + 1)) (of_nat tot) nxt chunk of
           Err x \<Rightarrow> Err x
         | Ok frag \<Rightarrow> map_sum id (Cons frag) (seal_fragments P rnds hdr suite ek ik room tot firstInner inner is))"

definition frag_room :: "Suite \<Rightarrow> int" where
  "frag_room suite =
     (let room = int fragmentThreshold - int skfOverhead - int (IVLen (su_Cipher suite)) - int (icv_len suite) - 1
      in if BlockLen (su_Cipher suite) > 1 then room - int (BlockLen (su_Cipher suite)) else room)"

definition buildFragmentedMessage ::
    "prims \<Rightarrow> (nat \<Rightarrow> rand) \<Rightarrow> IkeHeader \<Rightarrow> Suite \<Rightarrow> SAKeys \<Rightarrow> keyDir \<Rightarrow> byte \<Rightarrow> bytes \<Rightarrow> sk_error + bytes list" where
  "buildFragmentedMessage P rnds hdr suite keys dir firstInner innerPayloads =
     (let (encKey, integKey) = encryptKeys keys dir in
      if frag_room suite \<le> 0 then Err NoRoom
      else let room = nat (frag_room suite);
               tot = (length innerPayloads + room - 1) div room;
               tot = (if tot = 0 then 1 else tot)
           in if tot > maxFragments then Err (TooManyFragments tot)
              else seal_fragments P rnds hdr suite encKey integKey room tot firstInner innerPayloads [0..<tot])"

definition wouldExceedThreshold :: "Suite \<Rightarrow> nat \<Rightarrow> bool" where
  "wouldExceedThreshold suite innerLen =
     (let overhead = IkeHeaderLen + 4 + IVLen (su_Cipher suite) + icv_len suite + 1;
          overhead = (if BlockLen (su_Cipher suite) > 1 then overhead + BlockLen (su_Cipher suite) else overhead)
      in innerLen + overhead > fragmentThreshold)"

definition sealMaybeFragment ::
    "prims \<Rightarrow> (nat \<Rightarrow> rand) \<Rightarrow> IkeHeader \<Rightarrow> Suite \<Rightarrow> SAKeys \<Rightarrow> keyDir \<Rightarrow> byte \<Rightarrow> bytes \<Rightarrow> bool \<Rightarrow> sk_error + bytes list" where
  "sealMaybeFragment P rnds hdr suite keys dir firstInner inner peerSupportsFrag =
     (if peerSupportsFrag \<and> wouldExceedThreshold suite (length inner)
      then buildFragmentedMessage P rnds hdr suite keys dir firstInner inner
      else map_sum id (\<lambda>pkt. [pkt]) (buildEncryptedMessage P (rnds 0) hdr suite keys dir firstInner inner))"

section \<open>The responder\<close>

datatype SAState = StateInitial | StateSAInitDone | StateIntermediate | StateEstablished | StateDeleting | StateClosed

definition IKE_AUTH :: byte where "IKE_AUTH = 35"
definition CREATE_CHILD_SA :: byte where "CREATE_CHILD_SA = 36"
definition INFORMATIONAL :: byte where "INFORMATIONAL = 37"
definition IKE_INTERMEDIATE :: byte where "IKE_INTERMEDIATE = 43"

lemmas exchanges = IKE_AUTH_def CREATE_CHILD_SA_def INFORMATIONAL_def IKE_INTERMEDIATE_def

type_synonym udp_addr = "bytes \<times> u16"

text \<open>The fields of an IKE SA that the protected path reads or writes.\<close>

record IKESA =
  sa_InitiatorSPI :: u64
  sa_ResponderSPI :: u64
  WeAreInitiator :: bool
  State :: SAState
  sa_Suite :: Suite
  Keys :: SAKeys
  RecvMsgID :: u32
  RemoteAddr :: "udp_addr option"
  OnPort4500 :: bool
  fragEnabled :: bool
  fragReasm :: fragReassembler
  lastSeen :: int

definition dirForOutbound :: "IKESA \<Rightarrow> keyDir" where
  "dirForOutbound sa = (if WeAreInitiator sa then dirInitiatorToResponder else dirResponderToInitiator)"

definition dirForInbound :: "IKESA \<Rightarrow> keyDir" where
  "dirForInbound sa = (if WeAreInitiator sa then dirResponderToInitiator else dirInitiatorToResponder)"

definition touch :: "int \<Rightarrow> IKESA \<Rightarrow> IKESA" where
  "touch now sa = sa\<lparr>lastSeen := now\<rparr>"

definition exchangeAllowed :: "SAState \<Rightarrow> byte \<Rightarrow> bool" where
  "exchangeAllowed st ex =
     (if ex = IKE_AUTH then st = StateSAInitDone \<or> st = StateIntermediate
      else if ex = IKE_INTERMEDIATE then st = StateSAInitDone \<or> st = StateIntermediate
      else if ex = CREATE_CHILD_SA then st = StateEstablished
      else if ex = INFORMATIONAL then st = StateEstablished \<or> st = StateDeleting
      else False)"

datatype dispatch =
    HandleIKEAuth IkeHeader "RawPayload list" udp_addr
  | HandleIKEIntermediate IkeHeader "RawPayload list" udp_addr
  | HandleCreateChildSA IkeHeader "RawPayload list" udp_addr
  | HandleInformational IkeHeader "RawPayload list" udp_addr

text \<open>What a datagram decrypts to: nothing yet, or an inner chain; and the association with its reassembler.\<close>

definition open_secured :: "prims \<Rightarrow> int \<Rightarrow> bytes \<Rightarrow> IkeHeader \<Rightarrow> IKESA \<Rightarrow> (byte \<times> bytes) option \<times> IKESA" where
  "open_secured P now pkt hdr sa = (case ParseMessage pkt of
     Err _ \<Rightarrow> (None, sa)
   | Ok msg \<Rightarrow> (case Find TypeSKF msg of
       Some skfPay \<Rightarrow>
         if \<not> fragEnabled sa then (None, sa)
         else (case decryptSKF P pkt skfPay (sa_Suite sa) (Keys sa) (dirForInbound sa) of
           Err _ \<Rightarrow> (None, sa)
         | Ok (fragNum, tot, fi, chunk) \<Rightarrow>
             let (res, fr) = frag_add now (MessageID hdr) fragNum tot fi chunk (fragReasm sa); sa = sa\<lparr>fragReasm := fr\<rparr> in
             (case res of Err _ \<Rightarrow> (None, sa) | Ok None \<Rightarrow> (None, sa) | Ok (Some (reasm, rfi)) \<Rightarrow> (Some (rfi, reasm), sa)))
     | None \<Rightarrow> (case Find TypeSK msg of
         None \<Rightarrow> (None, sa)
       | Some skPay \<Rightarrow> (case decryptSK P pkt skPay (sa_Suite sa) (Keys sa) (dirForInbound sa) of
           Err _ \<Rightarrow> (None, sa)
         | Ok r \<Rightarrow> (Some r, sa)))))"

definition dispatch_of :: "byte \<Rightarrow> IkeHeader \<Rightarrow> RawPayload list \<Rightarrow> udp_addr \<Rightarrow> dispatch option" where
  "dispatch_of ex hdr inners remote =
     (if ex = IKE_AUTH then Some (HandleIKEAuth hdr inners remote)
      else if ex = IKE_INTERMEDIATE then Some (HandleIKEIntermediate hdr inners remote)
      else if ex = CREATE_CHILD_SA then Some (HandleCreateChildSA hdr inners remote)
      else if ex = INFORMATIONAL then Some (HandleInformational hdr inners remote)
      else None)"

definition handleSecured ::
    "prims \<Rightarrow> int \<Rightarrow> bytes \<Rightarrow> IkeHeader \<Rightarrow> udp_addr \<Rightarrow> byte \<Rightarrow> bool \<Rightarrow> (u64 \<Rightarrow> IKESA option) \<Rightarrow> dispatch option \<times> (u64 \<Rightarrow> IKESA option)" where
  "handleSecured P now pkt hdr remote ex on4500 byRSPI =
     (if IsResponse hdr then (None, byRSPI)
      else case byRSPI (ResponderSPI hdr) of
        None \<Rightarrow> (None, byRSPI)
      | Some sa \<Rightarrow>
          if MessageID hdr \<noteq> RecvMsgID sa then (None, byRSPI)
          else (case open_secured P now pkt hdr sa of
            (None, sa) \<Rightarrow> (None, byRSPI(ResponderSPI hdr \<mapsto> sa))
          | (Some (firstInner, inner), sa) \<Rightarrow>
              let sa = touch now sa;
                  sa = (if on4500 \<and> \<not> OnPort4500 sa then sa\<lparr>OnPort4500 := True\<rparr> else sa);
                  sa = sa\<lparr>RemoteAddr := Some remote\<rparr>;
                  byRSPI = byRSPI(ResponderSPI hdr \<mapsto> sa)
              in case parseInnerPayloads firstInner inner of
                   Err _ \<Rightarrow> (None, byRSPI)
                 | Ok inners \<Rightarrow>
                     if \<not> exchangeAllowed (State sa) ex then (None, byRSPI)
                     else (dispatch_of ex hdr inners remote, byRSPI)))"

text \<open>The datagrams a response is sent as, to \<open>remote\<close> and on the port the association has floated to.\<close>

definition respondEncrypted ::
    "prims \<Rightarrow> (nat \<Rightarrow> rand) \<Rightarrow> IKESA \<Rightarrow> byte \<Rightarrow> u32 \<Rightarrow> byte \<Rightarrow> bytes \<Rightarrow> udp_addr \<Rightarrow> (bytes \<times> udp_addr \<times> bool) list" where
  "respondEncrypted P rnds sa ex msgID firstInner innerChain remote =
     (let hdr = \<lparr>InitiatorSPI = sa_InitiatorSPI sa, ResponderSPI = sa_ResponderSPI sa, NextPayload = 0, Version = 0,
                 ExchangeType = ex, Flags = FlagResponse, MessageID = msgID, Length = 0\<rparr>
      in case sealMaybeFragment P rnds hdr (sa_Suite sa) (Keys sa) (dirForOutbound sa) firstInner innerChain (fragEnabled sa) of
           Err _ \<Rightarrow> []
         | Ok pkts \<Rightarrow> map (\<lambda>pkt. (pkt, remote, OnPort4500 sa)) pkts)"

definition respondEncryptedNotify ::
    "prims \<Rightarrow> (nat \<Rightarrow> rand) \<Rightarrow> IKESA \<Rightarrow> byte \<Rightarrow> u32 \<Rightarrow> u16 \<Rightarrow> udp_addr \<Rightarrow> (bytes \<times> udp_addr \<times> bool) list" where
  "respondEncryptedNotify P rnds sa ex msgID nt remote =
     (let b = Add TypeNotify False (MarshalNotify \<lparr>n_Protocol = 0, n_Type = nt, n_SPI = [], n_Data = []\<rparr>) NewBuilder
      in respondEncrypted P rnds sa ex msgID (FirstType b) (Bytes b) remote)"

section \<open>One fragment, there and back\<close>

lemma skf_ct_len:
  "(let c = n + 1 in if blk > 1 then let p = blk - (n + 1) mod blk in if p \<noteq> blk then c + p else c else c) = ct_len blk n"
  by (simp add: ct_len_def Let_def)

text \<open>What a sealed fragment is, and that it opens.\<close>

definition skf_opens :: "prims \<Rightarrow> Suite \<Rightarrow> SAKeys \<Rightarrow> keyDir \<Rightarrow> IkeHeader \<Rightarrow> u16 \<Rightarrow> u16 \<Rightarrow> byte \<Rightarrow> bytes \<Rightarrow> bytes \<Rightarrow> bool" where
  "skf_opens P s keys dir h fn tot nxt chunk raw \<longleftrightarrow> (\<exists>m skf. ParseMessage raw = Ok m \<and> Find TypeSKF m = Some skf
    \<and> decryptSKF P raw skf s keys dir = Ok (fn, tot, nxt, chunk) \<and> length raw = 36 + sk_body_len s (length chunk)
    \<and> InitiatorSPI (Header m) = InitiatorSPI h \<and> ResponderSPI (Header m) = ResponderSPI h
    \<and> ExchangeType (Header m) = ExchangeType h \<and> Flags (Header m) = Flags h \<and> MessageID (Header m) = MessageID h)"

lemma skf_roundtrip:
  assumes "prims_ok P" "rand_ok rnd" "suite_ok s" "8 + sk_body_len s (length chunk) < 65536"
    and k: "encryptKeys keys dir = (ek, ik)"
    and sl: "\<And>aad. \<exists>c. sealSK P rnd s ek ik aad chunk = Ok c"
  shows "\<exists>raw. sealSKF P rnd h s ek ik (IVLen (su_Cipher s)) (icv_len s) (BlockLen (su_Cipher s)) fn tot nxt chunk = Ok raw
    \<and> skf_opens P s keys dir h fn tot nxt chunk raw"
proof -
  let ?n = "sk_body_len s (length chunk)"
  define aad where "aad = MarshalIkeHeader (h\<lparr>NextPayload := TypeSKF, Version := 0x20, Length := of_nat (36 + ?n)\<rparr>) []
     @ [nxt, 0] @ be16 (of_nat (8 + ?n)) @ be16 fn @ be16 tot"
  have pl: "4 + skfPrefixLen + IVLen (su_Cipher s) + ct_len (BlockLen (su_Cipher s)) (length chunk) + icv_len s = 8 + ?n"
    by (simp add: sk_body_len_def skfPrefixLen_def)
  have aad': "aad = MarshalIkeHeader (h\<lparr>NextPayload := TypeSKF, Version := 0x20, Length := of_nat (IkeHeaderLen + (8 + ?n))\<rparr>) []
      @ [nxt, 0, of_nat ((8 + ?n) div 256), of_nat (8 + ?n)] @ be16 fn @ be16 tot"
    unfolding aad_def be16_split [OF assms(4)] by (simp add: IkeHeaderLen_def)
  obtain c where c: "sealSK P rnd s ek ik aad chunk = Ok c" using sl by blast
  have lc: "length c = ?n" using sealSK_openSK(2) [OF assms(1-3) c] by (simp add: sk_body_len_def)
  obtain pd where pd: "openSK P s ek ik aad c = Ok pd" "stripRFC7296Pad pd = Ok chunk" using sealSK_openSK(1) [OF assms(1-3) c] by blast
  have ls: "IVLen (su_Cipher s) + ct_len (BlockLen (su_Cipher s)) (length chunk) + icv_len s = ?n" by (simp add: sk_body_len_def)
  have seal: "sealSKF P rnd h s ek ik (IVLen (su_Cipher s)) (icv_len s) (BlockLen (su_Cipher s)) fn tot nxt chunk = Ok (aad @ c)"
    unfolding sealSKF_def skf_ct_len [unfolded Let_def] Let_def pl aad' [symmetric] by (simp add: c lc ls)
  have la: "length aad = 36" "aad ! 28 = nxt" by (simp_all add: aad_def nth_append)
  let ?body = "be16 fn @ be16 tot @ c"
  have raw: "aad @ c = single_payload h TypeSKF nxt ?body" by (simp add: aad_def single_payload_def lc)
  have g: "get16 0 ?body = fn" "get16 2 ?body = tot" "drop 4 ?body = c" by (simp_all add: wire_simps)
  have "decryptSKF P (aad @ c) \<lparr>Type = TypeSKF, Critical = False, Body = ?body\<rparr> s keys dir = Ok (fn, tot, nxt, chunk)"
    using pd la g by (simp add: decryptSKF_def k IkeHeaderLen_def skfPrefixLen_def nth_append)
  then have "skf_opens P s keys dir h fn tot nxt chunk (aad @ c)"
    using ParseMessage_single [of TypeSKF ?body h nxt] assms(4) lc la
    unfolding skf_opens_def by (simp add: raw Find_def ike_types)
  then show ?thesis using seal by blast
qed

section \<open>The fragments of a message\<close>

lemma frag_chunks_concat:
  "n \<le> m * room \<Longrightarrow> length xs = n \<Longrightarrow> concat (map (\<lambda>i. take room (drop (i * room) xs)) [0..<m]) = xs"
proof -
  assume n: "n \<le> m * room" "length xs = n"
  have "concat (map (\<lambda>i. take room (drop (i * room) xs)) [0..<m]) = take (m * room) xs"
    by (induction m) (simp_all add: take_add [symmetric] add.commute)
  then show ?thesis using n by simp
qed

lemma seal_fragments_open:
  assumes "\<And>i. i \<in> set is \<Longrightarrow> \<exists>raw. sealSKF P (rnds i) h s ek ik (IVLen (su_Cipher s)) (icv_len s) (BlockLen (su_Cipher s))
      (of_nat (i + 1)) (of_nat tot) (if i = 0 then first else 0) (take room (drop (i * room) inner)) = Ok raw \<and> Q i raw"
  shows "\<exists>pkts. seal_fragments P rnds h s ek ik room tot first inner is = Ok pkts \<and> list_all2 Q is pkts"
  using assms
proof (induction "is")
  case (Cons i "is")
  obtain raw where r: "sealSKF P (rnds i) h s ek ik (IVLen (su_Cipher s)) (icv_len s) (BlockLen (su_Cipher s))
      (of_nat (i + 1)) (of_nat tot) (if i = 0 then first else 0) (take room (drop (i * room) inner)) = Ok raw" "Q i raw"
    using Cons.prems [of i] by auto
  obtain pkts where "seal_fragments P rnds h s ek ik room tot first inner is = Ok pkts" "list_all2 Q is pkts"
    using Cons by auto
  then show ?case using r by (intro exI [of _ "raw # pkts"]) (simp add: Let_def)
qed simp

lemma suite_overhead:
  assumes "suite_ok s" "icv_len s \<le> 32"
  shows "IVLen (su_Cipher s) + icv_len s + (if BlockLen (su_Cipher s) > 1 then BlockLen (su_Cipher s) else 0) \<le> 64"
  using assms by (auto simp: suite_ok_def icv_len_def split: option.splits)

lemma ct_len_le: "ct_len blk n \<le> n + 1 + (if blk > 1 then blk else 0)"
  using pad_len_lt [of blk n] by (auto simp: ct_len_eq max_def split: if_splits)

text \<open>Every suite the registry builds has a checksum of at most 32 octets.\<close>

lemma buildSuite_icv: "buildSuite P encr prf integ dh = Ok s \<Longrightarrow> icv_len s \<le> 32"
  by (auto simp: buildSuite_def icv_len_def Cipher_def isAEAD_def Integrity_of_def NewHMACIntegrity_def
      NewAESGCMSKCipher_def NewChaCha20Poly1305SKCipher_def NewAESCBCSKCipher_def Let_def split: if_splits sum.splits option.splits)

section \<open>Reassembly in any order\<close>

text \<open>The reassembler has the fragments \<open>S\<close> of the message cut into \<open>chunks\<close>.\<close>

definition collecting :: "u32 \<Rightarrow> bytes list \<Rightarrow> byte \<Rightarrow> int \<Rightarrow> nat set \<Rightarrow> fragReassembler \<Rightarrow> bool" where
  "collecting mid chunks first t0 S r \<longleftrightarrow> S \<subseteq> {..<length chunks} \<and> fr_msgID r = mid \<and> fr_total r = of_nat (length chunks)
     \<and> fr_parts r = Some (map (\<lambda>i. if i \<in> S then Some (chunks ! i) else None) [0..<length chunks])
     \<and> fr_got r = card S \<and> fr_bytes r = (\<Sum>i\<in>S. length (chunks ! i)) \<and> fr_first r = (if 0 \<in> S then first else 0) \<and> fr_started r = t0"

text \<open>Nothing of this message is held: the next fragment of it starts afresh.\<close>

definition idle_for :: "u32 \<Rightarrow> fragReassembler \<Rightarrow> bool" where
  "idle_for mid r \<longleftrightarrow> fr_parts r = None \<or> fr_msgID r \<noteq> mid"

lemma frag_start_idle:
  assumes "idle_for mid r" "length chunks \<le> 64"
  shows "collecting mid chunks first now {} (frag_start now mid (of_nat (length chunks)) r)"
proof -
  have "unat (of_nat (length chunks) :: u16) = length chunks" using assms(2) by (intro unat_of_nat_small) simp
  then show ?thesis using assms(1)
    by (auto simp: idle_for_def frag_start_def collecting_def Let_def intro: nth_equalityI)
qed

lemma frag_start_collecting:
  assumes "collecting mid chunks first t0 S r" "now - t0 \<le> fragReassemblyTTL"
  shows "frag_start now mid (of_nat (length chunks)) r = r"
  using assms by (auto simp: collecting_def frag_start_def Let_def)

lemma sum_chunks_le:
  assumes "S \<subseteq> {..<length chunks}"
  shows "(\<Sum>i\<in>S. length (chunks ! i)) \<le> length (concat chunks)"
proof -
  have "(\<Sum>i\<in>S. length (chunks ! i)) \<le> (\<Sum>i<length chunks. length (chunks ! i))" using assms by (intro sum_mono2) auto
  also have "\<dots> = length (concat chunks)" by (simp add: length_concat sum_list_sum_nth atLeast0LessThan)
  finally show ?thesis .
qed

lemma concat_parts: "concat (map (\<lambda>p. case p of None \<Rightarrow> [] | Some b \<Rightarrow> b) (map (\<lambda>i. Some (xs ! i)) [0..<length xs])) = concat xs"
  by (simp add: comp_def map_nth)

lemma frag_index:
  assumes "n \<le> 64" "i < n"
  shows "(of_nat n :: u16) \<noteq> 0" "unat (of_nat n :: u16) = n" "(of_nat (i + 1) :: u16) \<noteq> 0" "\<not> (of_nat (i + 1) :: u16) > of_nat n"
    "unat ((of_nat (i + 1) :: u16) - 1) = i" "(of_nat (i + 1) :: u16) = 1 \<longleftrightarrow> i = 0"
proof -
  have u: "unat (of_nat (i + 1) :: u16) = i + 1" "unat (of_nat n :: u16) = n" "unat (of_nat i :: u16) = i"
    by (rule unat_of_nat_small, use assms in simp)+
  show "(of_nat n :: u16) \<noteq> 0" "unat (of_nat n :: u16) = n" "(of_nat (i + 1) :: u16) \<noteq> 0" "\<not> (of_nat (i + 1) :: u16) > of_nat n"
    using u assms by (auto simp: word_less_nat_alt simp del: of_nat_add of_nat_Suc)
  show "unat ((of_nat (i + 1) :: u16) - 1) = i" using u(3) by simp
  show "(of_nat (i + 1) :: u16) = 1 \<longleftrightarrow> i = 0" using u(1) unfolding word_unat_eq_iff by (simp only: unat_1) simp
qed

lemma card_below_iff: "A \<subseteq> {..<n} \<Longrightarrow> card A < n \<longleftrightarrow> A \<noteq> {..<n}"
  using psubset_card_mono [of "{..<n}" A] by (cases "A = {..<n}") auto

lemma frag_add_new:
  assumes c: "collecting mid chunks first t0 S (frag_start now mid (of_nat (length chunks)) r)"
    and n: "length chunks \<le> 64" "[] \<notin> set chunks" "length (concat chunks) \<le> maxReassembledBytes"
    and i: "i < length chunks" "i \<notin> S" and f: "f = (if i = 0 then first else 0)"
  shows "if insert i S = {..<length chunks}
    then fst (frag_add now mid (of_nat (i + 1)) (of_nat (length chunks)) f (chunks ! i) r) = Ok (Some (concat chunks, first))
    else fst (frag_add now mid (of_nat (i + 1)) (of_nat (length chunks)) f (chunks ! i) r) = Ok None
      \<and> collecting mid chunks first t0 (insert i S) (snd (frag_add now mid (of_nat (i + 1)) (of_nat (length chunks)) f (chunks ! i) r))"
proof -
  let ?n = "length chunks"
  define fn tot :: u16 where "fn = of_nat (i + 1)" and "tot = of_nat ?n"
  note fd = fn_def [symmetric] tot_def [symmetric]
  let ?r = "frag_start now mid tot r"
  note x = frag_index [OF n(1) i(1), folded fn_def tot_def]
  have g: "tot \<noteq> 0" "\<not> unat tot > maxFragments" "fn \<noteq> 0" "\<not> fn > tot" and u: "unat tot = ?n" and ix: "unat (fn - 1) = i"
    and one: "fn = 1 \<longleftrightarrow> i = 0" using x n(1) unfolding maxFragments_def by (simp_all only: not_less not_False_eq_True)
  note c = c [folded tot_def]
  have fin: "finite S" using c finite_subset by (auto simp: collecting_def)
  have sub: "insert i S \<subseteq> {..<?n}" using c i(1) by (auto simp: collecting_def)
  have sm: "(\<Sum>j\<in>S. length (chunks ! j)) + length (chunks ! i) = (\<Sum>j\<in>insert i S. length (chunks ! j))" using fin i(2) by simp
  then have fits: "\<not> fr_bytes ?r + length (chunks ! i) > maxReassembledBytes"
    using c sum_chunks_le [OF sub] n(3) by (simp add: collecting_def)
  have ne: "chunks ! i \<noteq> []" using n(2) i(1) nth_mem by metis
  let ?parts = "map (\<lambda>j. if j \<in> insert i S then Some (chunks ! j) else None) [0..<?n]"
  have parts: "(the (fr_parts ?r))[i := Some (chunks ! i)] = ?parts" "the (fr_parts ?r) ! i = None"
    using c i by (auto simp: collecting_def intro!: nth_equalityI simp: nth_list_update)
  define r' where "r' = ?r\<lparr>fr_parts := Some ?parts, fr_got := fr_got ?r + 1, fr_bytes := fr_bytes ?r + length (chunks ! i)\<rparr>"
  define r'' where "r'' = (if fn = 1 then r'\<lparr>fr_first := f\<rparr> else r')"
  have col: "collecting mid chunks first t0 (insert i S) r''"
    using c sub fin i f sm by (auto simp: collecting_def r''_def r'_def one tot_def)
  have add: "frag_add now mid fn tot f (chunks ! i) r = (if fr_got r'' < unat (fr_total r'') then (Ok None, r'')
      else (Ok (Some (concat (map (\<lambda>p. case p of None \<Rightarrow> [] | Some b \<Rightarrow> b) ?parts), fr_first r'')), frag_reset r''))"
    unfolding frag_add_def Let_def ix r''_def r'_def by (simp only: g fits ne parts simp_thms if_False)
  have got: "fr_got r'' < unat (fr_total r'') \<longleftrightarrow> insert i S \<noteq> {..<?n}"
  proof -
    have "card (insert i S) < ?n \<longleftrightarrow> insert i S \<noteq> {..<?n}" using sub by (rule card_below_iff)
    moreover have "fr_got r'' = card (insert i S)" "fr_total r'' = tot" using col by (simp_all add: collecting_def tot_def)
    ultimately show ?thesis by (simp only: u)
  qed
  have fst0: "fr_first r'' = (if 0 \<in> insert i S then first else 0)" using col by (simp add: collecting_def)
  show ?thesis
  proof (cases "insert i S = {..<?n}")
    case True
    have ps: "?parts = map (\<lambda>j. Some (chunks ! j)) [0..<?n]" unfolding True by simp
    have z: "fr_first r'' = first" using fst0 i(1) unfolding True by auto
    have "\<not> fr_got r'' < unat (fr_total r'')" using got True by blast
    then show ?thesis unfolding fd add ps concat_parts z using True by (simp only: if_True if_False fst_conv simp_thms)
  next
    case False
    then have "fr_got r'' < unat (fr_total r'')" using got by blast
    then show ?thesis using False col unfolding fd add by (simp only: if_True if_False fst_conv snd_conv simp_thms)
  qed
qed

lemma frag_add_dup:
  assumes c: "collecting mid chunks first t0 S (frag_start now mid (of_nat (length chunks)) r)"
    and n: "length chunks \<le> 64" and i: "i < length chunks" "i \<in> S"
  shows "frag_add now mid (of_nat (i + 1)) (of_nat (length chunks)) f ch r = (Ok None, frag_start now mid (of_nat (length chunks)) r)"
proof -
  define fn tot :: u16 where "fn = of_nat (i + 1)" and "tot = of_nat (length chunks)"
  note x = frag_index [OF n i(1), folded fn_def tot_def]
  have g: "tot \<noteq> 0" "\<not> unat tot > maxFragments" "fn \<noteq> 0" "\<not> fn > tot" and ix: "unat (fn - 1) = i"
    using x n unfolding maxFragments_def by (simp_all only: not_less not_False_eq_True)
  have "the (fr_parts (frag_start now mid tot r)) ! i \<noteq> None" using c i by (simp add: collecting_def tot_def)
  then show ?thesis unfolding frag_add_def Let_def fn_def [symmetric] tot_def [symmetric] ix using g by simp
qed

section \<open>A run of datagrams\<close>

text \<open>
  The receiver reads each datagram's header and decrypts it, in the order of arrival; the times are those of the arrivals.
\<close>

fun open_all :: "prims \<Rightarrow> (int \<times> bytes) list \<Rightarrow> IKESA \<Rightarrow> (byte \<times> bytes) option list" where
  "open_all P [] sa = []"
| "open_all P ((now, pkt) # ps) sa = (case ParseIkeHeader pkt of
     Err _ \<Rightarrow> None # open_all P ps sa
   | Ok hdr \<Rightarrow> (let (res, sa') = open_secured P now pkt hdr sa in res # open_all P ps sa'))"

lemma ParseMessage_header: "ParseMessage raw = Ok m \<Longrightarrow> ParseIkeHeader raw = Ok (Header m)"
proof -
  assume a: "ParseMessage raw = Ok m"
  obtain h where h: "ParseIkeHeader raw = Ok h" using a by (auto simp: ParseMessage_def split: sum.splits)
  then show ?thesis using a by (cases "parsePayloadChain (NextPayload h) (drop IkeHeaderLen raw)")
      (auto simp: ParseMessage_def split: if_splits)
qed

lemma open_fragment:
  assumes "skf_opens P (sa_Suite sa) (Keys sa) (dirForInbound sa) h fn tot nxt chunk raw" "fragEnabled sa"
    and "frag_add now (MessageID h) fn tot nxt chunk (fragReasm sa) = (Ok res, fr)"
  shows "open_all P ((now, raw) # ps) sa = map_option (\<lambda>(inner, first). (first, inner)) res # open_all P ps (sa\<lparr>fragReasm := fr\<rparr>)"
proof -
  obtain m skf where m: "ParseMessage raw = Ok m" "Find TypeSKF m = Some skf" "MessageID (Header m) = MessageID h"
    "decryptSKF P raw skf (sa_Suite sa) (Keys sa) (dirForInbound sa) = Ok (fn, tot, nxt, chunk)" using assms(1) by (auto simp: skf_opens_def)
  show ?thesis using m ParseMessage_header [OF m(1)] assms(2,3)
    by (cases res) (auto simp: open_secured_def Let_def)
qed

lemma dirForInbound_reasm [simp]: "dirForInbound (sa\<lparr>fragReasm := fr\<rparr>) = dirForInbound sa"
  by (simp add: dirForInbound_def)

text \<open>Every fragment in, in any order and with repetitions: the message comes out with the last one missing.\<close>

lemma open_all_fragments:
  assumes n: "length chunks \<le> 64" "[] \<notin> set chunks" "length (concat chunks) \<le> maxReassembledBytes" "length pkts = length chunks"
    and o: "\<And>i. i < length chunks \<Longrightarrow> skf_opens P s keys dir h (of_nat (i + 1)) (of_nat (length chunks)) (if i = 0 then first else 0) (chunks ! i) (pkts ! i)"
    and sa: "fragEnabled sa" "sa_Suite sa = s" "Keys sa = keys" "dirForInbound sa = dir"
    and c: "collecting (MessageID h) chunks first t0 S (frag_start (fst (hd ds)) (MessageID h) (of_nat (length chunks)) (fragReasm sa))"
    and d: "ds \<noteq> []" "S \<union> snd ` set ds = {..<length chunks}" "S \<union> snd ` set (butlast ds) \<noteq> {..<length chunks}"
    and t: "\<And>t. t \<in> fst ` set ds \<Longrightarrow> t - t0 \<le> fragReassemblyTTL"
  shows "open_all P (map (\<lambda>(t, i). (t, pkts ! i)) ds) sa = replicate (length ds - 1) None @ [Some (first, concat chunks)]"
  using sa c d t
proof (induction ds arbitrary: sa S)
  case (Cons di ds)
  obtain now i where di: "di = (now, i)" by (cases di)
  have i: "i < length chunks" using Cons.prems(7) di by auto
  have col: "collecting (MessageID h) chunks first t0 S (frag_start now (MessageID h) (of_nat (length chunks)) (fragReasm sa))"
    using Cons.prems(5) di by simp
  have op: "skf_opens P (sa_Suite sa) (Keys sa) (dirForInbound sa) h (of_nat (i + 1)) (of_nat (length chunks)) (if i = 0 then first else 0) (chunks ! i) (pkts ! i)"
    using o [OF i] Cons.prems(2-4) by simp
  let ?add = "frag_add now (MessageID h) (of_nat (i + 1)) (of_nat (length chunks)) (if i = 0 then first else 0) (chunks ! i) (fragReasm sa)"
  show ?case
  proof (cases "ds = []")
    case True
    then have ins: "insert i S = {..<length chunks}" "S \<noteq> {..<length chunks}" using Cons.prems(7,8) di by simp_all
    then have nin: "i \<notin> S" using insert_absorb by metis
    have "fst ?add = Ok (Some (concat chunks, first))"
      using frag_add_new [OF col n(1-3) i nin refl] unfolding if_P [OF ins(1)] .
    then have "?add = (Ok (Some (concat chunks, first)), snd ?add)" by (simp only: prod_eq_iff fst_conv snd_conv simp_thms)
    from open_fragment [OF op Cons.prems(1) this, of "[]"] show ?thesis using True di by simp
  next
    case False
    have part: "insert i S \<noteq> {..<length chunks}"
    proof
      assume a: "insert i S = {..<length chunks}"
      have "S \<union> snd ` set (butlast (di # ds)) \<subseteq> {..<length chunks}" using Cons.prems(7) in_set_butlastD [of _ "di # ds"] by blast
      moreover have "insert i S \<subseteq> S \<union> snd ` set (butlast (di # ds))" using False di by auto
      ultimately show False using a Cons.prems(8) by blast
    qed
    have "\<exists>fr. ?add = (Ok None, fr) \<and> collecting (MessageID h) chunks first t0 (insert i S) fr"
    proof (cases "i \<in> S")
      case True
      then show ?thesis using frag_add_dup [OF col n(1) i True] col unfolding insert_absorb [OF True] by blast
    next
      case nin: False
      show ?thesis using frag_add_new [OF col n(1-3) i nin refl] unfolding if_not_P [OF part]
        by (intro exI [of _ "snd ?add"]) (simp only: prod_eq_iff fst_conv snd_conv simp_thms)
    qed
    then obtain fr where fr: "?add = (Ok None, fr)" "collecting (MessageID h) chunks first t0 (insert i S) fr" by blast
    have "open_all P (map (\<lambda>(t, i). (t, pkts ! i)) ds) (sa\<lparr>fragReasm := fr\<rparr>) = replicate (length ds - 1) None @ [Some (first, concat chunks)]"
    proof (rule Cons.IH [where S = "insert i S"])
      show "collecting (MessageID h) chunks first t0 (insert i S) (frag_start (fst (hd ds)) (MessageID h) (of_nat (length chunks)) (fragReasm (sa\<lparr>fragReasm := fr\<rparr>)))"
        using frag_start_collecting [OF fr(2)] fr(2) Cons.prems(9) [of "fst (hd ds)"] False by simp
      show "insert i S \<union> snd ` set ds = {..<length chunks}" "insert i S \<union> snd ` set (butlast ds) \<noteq> {..<length chunks}"
        using Cons.prems(7,8) di False by simp_all
      show "t - t0 \<le> fragReassemblyTTL" if "t \<in> fst ` set ds" for t using Cons.prems(9) [of t] that by simp
    qed (use Cons.prems(1-4) False in simp_all)
    moreover have "None # replicate (length ds - 1) None = replicate (length (di # ds) - 1) None" using False by (cases ds) auto
    ultimately show ?thesis using open_fragment [OF op Cons.prems(1) fr(1)] di by simp
  qed
qed simp

section \<open>Sealing and fragmenting\<close>

text \<open>How many chunks: enough, no more than needed, and within the limit for a message a peer would reassemble.\<close>

lemma frag_count:
  assumes "1179 \<le> room" "inner \<noteq> []" "length inner \<le> maxReassembledBytes" and t: "tot = (length inner + room - 1) div room"
  shows "tot \<noteq> 0" "tot \<le> 64" "length inner \<le> tot * room" "(tot - 1) * room < length inner"
proof -
  have l: "0 < length inner" using assms(2) by simp
  have d: "tot * room \<le> length inner + room - 1" "length inner + room - 1 < tot * room + room"
    using assms(1) dividend_less_div_times [of room "length inner + room - 1"] by (simp_all add: t)
  show ne: "tot \<noteq> 0"
  proof
    assume "tot = 0"
    then have "length inner + room - 1 < room" using d(2) by simp
    then show False using l assms(1) by linarith
  qed
  show "length inner \<le> tot * room" using d(2) l by simp
  show lt: "(tot - 1) * room < length inner"
  proof -
    obtain k where k: "tot = Suc k" using ne by (cases tot) auto
    show ?thesis using d(1) l assms(1) unfolding k by (simp only: mult_Suc diff_Suc_1)
  qed
  show "tot \<le> 64"
  proof (rule ccontr)
    assume "\<not> tot \<le> 64"
    then have "64 * room \<le> (tot - 1) * room" by (intro mult_right_mono) auto
    then show False using lt assms(1,3) unfolding maxReassembledBytes_def by linarith
  qed
qed

text \<open>A message that needs fragments is cut into chunks that are not empty, each sealed in a datagram that opens to it.\<close>

lemma buildFragmented_opens:
  assumes P: "prims_ok P" "\<And>i. rand_ok (rnds i)" "\<And>i n. rnds i n \<noteq> None" and s: "suite_ok s" "icv_len s \<le> 32"
    and k: "length (fst (encryptKeys keys dir)) = encKeyLen s"
    and n: "length inner \<le> maxReassembledBytes" "inner \<noteq> []"
  shows "\<exists>pkts chunks. buildFragmentedMessage P rnds h s keys dir first inner = Ok pkts \<and> concat chunks = inner \<and> [] \<notin> set chunks
    \<and> length pkts = length chunks \<and> length chunks \<le> 64 \<and> (\<forall>p \<in> set pkts. length p \<le> fragmentThreshold)
    \<and> (\<forall>i < length chunks. skf_opens P s keys dir h (of_nat (i + 1)) (of_nat (length chunks)) (if i = 0 then first else 0) (chunks ! i) (pkts ! i))"
proof -
  obtain ek ik where e: "encryptKeys keys dir = (ek, ik)" by (cases "encryptKeys keys dir")
  define blk where "blk = BlockLen (su_Cipher s)"
  define x where "x = (if blk > 1 then blk else 0)"
  define v where "v = IVLen (su_Cipher s) + icv_len s + x"
  have v: "v \<le> 64" using suite_overhead [OF s] unfolding v_def x_def blk_def .
  define room where "room = 1243 - v"
  have fr: "frag_room s = int room" using v by (auto simp: frag_room_def frag_consts room_def v_def x_def blk_def Let_def)
  have room: "1179 \<le> room" "room + v = 1243" using v by (simp_all add: room_def)
  define tot where "tot = (length inner + room - 1) div room"
  note tot = frag_count [OF room(1) n(2,1) tot_def]
  define chunks where "chunks = map (\<lambda>i. take room (drop (i * room) inner)) [0..<tot]"
  have cat: "concat chunks = inner" unfolding chunks_def using frag_chunks_concat [OF tot(3) refl] .
  have lc: "length chunks = tot" by (simp add: chunks_def)
  have ne: "[] \<notin> set chunks"
  proof
    assume "[] \<in> set chunks"
    then obtain i where i: "i < tot" "take room (drop (i * room) inner) = []" by (auto simp: chunks_def)
    have "i * room \<le> (tot - 1) * room" using i(1) by (intro mult_right_mono) auto
    moreover have "length inner \<le> i * room" using i(2) room(1) by simp
    ultimately show False using tot(4) by linarith
  qed
  have body: "36 + sk_body_len s (length (take room (drop (i * room) inner))) \<le> fragmentThreshold" for i
  proof -
    have "ct_len blk (length (take room (drop (i * room) inner))) \<le> length (take room (drop (i * room) inner)) + 1 + x"
      unfolding x_def by (rule ct_len_le)
    moreover have "length (take room (drop (i * room) inner)) \<le> room" by simp
    ultimately show ?thesis using room(2) unfolding sk_body_len_def blk_def [symmetric] v_def fragmentThreshold_def by linarith
  qed
  let ?Q = "\<lambda>i raw. skf_opens P s keys dir h (of_nat (i + 1)) (of_nat tot) (if i = 0 then first else 0) (take room (drop (i * room) inner)) raw"
  have sl: "\<exists>raw. sealSKF P (rnds i) h s ek ik (IVLen (su_Cipher s)) (icv_len s) (BlockLen (su_Cipher s))
      (of_nat (i + 1)) (of_nat tot) (if i = 0 then first else 0) (take room (drop (i * room) inner)) = Ok raw \<and> ?Q i raw" for i
    by (rule skf_roundtrip [OF P(1,2) s(1) _ e sealSK_total [OF s(1)]])
      (use body [of i] k e P(3) in \<open>simp_all add: fragmentThreshold_def\<close>)
  obtain pkts where p: "seal_fragments P rnds h s ek ik room tot first inner [0..<tot] = Ok pkts" "list_all2 ?Q [0..<tot] pkts"
    using seal_fragments_open [of "[0..<tot]" P rnds h s ek ik tot first room inner ?Q] sl by blast
  have q: "length pkts = tot" "\<And>i. i < tot \<Longrightarrow> ?Q i (pkts ! i)" using p(2) by (auto simp: list_all2_conv_all_nth simp del: of_nat_add of_nat_Suc)
  have len: "\<forall>r \<in> set pkts. length r \<le> fragmentThreshold"
  proof
    fix r assume "r \<in> set pkts"
    then obtain i where "i < tot" "r = pkts ! i" using q(1) by (auto simp: in_set_conv_nth)
    then have "length r = 36 + sk_body_len s (length (take room (drop (i * room) inner)))" using q(2) unfolding skf_opens_def by blast
    then show "length r \<le> fragmentThreshold" using body [of i] by (simp only:)
  qed
  have b: "buildFragmentedMessage P rnds h s keys dir first inner = Ok pkts"
    unfolding buildFragmentedMessage_def e fr prod.case Let_def nat_int tot_def [symmetric] using tot(1,2) room(1) p(1) by (simp add: maxFragments_def)
  have "\<forall>i < length chunks. skf_opens P s keys dir h (of_nat (i + 1)) (of_nat (length chunks)) (if i = 0 then first else 0) (chunks ! i) (pkts ! i)"
    unfolding lc using q(2) by (simp add: chunks_def del: of_nat_add of_nat_Suc)
  then show ?thesis using b cat ne q(1) lc tot(2) len by (intro exI [of _ pkts] exI [of _ chunks]) simp
qed

lemma single_delivery:
  assumes "snd ` set ds = {..<1 :: nat}" "snd ` set (butlast ds) \<noteq> {..<1}"
  shows "\<exists>t. ds = [(t, 0)]"
proof (cases ds rule: rev_cases)
  case (snoc xs y)
  have z: "{..<1} = {0 :: nat}" by auto
  have "xs = []"
  proof (rule ccontr)
    assume "xs \<noteq> []"
    moreover have "snd ` set xs \<subseteq> {0}" using assms(1) unfolding z snoc by (metis Un_upper1 image_mono set_append)
    ultimately have "snd ` set xs = {0}" by (cases xs) auto
    then show False using assms(2) unfolding z snoc butlast_snoc by contradiction
  qed
  then show ?thesis using assms(1) unfolding z snoc by (cases y) simp
qed (use assms in simp)

section \<open>Properties\<close>

text \<open>
  C11: a protected message of up to 64 KiB reaches a peer that negotiated fragmentation.  Sealing it cannot fail while random octets can be read;
  it makes at most 64 datagrams, each an IKE message of at most 1280 octets.  If these arrive in any order, each any number of times, the last of
  them within the reassembly time of the first, then nothing is delivered before the last one missing has come, and with it exactly the message and
  the type of its first payload.
\<close>

theorem ike_fragments_delivered:
  assumes "prims_ok P" "\<And>i. rand_ok (rnds i)" "\<And>i n. rnds i n \<noteq> None" "suite_ok (sa_Suite sa)" "icv_len (sa_Suite sa) \<le> 32"
    and "length (fst (encryptKeys (Keys sa) (dirForInbound sa))) = encKeyLen (sa_Suite sa)" "length inner \<le> maxReassembledBytes"
    and "fragEnabled sa" "idle_for (MessageID h) (fragReasm sa)"
  shows "\<exists>pkts. sealMaybeFragment P rnds h (sa_Suite sa) (Keys sa) (dirForInbound sa) first inner True = Ok pkts
    \<and> length pkts \<le> maxFragments \<and> (\<forall>p \<in> set pkts. length p \<le> fragmentThreshold)
    \<and> (\<forall>ds. snd ` set ds = {..<length pkts} \<longrightarrow> snd ` set (butlast ds) \<noteq> {..<length pkts}
         \<longrightarrow> (\<forall>t \<in> fst ` set ds. t - fst (hd ds) \<le> fragReassemblyTTL)
         \<longrightarrow> open_all P (map (\<lambda>(t, i). (t, pkts ! i)) ds) sa = replicate (length ds - 1) None @ [Some (first, inner)])"
proof (cases "wouldExceedThreshold (sa_Suite sa) (length inner)")
  case True
  have "inner \<noteq> []" using True suite_overhead [OF assms(4,5)] by (auto simp: wouldExceedThreshold_def frag_consts Let_def split: if_splits)
  then obtain pkts chunks where p: "buildFragmentedMessage P rnds h (sa_Suite sa) (Keys sa) (dirForInbound sa) first inner = Ok pkts"
    "concat chunks = inner" "[] \<notin> set chunks" "length pkts = length chunks" "length chunks \<le> 64" "\<forall>p \<in> set pkts. length p \<le> fragmentThreshold"
    and o: "\<forall>i < length chunks. skf_opens P (sa_Suite sa) (Keys sa) (dirForInbound sa) h (of_nat (i + 1)) (of_nat (length chunks))
      (if i = 0 then first else 0) (chunks ! i) (pkts ! i)"
    using buildFragmented_opens [where rnds = rnds, OF assms(1-7)] by blast
  have "open_all P (map (\<lambda>(t, i). (t, pkts ! i)) ds) sa = replicate (length ds - 1) None @ [Some (first, inner)]"
    if d: "snd ` set ds = {..<length pkts}" "snd ` set (butlast ds) \<noteq> {..<length pkts}" "\<forall>t \<in> fst ` set ds. t - fst (hd ds) \<le> fragReassemblyTTL" for ds
    unfolding p(2) [symmetric]
  proof (rule open_all_fragments [OF p(5,3) _ p(4), where S = "{}" and ?t0.0 = "fst (hd ds)"])
    show "collecting (MessageID h) chunks first (fst (hd ds)) {} (frag_start (fst (hd ds)) (MessageID h) (of_nat (length chunks)) (fragReasm sa))"
      using frag_start_idle [OF assms(9) p(5)] .
  qed (use d o assms(7,8) p(2,4) in \<open>auto simp del: of_nat_add of_nat_Suc\<close>)
  then show ?thesis using True p(1,4,5,6) by (intro exI [of _ pkts]) (simp add: sealMaybeFragment_def maxFragments_def)
next
  case False
  let ?s = "sa_Suite sa"
  obtain raw where raw: "buildEncryptedMessage P (rnds 0) h ?s (Keys sa) (dirForInbound sa) first inner = Ok raw"
    using buildEncryptedMessage_total [where rnd = "rnds 0", OF assms(1,2,4,6,3)] by blast
  have l: "32 + sk_body_len ?s (length inner) \<le> fragmentThreshold"
    using False ct_len_le [of "BlockLen (su_Cipher ?s)" "length inner"]
    by (auto simp: wouldExceedThreshold_def sk_body_len_def frag_consts Let_def split: if_splits)
  then have "4 + sk_body_len ?s (length inner) < 65536" by (simp add: fragmentThreshold_def)
  from sk_message_roundtrip [OF assms(1,2,4) this raw] obtain m sk where m: "ParseMessage raw = Ok m" "Find TypeSKF m = None"
    "Find TypeSK m = Some sk" "decryptSK P raw sk ?s (Keys sa) (dirForInbound sa) = Ok (first, inner)" "length raw = 32 + sk_body_len ?s (length inner)"
    by blast
  have one: "open_all P [(t, raw)] sa = [Some (first, inner)]" for t
    using m ParseMessage_header [OF m(1)] by (simp add: open_secured_def)
  have "open_all P (map (\<lambda>(t, i). (t, [raw] ! i)) ds) sa = replicate (length ds - 1) None @ [Some (first, inner)]"
    if d: "snd ` set ds = {..<1}" "snd ` set (butlast ds) \<noteq> {..<1}" for ds
  proof -
    obtain t where t: "ds = [(t, 0)]" using single_delivery [OF d] by (rule exE)
    show ?thesis unfolding t using one [of t] by (simp del: open_all.simps)
  qed
  then show ?thesis using False raw l m(5) by (intro exI [of _ "[raw]"]) (simp add: sealMaybeFragment_def maxFragments_def)
qed

definition example_sa :: IKESA where
  "example_sa = \<lparr>sa_InitiatorSPI = 5, sa_ResponderSPI = 6, WeAreInitiator = False, State = StateSAInitDone, sa_Suite = example_suite,
     Keys = \<lparr>SKd = [], SKai = [], SKar = [], SKei = replicate 36 7, SKer = replicate 36 8, SKpi = [], SKpr = []\<rparr>, RecvMsgID = 1,
     RemoteAddr = None, OnPort4500 = False, fragEnabled = True,
     fragReasm = \<lparr>fr_msgID = 0, fr_total = 0, fr_parts = None, fr_got = 0, fr_bytes = 0, fr_first = 0, fr_started = 0\<rparr>, lastSeen = 0\<rparr>"

definition example_rand :: rand where
  "example_rand n = Some (replicate n 3)"

lemma example_suite_ok: "suite_ok example_suite" "icv_len example_suite = 16" "encKeyLen example_suite = 36"
  by (simp_all add: suite_ok_def example_suite_def aes_len_def icv_len_def encKeyLen_def)

lemma example_rand_ok: "rand_ok example_rand" "example_rand n \<noteq> None"
  by (simp_all add: rand_ok_def example_rand_def)

lemma example_sa_ok:
  "sa_Suite example_sa = example_suite" "length (fst (encryptKeys (Keys example_sa) (dirForInbound example_sa))) = 36"
  "fragEnabled example_sa" "idle_for m (fragReasm example_sa)"
  by (simp_all add: example_sa_def dirForInbound_def idle_for_def)

lemma ike_fragments_delivered_witness:
  "\<exists>pkts. sealMaybeFragment example_prims (\<lambda>_. example_rand) example_header example_suite (Keys example_sa) (dirForInbound example_sa) 35 (replicate 3000 1) True = Ok pkts
     \<and> (\<forall>p \<in> set pkts. length p \<le> fragmentThreshold)"
  using ike_fragments_delivered [of example_prims "\<lambda>_. example_rand" example_sa "replicate 3000 1" example_header 35, unfolded example_sa_ok(1)]
    example_prims_ok example_rand_ok example_suite_ok example_sa_ok by (auto simp: maxReassembledBytes_def)

text \<open>A datagram is authentic for an SA when a body of its parse opens over exactly the octets before it.\<close>

definition sk_authentic :: "prims \<Rightarrow> IKESA \<Rightarrow> bytes \<Rightarrow> bool" where
  "sk_authentic P sa pkt \<longleftrightarrow> (\<exists>m p body padded. ParseMessage pkt = Ok m \<and> p \<in> set (Payloads m)
     \<and> (Type p = TypeSK \<and> body = Body p \<or> Type p = TypeSKF \<and> fragEnabled sa \<and> body = drop skfPrefixLen (Body p))
     \<and> openSK P (sa_Suite sa) (fst (encryptKeys (Keys sa) (dirForInbound sa))) (snd (encryptKeys (Keys sa) (dirForInbound sa)))
         (take (length pkt - length body) pkt) body = Ok padded)"

definition same_sa :: "IKESA \<Rightarrow> IKESA \<Rightarrow> bool" where
  "same_sa sa sa' \<longleftrightarrow> State sa' = State sa \<and> Keys sa' = Keys sa \<and> sa_Suite sa' = sa_Suite sa \<and> RecvMsgID sa' = RecvMsgID sa
     \<and> sa_InitiatorSPI sa' = sa_InitiatorSPI sa \<and> sa_ResponderSPI sa' = sa_ResponderSPI sa \<and> WeAreInitiator sa' = WeAreInitiator sa
     \<and> fragEnabled sa' = fragEnabled sa"

lemma Find_in: "Find t m = Some p \<Longrightarrow> p \<in> set (Payloads m) \<and> Type p = t"
  by (auto simp: Find_def find_Some_iff)

lemma decryptSK_authentic:
  assumes "ParseMessage pkt = Ok m" "Find TypeSK m = Some p" "decryptSK P pkt p (sa_Suite sa) (Keys sa) (dirForInbound sa) = Ok r"
  shows "sk_authentic P sa pkt"
proof -
  have n: "nat (int a - int b) = a - b" for a b by simp
  obtain padded where "openSK P (sa_Suite sa) (fst (encryptKeys (Keys sa) (dirForInbound sa))) (snd (encryptKeys (Keys sa) (dirForInbound sa)))
      (take (length pkt - length (Body p)) pkt) (Body p) = Ok padded"
    using assms(3) unfolding decryptSK_def Let_def n by (auto split: prod.splits if_splits sum.splits)
  then show ?thesis using assms(1) Find_in [OF assms(2)] unfolding sk_authentic_def by blast
qed

lemma decryptSKF_authentic:
  assumes "ParseMessage pkt = Ok m" "Find TypeSKF m = Some p" "fragEnabled sa"
    and "decryptSKF P pkt p (sa_Suite sa) (Keys sa) (dirForInbound sa) = Ok r"
  shows "sk_authentic P sa pkt"
proof -
  let ?b = "drop skfPrefixLen (Body p)"
  have n: "nat (int a - int b) = a - b" for a b by simp
  obtain padded where "openSK P (sa_Suite sa) (fst (encryptKeys (Keys sa) (dirForInbound sa))) (snd (encryptKeys (Keys sa) (dirForInbound sa)))
      (take (length pkt - length ?b) pkt) ?b = Ok padded"
    using assms(4) unfolding decryptSKF_def Let_def n by (auto split: prod.splits if_splits sum.splits)
  then show ?thesis using assms(1,3) Find_in [OF assms(2)] unfolding sk_authentic_def by blast
qed

lemma open_secured_inert:
  assumes "\<not> sk_authentic P sa pkt"
  shows "open_secured P now pkt hdr sa = (None, sa)"
proof (cases "ParseMessage pkt")
  case (Inr m)
  show ?thesis
  proof (cases "Find TypeSKF m")
    case None
    then show ?thesis using Inr decryptSK_authentic [OF Inr, of _ P sa] assms
      by (auto simp: open_secured_def split: option.splits sum.splits)
  next
    case (Some p)
    then show ?thesis using Inr decryptSKF_authentic [OF Inr Some, of sa P] assms
      by (auto simp: open_secured_def split: sum.splits)
  qed
qed (simp add: open_secured_def)

lemma open_secured_same: "same_sa sa (snd (open_secured P now pkt hdr sa))"
  by (auto simp: open_secured_def same_sa_def Let_def split: sum.splits option.splits prod.splits)

lemma same_saD: "same_sa sa sa' \<Longrightarrow> State sa' = State sa"
  by (simp add: same_sa_def)

lemma same_sa_touched: "same_sa sa sa' \<Longrightarrow> same_sa sa (touch now sa')" "same_sa sa sa' \<Longrightarrow> same_sa sa (sa'\<lparr>OnPort4500 := b\<rparr>)"
    "same_sa sa sa' \<Longrightarrow> same_sa sa (sa'\<lparr>RemoteAddr := r\<rparr>)"
  by (simp_all add: same_sa_def touch_def)

lemma dispatch_of_Some: "exchangeAllowed st ex \<Longrightarrow> dispatch_of ex hdr inners remote \<noteq> None"
  by (auto simp: exchangeAllowed_def dispatch_of_def split: if_splits)

lemma handleSecured_cases:
  assumes "handleSecured P now pkt hdr remote ex on4500 sas = (act, sas')" "sas (ResponderSPI hdr) = Some sa"
  shows "(\<exists>sa'. sas' = sas(ResponderSPI hdr \<mapsto> sa') \<and> same_sa sa sa')
    \<and> (act \<noteq> None \<longrightarrow> \<not> IsResponse hdr \<and> MessageID hdr = RecvMsgID sa \<and> exchangeAllowed (State sa) ex)"
proof -
  have triv: "\<exists>sa'. sas = sas(ResponderSPI hdr \<mapsto> sa') \<and> same_sa sa sa'"
    using assms(2) by (intro exI [of _ sa]) (auto simp: same_sa_def fun_upd_idem)
  show ?thesis
  proof (cases "IsResponse hdr \<or> MessageID hdr \<noteq> RecvMsgID sa")
    case True
    then have "handleSecured P now pkt hdr remote ex on4500 sas = (None, sas)" using assms(2) by (auto simp: handleSecured_def)
    then have "act = None" "sas' = sas" using assms(1) by simp_all
    then show ?thesis using triv by simp
  next
    case False
    obtain res sa1 where o: "open_secured P now pkt hdr sa = (res, sa1)" by fastforce
    have s1: "same_sa sa sa1" using open_secured_same [of sa P now pkt hdr] o by simp
    define sa2 where "sa2 = (if on4500 \<and> \<not> OnPort4500 (touch now sa1) then (touch now sa1)\<lparr>OnPort4500 := True\<rparr> else touch now sa1)\<lparr>RemoteAddr := Some remote\<rparr>"
    have s2: "same_sa sa sa2" unfolding sa2_def by (auto intro!: same_sa_touched s1)
    show ?thesis
    proof (cases res)
      case None
      then show ?thesis using assms False o s1 by (auto simp: handleSecured_def)
    next
      case (Some fi)
      obtain f i where fi: "fi = (f, i)" by fastforce
      have h: "handleSecured P now pkt hdr remote ex on4500 sas = (case parseInnerPayloads f i of Err _ \<Rightarrow> (None, sas(ResponderSPI hdr \<mapsto> sa2))
         | Ok inners \<Rightarrow> if \<not> exchangeAllowed (State sa2) ex then (None, sas(ResponderSPI hdr \<mapsto> sa2))
             else (dispatch_of ex hdr inners remote, sas(ResponderSPI hdr \<mapsto> sa2)))"
        unfolding handleSecured_def Let_def sa2_def using assms(2) False o Some fi by simp
      show ?thesis using assms(1) s2 same_saD [OF s2] False unfolding h by (auto split: sum.splits if_splits)
    qed
  qed
qed



text \<open>So many copies of one empty fragment have come, and nothing is held.\<close>

definition only_empties :: "int \<Rightarrow> u32 \<Rightarrow> nat \<Rightarrow> nat \<Rightarrow> fragReassembler \<Rightarrow> bool" where
  "only_empties now mid n k r \<longleftrightarrow> (let r' = frag_start now mid (of_nat n) r in
     fr_msgID r' = mid \<and> fr_total r' = of_nat n \<and> fr_parts r' = Some (replicate n None) \<and> fr_got r' = k \<and> fr_bytes r' = 0 \<and> fr_started r' = now)"

lemma only_empties_idle: "idle_for mid r \<Longrightarrow> n \<le> 64 \<Longrightarrow> only_empties now mid n 0 r"
  using unat_of_nat_small [of n, where 'a = 16] by (auto simp: only_empties_def idle_for_def frag_start_def Let_def)

lemma frag_add_empty:
  assumes "n \<le> 64" "i < n" "only_empties now mid n k r"
  shows "\<exists>r2. fr_msgID r2 = mid \<and> fr_total r2 = of_nat n \<and> fr_parts r2 = Some (replicate n None) \<and> fr_got r2 = Suc k \<and> fr_bytes r2 = 0 \<and> fr_started r2 = now
    \<and> frag_add now mid (of_nat (i + 1)) (of_nat n) f [] r = (if Suc k < n then (Ok None, r2) else (Ok (Some ([], fr_first r2)), frag_reset r2))"
proof -
  define fn tot :: u16 where "fn = of_nat (i + 1)" and "tot = of_nat n"
  note x = frag_index [OF assms(1,2), folded fn_def tot_def]
  define r1 where "r1 = frag_start now mid tot r"
  have r1: "fr_msgID r1 = mid" "fr_total r1 = tot" "fr_parts r1 = Some (replicate n None)" "fr_got r1 = k" "fr_bytes r1 = 0" "fr_started r1 = now"
    using assms(3) by (simp_all add: only_empties_def r1_def tot_def Let_def)
  define r2 where "r2 = (if fn = 1 then r1\<lparr>fr_got := Suc k, fr_first := f\<rparr> else r1\<lparr>fr_got := Suc k\<rparr>)"
  have cat: "concat (map (\<lambda>p. case p of None \<Rightarrow> [] | Some b \<Rightarrow> b) (replicate n None)) = []" by (induction n) simp_all
  have up: "(replicate n None)[i := None] = replicate n None" using assms(2) by (simp add: list_update_same_conv)
  have r2': "(let q = r1\<lparr>fr_parts := Some (replicate n None), fr_got := Suc k, fr_bytes := 0\<rparr> in if fn = 1 then q\<lparr>fr_first := f\<rparr> else q) = r2"
    using r1 by (cases r1) (simp add: r2_def Let_def)
  have g: "tot \<noteq> 0" "\<not> unat tot > maxFragments" "fn \<noteq> 0" "\<not> fn > tot" using x assms(1) unfolding maxFragments_def by (simp_all only: not_less not_False_eq_True)
  have "fr_got r2 = Suc k" "unat (fr_total r2) = n" "unat (fr_total r1) = n" using r1(2) x(2) by (simp_all add: r2_def)
  then have "frag_add now mid fn tot f [] r = (if Suc k < n then (Ok None, r2) else (Ok (Some ([], fr_first r2)), frag_reset r2))"
    unfolding frag_add_def r1_def [symmetric] x(5) Let_def r1 option.sel
    using g assms(2) r2' by (cases "fn = 1") (simp_all add: up maxReassembledBytes_def cat Let_def)
  then show ?thesis using r1 unfolding fn_def tot_def by (intro exI [of _ r2]) (simp add: r2_def)
qed

lemma only_empties_step:
  assumes "n \<le> 64" "i < n" "only_empties now mid n k r" "Suc k < n"
  shows "only_empties now mid n (Suc k) (snd (frag_add now mid (of_nat (i + 1)) (of_nat n) f [] r))"
proof -
  obtain r2 where r2: "fr_msgID r2 = mid" "fr_total r2 = of_nat n" "fr_parts r2 = Some (replicate n None)" "fr_got r2 = Suc k" "fr_bytes r2 = 0" "fr_started r2 = now"
    "frag_add now mid (of_nat (i + 1)) (of_nat n) f [] r = (Ok None, r2)" using frag_add_empty [OF assms(1-3), of f] assms(4) by auto
  have "frag_start now mid (of_nat n) r2 = r2" using r2 by (simp add: frag_start_def fragReassemblyTTL_def)
  then show ?thesis using r2 unfolding only_empties_def r2(7) by simp
qed

lemma only_empties_last:
  assumes "n \<le> 64" "i < n" "only_empties now mid n (n - 1) r"
  shows "\<exists>first. fst (frag_add now mid (of_nat (i + 1)) (of_nat n) f [] r) = Ok (Some ([], first))"
  using frag_add_empty [OF assms, of f] assms(2) by auto

text \<open>
  C37: the same empty fragment counts again each time it comes.  A fragment whose plaintext is empty is stored as if it had not arrived, so
  a reassembler of an \<open>n\<close>-fragment message, for any \<open>n\<close> up to the limit, reports the message complete, and empty, after \<open>n\<close> copies of
  one such fragment, although the others never came.
\<close>

theorem empty_fragments_complete:
  assumes "idle_for mid r" "1 < n" "n \<le> maxFragments" "i < n"
  shows "\<exists>first. fst (frag_add now mid (of_nat (i + 1)) (of_nat n) f []
      (((\<lambda>r. snd (frag_add now mid (of_nat (i + 1)) (of_nat n) f [] r)) ^^ (n - 1)) r)) = Ok (Some ([], first))"
proof -
  have n: "n \<le> 64" using assms(3) by (simp add: maxFragments_def)
  have "k < n \<Longrightarrow> only_empties now mid n k (((\<lambda>r. snd (frag_add now mid (of_nat (i + 1)) (of_nat n) f [] r)) ^^ k) r)" for k
  proof (induction k)
    case 0
    show ?case using only_empties_idle [OF assms(1) n] by simp
  next
    case (Suc k)
    then show ?case using only_empties_step [OF n assms(4), of now mid k] by (simp del: of_nat_add of_nat_Suc)
  qed
  then show ?thesis using only_empties_last [OF n assms(4)] assms(2) by simp
qed

lemma empty_fragments_complete_witness:
  "\<exists>first. fst (frag_add 0 7 (of_nat (1 + 1)) (of_nat 3) 0 []
     (((\<lambda>r. snd (frag_add 0 7 (of_nat (1 + 1)) (of_nat 3) 0 [] r)) ^^ (3 - 1)) (fragReasm example_sa))) = Ok (Some ([], first))"
  by (rule empty_fragments_complete) (simp_all add: example_sa_ok maxFragments_def)

end
