(* ===== verification/Ovpn_Wire.thy ===== *)
theory Ovpn_Wire
  imports Prelude
begin

text \<open>
  The control-channel packet codec of OpenVPN, \<^verbatim>\<open>internal/openvpn/wire/wire.go\<close>: the leading
  opcode octet, the encoder and the parser.  An array \<^verbatim>\<open>[8]byte\<close> is an octet string of
  length eight.  The encoder writes its fields one after the other into a buffer of exactly
  \<^verbatim>\<open>MarshalLen\<close> octets, so its result is their concatenation.
\<close>

abbreviation PControlSoftResetV1 :: byte where "PControlSoftResetV1 \<equiv> 3"
abbreviation PControlV1 :: byte where "PControlV1 \<equiv> 4"
abbreviation PACKV1 :: byte where "PACKV1 \<equiv> 5"
abbreviation PDataV1 :: byte where "PDataV1 \<equiv> 6"
abbreviation PControlHardResetClientV2 :: byte where "PControlHardResetClientV2 \<equiv> 7"
abbreviation PControlHardResetServerV2 :: byte where "PControlHardResetServerV2 \<equiv> 8"
abbreviation PDataV2 :: byte where "PDataV2 \<equiv> 9"
abbreviation PControlHardResetClientV3 :: byte where "PControlHardResetClientV3 \<equiv> 10"
abbreviation PControlWKCV1 :: byte where "PControlWKCV1 \<equiv> 11"

definition SessionIDLen :: nat where "SessionIDLen = 8"
definition PacketIDLen :: nat where "PacketIDLen = 4"
definition maxACKs :: nat where "maxACKs = 255"

lemmas ovpn_lens = SessionIDLen_def PacketIDLen_def maxACKs_def

datatype ovpn_wire_error = ErrMalformed | ErrShort

definition Opcode_of :: "bytes \<Rightarrow> (byte \<times> byte) option" where
  "Opcode_of pkt = (if length pkt = 0 then None else Some (drop_bit 3 (pkt ! 0), pkt ! 0 AND 0x07))"

definition firstByte :: "byte \<Rightarrow> byte \<Rightarrow> byte" where
  "firstByte opcode keyID = push_bit 3 opcode OR (keyID AND 0x07)"

definition IsControl :: "byte \<Rightarrow> bool" where
  "IsControl opcode \<longleftrightarrow> opcode \<in> {PControlSoftResetV1, PControlV1, PACKV1, PControlHardResetClientV2,
     PControlHardResetServerV2, PControlHardResetClientV3, PControlWKCV1}"

record ControlPacket =
  Opcode :: byte
  KeyID :: byte
  SessionID :: bytes
  ACKs :: "u32 list"
  RemoteSessionID :: bytes
  PacketID :: u32
  Payload :: bytes

definition hasMessageBody :: "ControlPacket \<Rightarrow> bool" where
  "hasMessageBody p \<longleftrightarrow> Opcode p \<noteq> PACKV1"

definition MarshalLen :: "ControlPacket \<Rightarrow> nat" where
  "MarshalLen p = 1 + SessionIDLen + 1 + length (ACKs p) * PacketIDLen
     + (if length (ACKs p) > 0 then SessionIDLen else 0)
     + (if hasMessageBody p then PacketIDLen + length (Payload p) else 0)"

definition Marshal :: "ControlPacket \<Rightarrow> bytes \<Rightarrow> ovpn_wire_error + bytes" where
  "Marshal p dst =
     (if length (ACKs p) > maxACKs then Err ErrMalformed
      else if length dst < MarshalLen p then Err ErrShort
      else Ok ([firstByte (Opcode p) (KeyID p)] @ SessionID p @ [of_nat (length (ACKs p))] @ concat (map be32 (ACKs p))
        @ (if length (ACKs p) > 0 then RemoteSessionID p else [])
        @ (if hasMessageBody p then be32 (PacketID p) @ Payload p else [])))"

fun read_acks :: "nat \<Rightarrow> nat \<Rightarrow> bytes \<Rightarrow> u32 list" where
  "read_acks 0 off pkt = []"
| "read_acks (Suc n) off pkt = get32 off pkt # read_acks n (off + PacketIDLen) pkt"

definition ParseControl :: "bytes \<Rightarrow> ovpn_wire_error + ControlPacket" where
  "ParseControl pkt = (case Opcode_of pkt of
     None \<Rightarrow> Err ErrMalformed
   | Some (opcode, keyID) \<Rightarrow>
       if \<not> IsControl opcode then Err ErrMalformed
       else if length pkt < 1 + SessionIDLen + 1 then Err ErrMalformed
       else let sid = slice 1 (1 + SessionIDLen) pkt;
                ackLen = unat (pkt ! (1 + SessionIDLen));
                off = 1 + SessionIDLen + 1;
                need = ackLen * PacketIDLen + (if ackLen > 0 then SessionIDLen else 0)
            in if length pkt < off + need then Err ErrMalformed
               else let p = \<lparr>Opcode = opcode, KeyID = keyID, SessionID = sid, ACKs = read_acks ackLen off pkt,
                             RemoteSessionID = (if ackLen > 0 then slice (off + ackLen * PacketIDLen) (off + need) pkt
                                                else replicate SessionIDLen 0),
                             PacketID = 0, Payload = []\<rparr>;
                        off' = off + need
                    in if \<not> hasMessageBody p then Ok p
                       else if length pkt < off' + PacketIDLen then Err ErrMalformed
                       else Ok (p\<lparr>PacketID := get32 off' pkt, Payload := drop (off' + PacketIDLen) pkt\<rparr>))"

section \<open>The leading octet\<close>

lemma bit_below: "x < 2 ^ n \<Longrightarrow> bit (x :: 'a::len word) m \<Longrightarrow> m < n"
proof (rule ccontr)
  assume x: "x < 2 ^ n" and b: "bit x m" and n: "\<not> m < n"
  have m: "m < LENGTH('a)" using b by (rule bit_imp_le_length)
  then have "unat (2 ^ n :: 'a word) = 2 ^ n" using unat_of_nat_small [of "2 ^ n", where ?'a = 'a] n by simp
  then have "unat x < 2 ^ n" using x by (simp add: word_less_nat_alt)
  then have "take_bit n (unat x) = unat x" by (simp add: take_bit_nat_eq_self_iff)
  then have "take_bit n x = x" by (metis unsigned_take_bit_eq word_unat_eq_iff)
  then show False using b n by (metis bit_take_bit_iff)
qed

lemma firstByte_opcode:
  assumes "opcode < 32" and "keyID < 8"
  shows "drop_bit 3 (firstByte opcode keyID) = opcode" "firstByte opcode keyID AND 7 = keyID"
proof -
  have m: "(7::byte) = mask 3" by (simp add: mask_eq_decr_exp)
  have o5: "bit opcode n \<Longrightarrow> n < 5" and k: "bit keyID n \<Longrightarrow> n < 3" for n
    using bit_below [of opcode 5 n] bit_below [of keyID 3 n] assms by simp_all
  show "drop_bit 3 (firstByte opcode keyID) = opcode"
    unfolding firstByte_def m by (rule bit_word_eqI) (auto simp: bit_simps dest: o5 k)
  show "firstByte opcode keyID AND 7 = keyID"
    unfolding firstByte_def m by (rule bit_word_eqI) (auto simp: bit_simps dest: o5 k)
qed

lemma firstByte_split: "firstByte (drop_bit 3 b) (b AND 7) = b"
proof -
  have m: "(7::byte) = mask 3" by (simp add: mask_eq_decr_exp)
  show ?thesis unfolding firstByte_def m by (rule bit_word_eqI) (auto simp: bit_simps)
qed

lemma IsControl_lt: "IsControl opcode \<Longrightarrow> opcode < 32"
  by (auto simp: IsControl_def)

lemma and_7_lt: "(b :: byte) AND 7 < 8"
proof -
  have "unat (b AND 7) = unat b mod 2 ^ 3" by (rule unat_and_low) (simp add: mask_eq_decr_exp)
  then show ?thesis by (simp add: word_less_nat_alt)
qed

section \<open>The array of acknowledgements\<close>

lemma length_read_acks [simp]: "length (read_acks n off pkt) = n"
  by (induction n arbitrary: off) auto

lemma read_acks_Nil [simp]: "read_acks n off pkt = [] \<longleftrightarrow> n = 0"
  by (cases n) auto

lemma length_acks [simp]: "length (concat (map be32 xs)) = length xs * 4"
  by (induction xs) auto

lemma read_acks_shift: "read_acks n (length pre + off) (pre @ rest) = read_acks n off rest"
proof (induction n arbitrary: off)
  case (Suc n)
  have "get32 (length pre + off) (pre @ rest) = get32 off rest" by (simp add: get32_append(1))
  then show ?case using Suc.IH [of "off + 4"] by (simp add: ovpn_lens add.assoc)
qed simp

lemma read_acks_written: "read_acks (length xs) 0 (concat (map be32 xs) @ rest) = xs"
proof (induction xs)
  case (Cons x xs)
  then show ?case using read_acks_shift [of "length xs" "be32 x" 0 "concat (map be32 xs) @ rest"] by (simp add: ovpn_lens)
qed simp

lemma written_read_acks:
  "off + n * 4 \<le> length pkt \<Longrightarrow> concat (map be32 (read_acks n off pkt)) = slice off (off + n * 4) pkt"
proof (induction n arbitrary: off)
  case (Suc n)
  have "be32 (get32 off pkt) = slice off (off + 4) pkt" using Suc.prems by (intro be32_get32) simp
  moreover have "concat (map be32 (read_acks n (off + 4) pkt)) = slice (off + 4) (off + 4 + n * 4) pkt"
    using Suc.prems by (intro Suc.IH) simp
  ultimately show ?case using slice_split [of off "off + 4" "off + 4 + n * 4" pkt] by (simp add: ovpn_lens add.assoc)
qed (simp add: slice_def)

section \<open>The codec\<close>

text \<open>
  The packets the parser can return: fixed-size fields have their size, and what the wire does not
  carry has its zero value.
\<close>

definition packet_wf :: "ControlPacket \<Rightarrow> bool" where
  "packet_wf p \<longleftrightarrow> IsControl (Opcode p) \<and> KeyID p < 8 \<and> length (SessionID p) = 8 \<and> length (RemoteSessionID p) = 8
     \<and> length (ACKs p) \<le> 255 \<and> (ACKs p = [] \<longrightarrow> RemoteSessionID p = replicate 8 0)
     \<and> (Opcode p = PACKV1 \<longrightarrow> PacketID p = 0 \<and> Payload p = [])"

definition encoded :: "ControlPacket \<Rightarrow> bytes" where
  "encoded p = [firstByte (Opcode p) (KeyID p)] @ SessionID p @ [of_nat (length (ACKs p))] @ concat (map be32 (ACKs p))
        @ (if length (ACKs p) > 0 then RemoteSessionID p else [])
        @ (if hasMessageBody p then be32 (PacketID p) @ Payload p else [])"

lemma length_encoded:
  "length (SessionID p) = 8 \<Longrightarrow> length (RemoteSessionID p) = 8 \<Longrightarrow> length (encoded p) = MarshalLen p"
  by (simp add: encoded_def MarshalLen_def ovpn_lens)

lemma Marshal_encoded:
  "length (ACKs p) \<le> 255 \<Longrightarrow> MarshalLen p \<le> length dst \<Longrightarrow> Marshal p dst = Ok (encoded p)"
  by (simp add: Marshal_def encoded_def maxACKs_def)

text \<open>The parser past the ten octets of the fixed header.\<close>

lemma ParseControl_shape:
  assumes "length pre = 10" and k: "k = unat (pre ! 9)" and need: "need = k * 4 + (if k > 0 then 8 else 0)"
  shows "ParseControl (pre @ rest) =
    (if \<not> IsControl (drop_bit 3 (pre ! 0)) \<or> length rest < need then Err ErrMalformed
     else let p = \<lparr>Opcode = drop_bit 3 (pre ! 0), KeyID = pre ! 0 AND 7, SessionID = slice 1 9 pre, ACKs = read_acks k 0 rest,
                   RemoteSessionID = (if k > 0 then slice (k * 4) need rest else replicate 8 0), PacketID = 0, Payload = []\<rparr>
          in if \<not> hasMessageBody p then Ok p
             else if length rest < need + 4 then Err ErrMalformed
             else Ok (p\<lparr>PacketID := get32 need rest, Payload := drop (need + 4) rest\<rparr>))"
proof -
  have "Opcode_of (pre @ rest) = Some (drop_bit 3 (pre ! 0), pre ! 0 AND 7)"
    using assms(1) by (auto simp: Opcode_of_def nth_append)
  moreover have "slice 1 9 (pre @ rest) = slice 1 9 pre" using assms(1) by (intro slice_append_left) simp
  moreover have "read_acks k 10 (pre @ rest) = read_acks k 0 rest" using read_acks_shift [of k pre 0 rest] assms(1) by simp
  moreover have "slice (10 + k * 4) (18 + k * 4) (pre @ rest) = slice (k * 4) (8 + k * 4) rest"
    using assms(1) by (simp add: slice_def)
  moreover have "get32 (10 + i) (pre @ rest) = get32 i rest" for i
    using get32_append(1) [of pre "10 + i" rest] assms(1) by simp
  note this [of 0] this [of "8 + k * 4"]
  moreover have "(pre @ rest) ! 9 = pre ! 9" using assms(1) by (simp add: nth_append)
  ultimately show ?thesis
    using assms(1) by (cases "k > 0") (simp_all add: ParseControl_def ovpn_lens Let_def k [symmetric] need add.commute)
qed

lemma Parse_encoded:
  assumes "packet_wf p" and "hasMessageBody p \<longrightarrow> junk = []"
  shows "ParseControl (encoded p @ junk) = Ok p"
proof -
  let ?pre = "firstByte (Opcode p) (KeyID p) # SessionID p @ [of_nat (length (ACKs p))]"
  define acks where "acks = concat (map be32 (ACKs p))"
  define rem where "rem = (if length (ACKs p) > 0 then RemoteSessionID p else [])"
  define body where "body = (if hasMessageBody p then be32 (PacketID p) @ Payload p else []) @ junk"
  have w: "IsControl (Opcode p)" "KeyID p < 8" "length (SessionID p) = 8" "length (RemoteSessionID p) = 8"
    "length (ACKs p) \<le> 255" "ACKs p = [] \<longrightarrow> RemoteSessionID p = replicate 8 0" "\<not> hasMessageBody p \<longrightarrow> PacketID p = 0 \<and> Payload p = []"
    using assms(1) by (auto simp: packet_wf_def hasMessageBody_def)
  have e: "encoded p @ junk = ?pre @ acks @ rem @ body" by (simp add: encoded_def acks_def rem_def body_def)
  have l: "length acks = length (ACKs p) * 4" "length rem = (if length (ACKs p) > 0 then 8 else 0)" "length ?pre = 10"
    using w by (simp_all add: acks_def rem_def)
  have n: "unat (?pre ! 9) = length (ACKs p)" using w(3,5) by (simp add: nth_append unat_of_nat_small)
  have s: "slice 1 9 ?pre = SessionID p" using w(3) by (simp add: slice_def)
  have a: "read_acks (length (ACKs p)) 0 (acks @ rem @ body) = ACKs p" unfolding acks_def by (rule read_acks_written)
  have r: "slice (length acks) (length acks + length rem) (acks @ rem @ body) = rem" by (simp add: slice_def)
  have g: "get32 (length acks + length rem) (acks @ rem @ body) = get32 0 body"
    using get32_append(1) [of "acks @ rem" "length acks + length rem" body] by simp
  have d: "drop (length acks + length rem + 4) (acks @ rem @ body) = drop 4 body" by simp
  let ?p = "\<lparr>Opcode = Opcode p, KeyID = KeyID p, SessionID = SessionID p, ACKs = ACKs p,
    RemoteSessionID = RemoteSessionID p, PacketID = 0, Payload = []\<rparr>"
  have b: "hasMessageBody ?p = hasMessageBody p" by (simp add: hasMessageBody_def)
  have rem: "(if length (ACKs p) > 0 then rem else replicate 8 0) = RemoteSessionID p" using w(6) by (simp add: rem_def)
  have need: "length acks + length rem = length (ACKs p) * 4 + (if length (ACKs p) > 0 then 8 else 0)" using l by simp
  have "ParseControl (?pre @ acks @ rem @ body) = (if \<not> hasMessageBody p then Ok ?p else if length body < 4 then Err ErrMalformed
      else Ok (?p\<lparr>PacketID := get32 0 body, Payload := drop 4 body\<rparr>))"
    unfolding ParseControl_shape [OF l(3) n [symmetric] need] s a
    using w(1) firstByte_opcode [OF IsControl_lt [OF w(1)] w(2)] rem r [unfolded l(1)] l(1) g d b
    by (cases "ACKs p = []") (simp_all add: Let_def)
  also have "\<dots> = Ok p" using w(7) assms(2) by (auto simp: body_def)
  finally show ?thesis unfolding e .
qed

lemma Parse_only_encoded:
  assumes "ParseControl pkt = Ok p"
  shows "packet_wf p \<and> (\<exists>junk. pkt = encoded p @ junk \<and> (hasMessageBody p \<longrightarrow> junk = []))"
proof -
  have "10 \<le> length pkt" using assms by (auto simp: ParseControl_def ovpn_lens split: option.splits if_splits prod.splits)
  then obtain pre rest where pkt: "pkt = pre @ rest" "length pre = 10" by (metis append_take_drop_id length_take min.absorb2)
  define k where "k = unat (pre ! 9)"
  define need where "need = k * 4 + (if k > 0 then 8 else 0)"
  note P = assms [unfolded pkt(1) ParseControl_shape [OF pkt(2) k_def need_def]]
  have c: "IsControl (drop_bit 3 (pre ! 0))" "need \<le> length rest" using P by (auto split: if_splits)
  define q where "q = \<lparr>Opcode = drop_bit 3 (pre ! 0), KeyID = pre ! 0 AND 7, SessionID = slice 1 9 pre, ACKs = read_acks k 0 rest,
                   RemoteSessionID = (if k > 0 then slice (k * 4) need rest else replicate 8 0), PacketID = 0, Payload = []\<rparr>"
  have p: "if \<not> hasMessageBody q then p = q else need + 4 \<le> length rest \<and> p = q\<lparr>PacketID := get32 need rest, Payload := drop (need + 4) rest\<rparr>"
    using P [folded q_def] c unfolding Let_def by (simp split: if_splits)
  have hb: "hasMessageBody p = hasMessageBody q" using p by (auto simp: hasMessageBody_def split: if_splits)
  have wf: "packet_wf p"
    using p c and_7_lt [of "pre ! 0"] pkt(2) unat_byte_le [of "pre ! 9"]
    by (auto simp: packet_wf_def q_def hasMessageBody_def need_def k_def split: if_splits)
  have f: "[firstByte (Opcode p) (KeyID p)] @ SessionID p @ [of_nat (length (ACKs p))] = pre"
  proof -
    have "pre = pre ! 0 # slice 1 9 pre @ [pre ! 9]"
    proof (rule nth_equalityI)
      fix i assume i: "i < length pre"
      then consider "i = 0" | j where "i = Suc j" "j < 8" | "i = 9" using pkt(2) by (cases i) force+
      then show "pre ! i = (pre ! 0 # slice 1 9 pre @ [pre ! 9]) ! i"
        by cases (use pkt(2) in \<open>simp_all add: nth_append nth_slice\<close>)
    qed (use pkt(2) in simp)
    then show ?thesis using p firstByte_split [of "pre ! 0"] by (auto simp: q_def k_def split: if_splits)
  qed
  have m: "concat (map be32 (ACKs p)) @ (if length (ACKs p) > 0 then RemoteSessionID p else []) = take need rest"
  proof -
    have "concat (map be32 (read_acks k 0 rest)) = take (k * 4) rest"
      using written_read_acks [of 0 k rest] c(2) by (simp add: need_def slice_def)
    moreover have "take need rest = take (k * 4) rest @ slice (k * 4) need rest"
      using slice_split [of 0 "k * 4" need rest] by (simp add: slice_def need_def)
    ultimately show ?thesis using p by (auto simp: q_def need_def split: if_splits)
  qed
  have "encoded p = pre @ take need rest @ (if hasMessageBody p then be32 (PacketID p) @ Payload p else [])"
    unfolding encoded_def by (simp only: f [symmetric] m [symmetric] append_assoc)
  moreover have "hasMessageBody p \<Longrightarrow> be32 (PacketID p) @ Payload p = drop need rest"
    using p hb be32_get32 [of need rest] slice_split [of need "need + 4" "length rest" rest]
    by (auto simp: slice_def)
  ultimately have "pkt = encoded p @ (if hasMessageBody p then [] else drop need rest)" using pkt(1) by simp
  then show ?thesis using wf by (metis (full_types))
qed


definition example_packet :: ControlPacket where
  "example_packet = \<lparr>Opcode = PControlV1, KeyID = 1, SessionID = [1, 2, 3, 4, 5, 6, 7, 8], ACKs = [9],
     RemoteSessionID = [8, 7, 6, 5, 4, 3, 2, 1], PacketID = 3, Payload = [22, 3]\<rparr>"


end
