(* ===== verification/Reliable.thy ===== *)
theory Reliable
  imports Prelude "HOL-Library.Finite_Map" "HOL-Library.Sublist"
begin

text \<open>
  OpenVPN's control-channel reliability layer, \<^verbatim>\<open>internal/openvpn/reliable/reliable.go\<close>: the
  windowed, retransmitting sender and the reordering, acknowledging receiver.  Times and durations
  are integers (nanoseconds), message identifiers 32-bit words.
\<close>

section \<open>The sender\<close>

definition DefaultWindow :: int where "DefaultWindow = 4"
definition DefaultTimeout :: int where "DefaultTimeout = 1000000000"

record Message =
  msg_ID :: u32
  msg_Payload :: bytes

record outgoing =
  out_msg :: Message
  lastSent :: int
  everSent :: bool

record Sender =
  window :: int
  timeout :: int
  snd_next :: u32
  inflight :: "outgoing list"

definition NewSender :: "int \<Rightarrow> int \<Rightarrow> Sender" where
  "NewSender w t = \<lparr>window = (if w \<le> 0 then DefaultWindow else w), timeout = (if t \<le> 0 then DefaultTimeout else t),
     snd_next = 0, inflight = []\<rparr>"

definition Queue :: "bytes \<Rightarrow> Sender \<Rightarrow> (u32 \<times> bool) \<times> Sender" where
  "Queue payload s =
     (if int (length (inflight s)) \<ge> window s then ((0, False), s)
      else ((snd_next s, True),
        s\<lparr>snd_next := snd_next s + 1,
          inflight := inflight s @ [\<lparr>out_msg = \<lparr>msg_ID = snd_next s, msg_Payload = payload\<rparr>, lastSent = 0, everSent = False\<rparr>]\<rparr>))"

definition Ready :: "Sender \<Rightarrow> bool" where
  "Ready s \<longleftrightarrow> int (length (inflight s)) < window s"

definition InFlight :: "Sender \<Rightarrow> nat" where
  "InFlight s = length (inflight s)"

fun release :: "u32 \<Rightarrow> outgoing list \<Rightarrow> outgoing list" where
  "release i [] = []"
| "release i (m # ms) = (if msg_ID (out_msg m) = i then ms else m # release i ms)"

definition Ack :: "u32 \<Rightarrow> Sender \<Rightarrow> Sender" where
  "Ack i s = s\<lparr>inflight := release i (inflight s)\<rparr>"

definition is_due :: "int \<Rightarrow> int \<Rightarrow> outgoing \<Rightarrow> bool" where
  "is_due t now m \<longleftrightarrow> \<not> everSent m \<or> now - lastSent m \<ge> t"

fun due_loop :: "int \<Rightarrow> int \<Rightarrow> outgoing list \<Rightarrow> Message list \<times> outgoing list" where
  "due_loop t now [] = ([], [])"
| "due_loop t now (m # ms) =
     (let (due, ms') = due_loop t now ms in
      if is_due t now m then (out_msg m # due, m\<lparr>everSent := True, lastSent := now\<rparr> # ms') else (due, m # ms'))"

definition Due :: "int \<Rightarrow> Sender \<Rightarrow> Message list \<times> Sender" where
  "Due now s = (let (due, ms) = due_loop (timeout s) now (inflight s) in (due, s\<lparr>inflight := ms\<rparr>))"

fun min_wait :: "int \<Rightarrow> int \<Rightarrow> int \<Rightarrow> outgoing list \<Rightarrow> int" where
  "min_wait t now mn [] = max mn 0"
| "min_wait t now mn (m # ms) =
     (if \<not> everSent m then 0
      else min_wait t now (if t - (now - lastSent m) < mn then t - (now - lastSent m) else mn) ms)"

definition NextDue :: "int \<Rightarrow> Sender \<Rightarrow> int option" where
  "NextDue now s = (if inflight s = [] then None else Some (min_wait (timeout s) now (timeout s) (inflight s)))"

section \<open>The receiver\<close>

record Receiver =
  rcv_next :: u32
  buffered :: "(u32, bytes) fmap"
  pending :: "u32 list"

definition NewReceiver :: Receiver where
  "NewReceiver = \<lparr>rcv_next = 0, buffered = fmempty, pending = []\<rparr>"

text \<open>The delivery loop; it removes an entry each time round.\<close>

function drain :: "u32 \<Rightarrow> (u32, bytes) fmap \<Rightarrow> bytes list \<times> u32 \<times> (u32, bytes) fmap" where
  "drain n b = (case fmlookup b n of
     None \<Rightarrow> ([], n, b)
   | Some p \<Rightarrow> (case drain (n + 1) (fmdrop n b) of (out, n', b') \<Rightarrow> (p # out, n', b')))"
  by pat_completeness auto
termination
proof (relation "measure (\<lambda>(n, b). fcard (fmdom b))")
  fix n :: u32 and b :: "(u32, bytes) fmap" and p
  assume "fmlookup b n = Some p"
  then have "n |\<in>| fmdom b" by (rule fmdomI)
  then have "fcard (fmdom b |-| {|n|}) < fcard (fmdom b)" by (rule fcard_fminus1_less)
  then show "((n + 1, fmdrop n b), (n, b)) \<in> measure (\<lambda>(n, b). fcard (fmdom b))" by simp
qed simp

declare drain.simps [simp del]

definition Receive :: "u32 \<Rightarrow> bytes \<Rightarrow> Receiver \<Rightarrow> bytes list \<times> Receiver" where
  "Receive i payload r =
     (let r1 = r\<lparr>pending := pending r @ [i]\<rparr> in
      if i < rcv_next r1 then ([], r1)
      else if fmlookup (buffered r1) i \<noteq> None then ([], r1)
      else case drain (rcv_next r1) (fmupd i payload (buffered r1)) of
             (out, n, b) \<Rightarrow> (out, r1\<lparr>rcv_next := n, buffered := b\<rparr>))"

definition HasACKs :: "Receiver \<Rightarrow> bool" where
  "HasACKs r \<longleftrightarrow> length (pending r) > 0"

definition TakeACKs :: "int \<Rightarrow> Receiver \<Rightarrow> u32 list \<times> Receiver" where
  "TakeACKs mx r =
     (if mx \<le> 0 \<or> length (pending r) = 0 then ([], r)
      else let n = (if mx > int (length (pending r)) then length (pending r) else nat mx)
           in (take n (pending r), r\<lparr>pending := drop n (pending r)\<rparr>))"

section \<open>Sequences and identifiers\<close>

text \<open>
  \<open>log\<close> is the list of payloads queued so far; message \<open>i\<close> carries its \<open>i\<close>-th entry.  It must stay
  below the \<open>2^32\<close> identifiers there are.
\<close>

definition in_log :: "bytes list \<Rightarrow> u32 \<Rightarrow> bytes \<Rightarrow> bool" where
  "in_log log i p \<longleftrightarrow> unat i < length log \<and> p = log ! unat i"

definition sender_ok :: "bytes list \<Rightarrow> Sender \<Rightarrow> bool" where
  "sender_ok log s \<longleftrightarrow> length log < 2 ^ 32 \<and> snd_next s = of_nat (length log) \<and> 0 < timeout s
     \<and> int (length (inflight s)) \<le> window s \<and> sorted_wrt (<) (map (msg_ID \<circ> out_msg) (inflight s))
     \<and> (\<forall>m \<in> set (inflight s). in_log log (msg_ID (out_msg m)) (msg_Payload (out_msg m)))"

definition receiver_ok :: "bytes list \<Rightarrow> Receiver \<Rightarrow> bool" where
  "receiver_ok log r \<longleftrightarrow> length log < 2 ^ 32 \<and> unat (rcv_next r) \<le> length log \<and> fmlookup (buffered r) (rcv_next r) = None
     \<and> (\<forall>i p. fmlookup (buffered r) i = Some p \<longrightarrow> rcv_next r \<le> i \<and> in_log log i p)"

text \<open>The messages a receiver holds, delivered or waiting, and the payloads it has delivered.\<close>

definition has_received :: "Receiver \<Rightarrow> u32 \<Rightarrow> bool" where
  "has_received r i \<longleftrightarrow> i < rcv_next r \<or> fmlookup (buffered r) i \<noteq> None"

definition delivered :: "bytes list \<Rightarrow> Receiver \<Rightarrow> bytes list" where
  "delivered log r = take (unat (rcv_next r)) log"

lemma in_log_mono: "in_log log i p \<Longrightarrow> in_log (log @ ps) i p"
  by (simp add: in_log_def nth_append)

lemma NewSender_ok: "sender_ok [] (NewSender w t)"
  by (simp add: sender_ok_def NewSender_def DefaultWindow_def DefaultTimeout_def)

lemma NewReceiver_ok: "log = [] \<Longrightarrow> receiver_ok log NewReceiver"
  by (simp add: receiver_ok_def NewReceiver_def)

lemma receiver_ok_mono: "receiver_ok log r \<Longrightarrow> length (log @ ps) < 2 ^ 32 \<Longrightarrow> receiver_ok (log @ ps) r"
  by (auto simp: receiver_ok_def intro: in_log_mono)

lemma delivered_mono: "receiver_ok log r \<Longrightarrow> delivered (log @ ps) r = delivered log r"
  by (simp add: delivered_def receiver_ok_def)

section \<open>What the sender does\<close>

lemma Queue_ok:
  assumes "sender_ok log s" and "Ready s" and "length (log @ [p]) < 2 ^ 32"
  shows "sender_ok (log @ [p]) (snd (Queue p s))" "fst (Queue p s) = (of_nat (length log), True)"
proof -
  have "unat (of_nat (length log) :: u32) = length log" using assms(3) by (intro unat_of_nat_small) simp
  moreover have "msg_ID (out_msg m) < of_nat (length log)" if "m \<in> set (inflight s)" for m
    using assms(1) that calculation by (auto simp: sender_ok_def in_log_def word_less_nat_alt)
  ultimately show "sender_ok (log @ [p]) (snd (Queue p s))"
    using assms by (auto simp: sender_ok_def Queue_def Ready_def sorted_wrt_append in_log_def nth_append)
  show "fst (Queue p s) = (of_nat (length log), True)"
    using assms by (simp add: sender_ok_def Queue_def Ready_def)
qed

lemma release_subset: "set (release i ms) \<subseteq> set ms" "length (release i ms) \<le> length ms"
  by (induction ms) auto

lemma release_sorted: "sorted_wrt (<) (map f ms) \<Longrightarrow> sorted_wrt (<) (map f (release i ms))"
  using release_subset(1) [of i] by (induction ms) auto

lemma release_keeps: "m \<in> set ms \<Longrightarrow> msg_ID (out_msg m) \<noteq> i \<Longrightarrow> m \<in> set (release i ms)"
  by (induction ms) auto

lemma Ack_ok:
  assumes "sender_ok log s"
  shows "sender_ok log (Ack i s)"
proof -
  have "length (release i (inflight s)) \<le> length (inflight s)" by (rule release_subset)
  then show ?thesis using assms release_subset(1) [of i "inflight s"] release_sorted [of "msg_ID \<circ> out_msg" "inflight s" i]
    by (auto simp: sender_ok_def Ack_def)
qed

lemma due_loop_simps:
  "map out_msg (snd (due_loop t now ms)) = map out_msg ms"
  "fst (due_loop t now ms) = map out_msg (filter (is_due t now) ms)"
  by (induction ms) (auto simp: Let_def case_prod_beta)

lemma Due_ok:
  assumes "sender_ok log s"
  shows "sender_ok log (snd (Due now s))"
    and "set (fst (Due now s)) \<subseteq> out_msg ` set (inflight s)"
    and "map out_msg (inflight (snd (Due now s))) = map out_msg (inflight s)"
    and "\<forall>m \<in> set (inflight s). is_due (timeout s) now m \<Longrightarrow> fst (Due now s) = map out_msg (inflight s)"
proof -
  define ms where "ms = snd (due_loop (timeout s) now (inflight s))"
  have m: "map out_msg ms = map out_msg (inflight s)" by (simp add: ms_def due_loop_simps)
  then have k: "length ms = length (inflight s)" "map (msg_ID \<circ> out_msg) ms = map (msg_ID \<circ> out_msg) (inflight s)"
    "out_msg ` set ms = out_msg ` set (inflight s)"
    by (auto dest: map_eq_imp_length_eq) (metis map_map, (metis image_set image_iff)+)
  have d: "Due now s = (map out_msg (filter (is_due (timeout s) now) (inflight s)), s\<lparr>inflight := ms\<rparr>)"
    by (simp add: Due_def ms_def Let_def case_prod_beta due_loop_simps)
  have "in_log log (msg_ID (out_msg x)) (msg_Payload (out_msg x))" if "x \<in> set ms" for x
  proof -
    have "out_msg x \<in> out_msg ` set (inflight s)" unfolding k(3) [symmetric] using that by (rule imageI)
    then obtain y where "y \<in> set (inflight s)" "out_msg x = out_msg y" by (elim imageE) (rule that)
    then show ?thesis using assms by (auto simp: sender_ok_def)
  qed
  then show "sender_ok log (snd (Due now s))" using assms k(1,2) by (simp add: sender_ok_def d)
  show "set (fst (Due now s)) \<subseteq> out_msg ` set (inflight s)" by (auto simp: d)
  show "map out_msg (inflight (snd (Due now s))) = map out_msg (inflight s)" by (simp add: d m)
  show "fst (Due now s) = map out_msg (inflight s)" if "\<forall>m \<in> set (inflight s). is_due (timeout s) now m"
    using that by (simp add: d)
qed

section \<open>What the receiver does\<close>

lemma drain_spec:
  assumes "length log < 2 ^ 32" and "unat n \<le> length log"
    and "\<forall>i p. fmlookup b i = Some p \<longrightarrow> n \<le> i \<and> in_log log i p"
    and "drain n b = (out, n', b')"
  shows "unat n \<le> unat n' \<and> unat n' \<le> length log \<and> take (unat n') log = take (unat n) log @ out
    \<and> fmlookup b' n' = None \<and> (\<forall>i p. fmlookup b' i = Some p \<longleftrightarrow> fmlookup b i = Some p \<and> n' \<le> i)
    \<and> (\<forall>i. n \<le> i \<and> i < n' \<longrightarrow> fmlookup b i \<noteq> None)"
  using assms(2-4)
proof (induction n b arbitrary: out n' b' rule: drain.induct)
  case (1 n b)
  show ?case
  proof (cases "fmlookup b n")
    case None
    then have "out = []" "n' = n" "b' = b" using 1(4) by (simp_all add: drain.simps [of n b])
    then show ?thesis using 1(2,3) None by auto
  next
    case (Some p)
    obtain out1 where d: "drain (n + 1) (fmdrop n b) = (out1, n', b')" "out = p # out1"
      using 1(4) Some by (auto simp: drain.simps [of n b] split: prod.splits)
    have l: "unat n < length log" "p = log ! unat n" using 1(3) Some by (auto simp: in_log_def)
    then have "unat n + 1 < 2 ^ 32" using assms(1) by linarith
    then have u: "unat (n + 1) = unat n + 1" by (simp add: unat_word_ariths)
    have up: "i \<noteq> n \<Longrightarrow> n \<le> i \<longleftrightarrow> n + 1 \<le> i" for i
      using u by (auto simp: word_le_nat_alt word_unat_eq_iff)
    have b1: "\<forall>i q. fmlookup (fmdrop n b) i = Some q \<longrightarrow> n + 1 \<le> i \<and> in_log log i q"
      using 1(3) up by (auto split: if_splits)
    have ih: "unat (n + 1) \<le> unat n' \<and> unat n' \<le> length log \<and> take (unat n') log = take (unat (n + 1)) log @ out1
      \<and> fmlookup b' n' = None \<and> (\<forall>i p. fmlookup b' i = Some p \<longleftrightarrow> fmlookup (fmdrop n b) i = Some p \<and> n' \<le> i)
      \<and> (\<forall>i. n + 1 \<le> i \<and> i < n' \<longrightarrow> fmlookup (fmdrop n b) i \<noteq> None)"
      using l(1) u by (intro 1(1) [OF Some _ b1 d(1)]) simp
    have nn: "\<not> n' \<le> n" using ih u by (simp add: word_le_nat_alt)
    have "take (unat n + 1) log = take (unat n) log @ [p]" using l by (simp add: take_Suc_conv_app_nth)
    moreover have "fmlookup b i \<noteq> None" if "n \<le> i \<and> i < n'" for i
      using that ih up [of i] Some by (cases "i = n") (auto simp: fmlookup_drop)
    moreover have "fmlookup b' i = Some q \<longleftrightarrow> fmlookup b i = Some q \<and> n' \<le> i" for i q
      using ih nn by (cases "i = n") auto
    ultimately show ?thesis using ih u d(2) by simp
  qed
qed

lemma Receive_ok:
  assumes "receiver_ok log r" and "in_log log i p" and "Receive i p r = (out, r')"
  shows "receiver_ok log r'" "delivered log r' = delivered log r @ out"
    "has_received r' j \<longleftrightarrow> has_received r j \<or> j = i" "pending r' = pending r @ [i]"
proof -
  have "receiver_ok log r' \<and> delivered log r' = delivered log r @ out
    \<and> (has_received r' j \<longleftrightarrow> has_received r j \<or> j = i) \<and> pending r' = pending r @ [i]"
  proof (cases "i < rcv_next r \<or> fmlookup (buffered r) i \<noteq> None")
    case True
    then have "out = []" "r' = r\<lparr>pending := pending r @ [i]\<rparr>" using assms(3) by (auto simp: Receive_def Let_def split: if_splits)
    then show ?thesis using assms(1) True by (auto simp: receiver_ok_def delivered_def has_received_def)
  next
    case False
    then obtain n b where d: "drain (rcv_next r) (fmupd i p (buffered r)) = (out, n, b)"
      and r': "r' = r\<lparr>pending := pending r @ [i], rcv_next := n, buffered := b\<rparr>"
      using assms(3) by (auto simp: Receive_def Let_def split: prod.splits)
    have "\<forall>j q. fmlookup (fmupd i p (buffered r)) j = Some q \<longrightarrow> rcv_next r \<le> j \<and> in_log log j q"
      using assms(1,2) False by (auto simp: receiver_ok_def)
    from drain_spec [OF _ _ this d] assms(1)
    have s: "unat (rcv_next r) \<le> unat n" "unat n \<le> length log" "take (unat n) log = take (unat (rcv_next r)) log @ out"
      "fmlookup b n = None" "\<forall>j q. fmlookup b j = Some q \<longleftrightarrow> fmlookup (fmupd i p (buffered r)) j = Some q \<and> n \<le> j"
      "\<forall>j. rcv_next r \<le> j \<and> j < n \<longrightarrow> fmlookup (fmupd i p (buffered r)) j \<noteq> None"
      by (auto simp: receiver_ok_def)
    have "has_received r' j \<longleftrightarrow> has_received r j \<or> j = i"
    proof (cases "j < n")
      case True
      then show ?thesis using s(6) by (auto simp: has_received_def r' split: if_splits)
    next
      case f: False
      then have "fmlookup b j = fmlookup (fmupd i p (buffered r)) j" using s(5) by (metis not_None_eq not_less)
      then show ?thesis using f s(1) False by (auto simp: has_received_def r' word_less_nat_alt)
    qed
    then show ?thesis using s assms(1,2) by (auto simp: receiver_ok_def delivered_def r' split: if_splits)
  qed
  then show "receiver_ok log r'" "delivered log r' = delivered log r @ out"
    "has_received r' j \<longleftrightarrow> has_received r j \<or> j = i" "pending r' = pending r @ [i]" by simp_all
qed

text \<open>A receiver that holds every message sent has delivered them all.\<close>

lemma all_delivered:
  assumes "receiver_ok log r" and "\<forall>i. unat i < length log \<longrightarrow> has_received r i"
  shows "delivered log r = log"
proof -
  have "\<not> unat (rcv_next r) < length log" using assms by (auto simp: receiver_ok_def has_received_def)
  then show ?thesis by (simp add: delivered_def)
qed

lemma TakeACKs_pending: "fst (TakeACKs mx r) @ pending (snd (TakeACKs mx r)) = pending r"
  "rcv_next (snd (TakeACKs mx r)) = rcv_next r" "buffered (snd (TakeACKs mx r)) = buffered r"
  "length (fst (TakeACKs mx r)) \<le> nat mx"
  by (auto simp: TakeACKs_def Let_def)

text \<open>The wakeup the sender asks for.\<close>

lemma min_wait_unsent: "\<exists>m \<in> set ms. \<not> everSent m \<Longrightarrow> min_wait t now mn ms = 0"
  by (induction ms arbitrary: mn) auto

lemma min_wait_sent:
  "\<forall>m \<in> set ms. everSent m \<Longrightarrow> min_wait t now mn ms = max 0 (Min (insert mn ((\<lambda>m. t - (now - lastSent m)) ` set ms)))"
proof (induction ms arbitrary: mn)
  case (Cons m ms)
  let ?d = "t - (now - lastSent m)" and ?S = "(\<lambda>m. t - (now - lastSent m)) ` set ms"
  have "Min (insert mn (insert ?d ?S)) = Min (insert (min ?d mn) ?S)"
    by (cases "?S = {}") (auto simp: min.assoc min.commute)
  moreover have "min_wait t now mn (m # ms) = min_wait t now (min ?d mn) ms"
    using Cons.prems by (simp add: min_def)
  ultimately show ?case using Cons by simp
qed (simp add: max.commute)

lemma NextDue_wakes:
  assumes "sender_ok log s" and "NextDue now s = Some w" and "\<forall>m \<in> set (inflight s). everSent m \<longrightarrow> lastSent m \<le> now"
  shows "\<exists>m \<in> set (inflight s). is_due (timeout s) (now + w) m"
    and "0 \<le> d \<Longrightarrow> d < w \<Longrightarrow> m \<in> set (inflight s) \<Longrightarrow> \<not> is_due (timeout s) (now + d) m"
proof -
  let ?f = "\<lambda>m. timeout s - (now - lastSent m)"
  have ne: "inflight s \<noteq> []" and w: "w = min_wait (timeout s) now (timeout s) (inflight s)"
    using assms(2) by (auto simp: NextDue_def split: if_splits)
  have "(\<exists>m \<in> set (inflight s). is_due (timeout s) (now + w) m) \<and> (0 \<le> d \<longrightarrow> d < w \<longrightarrow> m \<in> set (inflight s) \<longrightarrow> \<not> is_due (timeout s) (now + d) m)"
  proof (cases "\<exists>m \<in> set (inflight s). \<not> everSent m")
    case True
    then show ?thesis using min_wait_unsent [OF True] w by (auto simp: is_due_def)
  next
    case False
    then have all: "\<forall>m \<in> set (inflight s). everSent m" by blast
    let ?S = "?f ` set (inflight s)"
    have le: "\<forall>x \<in> ?S. x \<le> timeout s" using assms(3) all by auto
    have S: "finite ?S" "?S \<noteq> {}" using ne by auto
    have "Min ?S \<le> timeout s" using le Min_in [OF S] by blast
    then have "Min (insert (timeout s) ?S) = Min ?S" by (simp only: Min_insert [OF S] min_absorb2)
    then have w': "w = max 0 (Min ?S)" using w min_wait_sent [OF all, of "timeout s" now "timeout s"] by simp
    obtain m0 where m0: "m0 \<in> set (inflight s)" "Min ?S = ?f m0" using Min_in [OF S] by blast
    have "timeout s - (now - lastSent m0) \<le> w" using m0(2) w' by simp
    then have "is_due (timeout s) (now + w) m0" by (simp add: is_due_def)
    moreover have "\<not> is_due (timeout s) (now + d) m" if "0 \<le> d" "d < w" "m \<in> set (inflight s)"
    proof -
      have "Min ?S \<le> ?f m" using that(3) S by (intro Min_le) auto
      then have "d < ?f m" using that(1,2) w' by linarith
      then show ?thesis using all that(3) by (simp add: is_due_def)
    qed
    ultimately show ?thesis using m0(1) by blast
  qed
  then show "\<exists>m \<in> set (inflight s). is_due (timeout s) (now + w) m"
    "0 \<le> d \<Longrightarrow> d < w \<Longrightarrow> m \<in> set (inflight s) \<Longrightarrow> \<not> is_due (timeout s) (now + d) m" by blast+
qed

end
