(* ===== verification/Ovpn_Control.thy ===== *)
theory Ovpn_Control
  imports Ovpn_Wire Reliable
begin

text \<open>
  OpenVPN's control channel, \<^verbatim>\<open>internal/openvpn/control/control.go\<close>: the packets of
  \<^verbatim>\<open>Ovpn_Wire\<close> and the reliability layer of \<^verbatim>\<open>Reliable\<close> turned into the byte stream that
  TLS runs over.  One pump goroutine owns the state, so each of its actions is one step.  A full
  \<^verbatim>\<open>inbound\<close> queue makes the pump wait, which changes when a payload is queued, not what is;
  the queue of the model has no bound.  \<open>sent_log\<close> holds the datagrams handed to \<^verbatim>\<open>send\<close>.
\<close>

section \<open>The channel\<close>

definition maxControlPayload :: nat where "maxControlPayload = 1200"
definition maxACKPerPacket :: int where "maxACKPerPacket = 4"

record 'w Wrapper =
  Wrap :: "'w \<Rightarrow> bytes \<Rightarrow> bytes option \<times> 'w"
  Unwrap :: "'w \<Rightarrow> bytes \<Rightarrow> bytes option \<times> 'w"

text \<open>What a channel is given: the optional wrapper and the socket's \<^verbatim>\<open>send\<close>.\<close>

record 'w chan_env =
  wrapper :: "'w Wrapper option"
  send_ok :: "bytes \<Rightarrow> bool"

datatype chan_error = ErrWire ovpn_wire_error | ErrWrap | ErrSend | ErrClosed

record 'w Channel =
  keyID :: byte
  local_id :: bytes
  hardResetOpcode :: byte
  sender :: Sender
  receiver :: Receiver
  inbound :: "bytes list"
  outbound :: "bytes list"
  remote :: "bytes option"
  readRem :: bytes
  closed :: bool
  ch_err :: "chan_error option"
  wstate :: 'w
  sent_log :: "bytes list"

definition newChannel :: "byte \<Rightarrow> int \<Rightarrow> byte \<Rightarrow> bytes \<Rightarrow> 'w \<Rightarrow> 'w Channel" where
  "newChannel key tmo hardReset sid w = \<lparr>keyID = key, local_id = sid, hardResetOpcode = hardReset,
     sender = snd (Queue [] (NewSender 0 tmo)), receiver = NewReceiver, inbound = [], outbound = [], remote = None,
     readRem = [], closed = False, ch_err = None, wstate = w, sent_log = []\<rparr>"

definition New_client :: "byte \<Rightarrow> int \<Rightarrow> bytes \<Rightarrow> 'w \<Rightarrow> 'w Channel" where
  "New_client key tmo sid w = newChannel key tmo PControlHardResetClientV2 sid w"

definition NewServer :: "byte \<Rightarrow> int \<Rightarrow> bytes \<Rightarrow> 'w \<Rightarrow> 'w Channel" where
  "NewServer key tmo sid w = newChannel key tmo PControlHardResetServerV2 sid w"

definition Close :: "'w Channel \<Rightarrow> 'w Channel" where
  "Close c = c\<lparr>closed := True\<rparr>"

definition fail_with :: "chan_error \<Rightarrow> 'w Channel \<Rightarrow> 'w Channel" where
  "fail_with x c = Close (c\<lparr>ch_err := (case ch_err c of None \<Rightarrow> Some x | Some y \<Rightarrow> Some y)\<rparr>)"

definition chan_failure :: "'w Channel \<Rightarrow> chan_error" where
  "chan_failure c = (case ch_err c of Some x \<Rightarrow> x | None \<Rightarrow> ErrClosed)"

definition attachACKs :: "'w Channel \<Rightarrow> u32 list \<Rightarrow> ControlPacket \<Rightarrow> ControlPacket" where
  "attachACKs c acks p =
     (if length acks = 0 then p
      else case remote c of None \<Rightarrow> p | Some rsid \<Rightarrow> p\<lparr>ACKs := acks, RemoteSessionID := rsid\<rparr>)"

definition send_out :: "'w chan_env \<Rightarrow> bytes \<Rightarrow> 'w Channel \<Rightarrow> 'w Channel" where
  "send_out e out c = (if send_ok e out then c\<lparr>sent_log := sent_log c @ [out]\<rparr> else fail_with ErrSend c)"

definition writePacket :: "'w chan_env \<Rightarrow> ControlPacket \<Rightarrow> 'w Channel \<Rightarrow> 'w Channel" where
  "writePacket e p c = (case Marshal p (replicate (MarshalLen p) 0) of
     Err x \<Rightarrow> fail_with (ErrWire x) c
   | Ok out \<Rightarrow> (case wrapper e of
         None \<Rightarrow> send_out e out c
       | Some w \<Rightarrow> (case Wrap w (wstate c) out of
             (None, ws) \<Rightarrow> fail_with ErrWrap (c\<lparr>wstate := ws\<rparr>)
           | (Some out', ws) \<Rightarrow> send_out e out' (c\<lparr>wstate := ws\<rparr>))))"

definition sendMessage :: "'w chan_env \<Rightarrow> Message \<Rightarrow> u32 list \<Rightarrow> 'w Channel \<Rightarrow> 'w Channel" where
  "sendMessage e m acks c =
     (let opcode = (if msg_ID m = 0 then hardResetOpcode c else PControlV1)
      in writePacket e (attachACKs c acks \<lparr>Opcode = opcode, KeyID = keyID c, SessionID = local_id c, ACKs = [],
           RemoteSessionID = replicate 8 0, PacketID = msg_ID m, Payload = msg_Payload m\<rparr>) c)"

definition sendACK :: "'w chan_env \<Rightarrow> u32 list \<Rightarrow> 'w Channel \<Rightarrow> 'w Channel" where
  "sendACK e acks c = writePacket e (attachACKs c acks \<lparr>Opcode = PACKV1, KeyID = keyID c, SessionID = local_id c,
     ACKs = [], RemoteSessionID = replicate 8 0, PacketID = 0, Payload = []\<rparr>) c"

text \<open>The acknowledgements ride on the first message; what is left of them is returned.\<close>

fun send_due :: "'w chan_env \<Rightarrow> Message list \<Rightarrow> u32 list \<Rightarrow> 'w Channel \<Rightarrow> u32 list \<times> 'w Channel" where
  "send_due e [] acks c = (acks, c)"
| "send_due e (m # ms) acks c = send_due e ms [] (sendMessage e m acks c)"

definition transmit :: "'w chan_env \<Rightarrow> int \<Rightarrow> 'w Channel \<Rightarrow> 'w Channel" where
  "transmit e now c =
     (let (due, s) = Due now (sender c);
          c1 = c\<lparr>sender := s\<rparr>;
          (acks, r) = (if remote c1 \<noteq> None then TakeACKs maxACKPerPacket (receiver c1) else ([], receiver c1));
          (acks', c2) = send_due e due acks (c1\<lparr>receiver := r\<rparr>)
      in if length acks' > 0 then sendACK e acks' c2 else c2)"

definition handlePacket :: "bytes \<Rightarrow> 'w Channel \<Rightarrow> 'w Channel" where
  "handlePacket dg c = (case Opcode_of dg of
     None \<Rightarrow> c
   | Some (op, _) \<Rightarrow>
       if \<not> IsControl op then c
       else case ParseControl dg of
              Err _ \<Rightarrow> c
            | Ok p \<Rightarrow>
                if remote c \<noteq> None \<and> remote c \<noteq> Some (SessionID p) then c
                else let c1 = c\<lparr>remote := Some (SessionID p), sender := fold Ack (ACKs p) (sender c)\<rparr> in
                     if Opcode p = PACKV1 then c1
                     else let (out, r) = Receive (PacketID p) (Payload p) (receiver c1)
                          in c1\<lparr>receiver := r, inbound := inbound c1 @ filter (\<lambda>x. length x \<noteq> 0) out\<rparr>)"

definition handleDatagram :: "'w chan_env \<Rightarrow> bytes \<Rightarrow> 'w Channel \<Rightarrow> 'w Channel" where
  "handleDatagram e dg c = (case wrapper e of
     None \<Rightarrow> handlePacket dg c
   | Some w \<Rightarrow> (case Unwrap w (wstate c) dg of
         (None, ws) \<Rightarrow> c\<lparr>wstate := ws\<rparr>
       | (Some plain, ws) \<Rightarrow> handlePacket plain (c\<lparr>wstate := ws\<rparr>)))"

text \<open>\<^verbatim>\<open>Read\<close> into a buffer of \<open>n\<close> octets; \<open>ReadWait\<close> is a call that blocks until its deadline.\<close>

datatype read_result = ReadOk bytes | ReadErr chan_error | ReadWait

definition Read :: "nat \<Rightarrow> 'w Channel \<Rightarrow> read_result \<times> 'w Channel" where
  "Read n c =
     (if length (readRem c) > 0 then (ReadOk (take n (readRem c)), c\<lparr>readRem := drop n (readRem c)\<rparr>)
      else case inbound c of
             payload # rest \<Rightarrow> (ReadOk (take n payload),
               c\<lparr>inbound := rest, readRem := (if n < length payload then drop n payload else readRem c)\<rparr>)
           | [] \<Rightarrow> (if closed c then ReadErr (chan_failure c) else ReadWait, c))"

function chunks :: "bytes \<Rightarrow> bytes list" where
  "chunks p = (if length p > 0 then take (min (length p) maxControlPayload) p # chunks (drop (min (length p) maxControlPayload) p) else [])"
  by pat_completeness auto
termination
  by (relation "measure length") (auto simp: maxControlPayload_def)

declare chunks.simps [simp del]

text \<open>\<^verbatim>\<open>Write\<close> hands its chunks over one by one, in order; \<open>outbound\<close> holds those not yet taken.\<close>

definition Write :: "bytes \<Rightarrow> 'w Channel \<Rightarrow> 'w Channel" where
  "Write p c = (if closed c then c else c\<lparr>outbound := outbound c @ chunks p\<rparr>)"

definition take_chunk :: "'w Channel \<Rightarrow> (bytes \<times> 'w Channel) option" where
  "take_chunk c = (if closed c \<or> \<not> Ready (sender c) then None
     else case outbound c of
            [] \<Rightarrow> None
          | chunk # rest \<Rightarrow> Some (chunk, c\<lparr>sender := snd (Queue chunk (sender c)), outbound := rest\<rparr>))"

section \<open>Chunks\<close>

lemma chunks_Nil [simp]: "chunks [] = []"
  by (simp add: chunks.simps)

lemma concat_chunks: "concat (chunks p) = p"
proof (induction p rule: chunks.induct)
  case (1 p)
  then show ?case by (cases "length p > 0") (simp_all add: chunks.simps [of p])
qed

lemma chunk_sizes: "x \<in> set (chunks p) \<Longrightarrow> 0 < length x \<and> length x \<le> maxControlPayload"
proof (induction p rule: chunks.induct)
  case (1 p)
  have "x \<in> set (if length p > 0 then take (min (length p) maxControlPayload) p # chunks (drop (min (length p) maxControlPayload) p) else [])"
    using 1(2) by (subst (asm) chunks.simps)
  then show ?case using 1(1) by (cases "length p > 0") (auto simp: maxControlPayload_def min_def split: if_splits)
qed

lemma concat_nonempty: "concat (filter (\<lambda>x. x \<noteq> []) xs) = concat xs"
  by (induction xs) auto

section \<open>Two channels and a network\<close>

text \<open>
  The network between two channels loses, repeats and reorders datagrams as it likes, and when the
  channels are wrapped it may also bring datagrams of its own, which the wrapper rejects.  For each
  side the state records the payloads it queued, what TLS wrote to it and what TLS read from it.
\<close>

record 'w link =
  chan :: "bool \<Rightarrow> 'w Channel"
  qlog :: "bool \<Rightarrow> bytes list"
  wrote :: "bool \<Rightarrow> bytes"
  got :: "bool \<Rightarrow> bytes"

inductive link_step :: "(bool \<Rightarrow> 'w chan_env) \<Rightarrow> 'w link \<Rightarrow> 'w link \<Rightarrow> bool" for e where
  tick: "\<not> closed (chan L x) \<Longrightarrow> link_step e L (L\<lparr>chan := (chan L)(x := transmit (e x) now (chan L x))\<rparr>)"
| arrive: "\<not> closed (chan L x) \<Longrightarrow> dg \<in> set (sent_log (chan L (\<not> x))) \<Longrightarrow>
    link_step e L (L\<lparr>chan := (chan L)(x := handleDatagram (e x) dg (chan L x))\<rparr>)"
| forged: "\<not> closed (chan L x) \<Longrightarrow> wrapper (e x) = Some w \<Longrightarrow> fst (Unwrap w (wstate (chan L x)) dg) = None \<Longrightarrow>
    link_step e L (L\<lparr>chan := (chan L)(x := handleDatagram (e x) dg (chan L x))\<rparr>)"
| tls_write: "\<not> closed (chan L x) \<Longrightarrow>
    link_step e L (L\<lparr>chan := (chan L)(x := Write p (chan L x)), wrote := (wrote L)(x := wrote L x @ p)\<rparr>)"
| next_chunk: "take_chunk (chan L x) = Some (p, c) \<Longrightarrow> length (qlog L x @ [p]) < 2 ^ 32 \<Longrightarrow>
    link_step e L (L\<lparr>chan := (chan L)(x := c), qlog := (qlog L)(x := qlog L x @ [p])\<rparr>)"
| tls_read: "Read n (chan L x) = (ReadOk bs, c) \<Longrightarrow>
    link_step e L (L\<lparr>chan := (chan L)(x := c), got := (got L)(x := got L x @ bs)\<rparr>)"
| shut: "link_step e L (L\<lparr>chan := (chan L)(x := Close (chan L x))\<rparr>)"

definition new_link :: "byte \<Rightarrow> int \<Rightarrow> (bool \<Rightarrow> bytes) \<Rightarrow> (bool \<Rightarrow> 'w) \<Rightarrow> 'w link" where
  "new_link key tmo sid w = \<lparr>chan = (\<lambda>x. if x then New_client key tmo (sid x) (w x) else NewServer key tmo (sid x) (w x)),
     qlog = (\<lambda>x. [[]]), wrote = (\<lambda>x. []), got = (\<lambda>x. [])\<rparr>"

inductive link_reach :: "(bool \<Rightarrow> 'w chan_env) \<Rightarrow> 'w link \<Rightarrow> bool" for e where
  start: "key < 8 \<Longrightarrow> length (sid True) = 8 \<Longrightarrow> length (sid False) = 8 \<Longrightarrow> link_reach e (new_link key tmo sid w)"
| step: "link_reach e L \<Longrightarrow> link_step e L L' \<Longrightarrow> link_reach e L'"

text \<open>
  The contract of a wrapper: what one side wraps, the other unwraps to the same packet or rejects.
\<close>

definition carried :: "'w Wrapper option \<Rightarrow> bytes \<Rightarrow> bytes \<Rightarrow> bool" where
  "carried w pkt dg \<longleftrightarrow> (case w of None \<Rightarrow> dg = pkt | Some wr \<Rightarrow> \<exists>ws. fst (Wrap wr ws pkt) = Some dg)"

definition wrappers_match :: "'w Wrapper option \<Rightarrow> 'w Wrapper option \<Rightarrow> bool" where
  "wrappers_match w v \<longleftrightarrow> (case v of
     None \<Rightarrow> w = None
   | Some vr \<Rightarrow> \<forall>pkt dg ws. carried w pkt dg \<longrightarrow> fst (Unwrap vr ws dg) \<in> {None, Some pkt})"

definition chan_ok :: "'w Channel \<Rightarrow> bool" where
  "chan_ok c \<longleftrightarrow> keyID c < 8 \<and> length (local_id c) = 8 \<and> IsControl (hardResetOpcode c) \<and> hardResetOpcode c \<noteq> PACKV1"

definition good_packet :: "bytes list \<Rightarrow> 'w Channel \<Rightarrow> ControlPacket \<Rightarrow> bool" where
  "good_packet log c p \<longleftrightarrow> packet_wf p \<and> SessionID p = local_id c
     \<and> (hasMessageBody p \<longrightarrow> in_log log (PacketID p) (Payload p)) \<and> (\<forall>a \<in> set (ACKs p). has_received (receiver c) a)"

text \<open>One direction of the link: from the sending channel \<open>c\<close> to the receiving channel \<open>d\<close>.\<close>

definition flow :: "'w Wrapper option \<Rightarrow> bytes list \<Rightarrow> 'w Channel \<Rightarrow> 'w Channel \<Rightarrow> bytes \<Rightarrow> bytes \<Rightarrow> bool" where
  "flow w log c d wr gt \<longleftrightarrow> chan_ok c \<and> sender_ok log (sender c) \<and> receiver_ok log (receiver d)
     \<and> (\<forall>dg \<in> set (sent_log c). \<exists>p. carried w (encoded p) dg \<and> good_packet log c p)
     \<and> (\<forall>a \<in> set (pending (receiver c)). has_received (receiver c) a)
     \<and> (\<forall>i. unat i < length log \<longrightarrow> (\<exists>m \<in> set (inflight (sender c)). msg_ID (out_msg m) = i) \<or> has_received (receiver d) i)
     \<and> (remote c = None \<or> remote c = Some (local_id d))
     \<and> gt @ readRem d @ concat (inbound d) = concat (delivered log (receiver d))
     \<and> concat log @ concat (outbound c) = wr"

definition link_inv :: "(bool \<Rightarrow> 'w chan_env) \<Rightarrow> 'w link \<Rightarrow> bool" where
  "link_inv e L \<longleftrightarrow> (\<forall>x. flow (wrapper (e x)) (qlog L x) (chan L x) (chan L (\<not> x)) (wrote L x) (got L (\<not> x)))"

section \<open>What the actions change\<close>

text \<open>The fields of a channel other than its log, its errors and the state of its wrapper.\<close>

definition core :: "'w Channel \<Rightarrow> _" where
  "core c = (keyID c, local_id c, hardResetOpcode c, sender c, receiver c, inbound c, outbound c, remote c, readRem c)"

lemma core_iff: "core c' = core c \<longleftrightarrow> keyID c' = keyID c \<and> local_id c' = local_id c \<and> hardResetOpcode c' = hardResetOpcode c
    \<and> sender c' = sender c \<and> receiver c' = receiver c \<and> inbound c' = inbound c \<and> outbound c' = outbound c
    \<and> remote c' = remote c \<and> readRem c' = readRem c"
  by (auto simp: core_def)

lemma core_fail [simp]: "core (fail_with x c) = core c" "sent_log (fail_with x c) = sent_log c"
  by (simp_all add: core_def fail_with_def Close_def)

lemma core_send_out: "core (send_out e out c) = core c" "set (sent_log (send_out e out c)) \<subseteq> insert out (set (sent_log c))"
  by (auto simp: core_def send_out_def fail_with_def Close_def)

lemma writePacket_core:
  assumes "length (ACKs p) \<le> 255"
  shows "core (writePacket e p c) = core c"
    and "dg \<in> set (sent_log (writePacket e p c)) \<Longrightarrow> dg \<in> set (sent_log c) \<or> carried (wrapper e) (encoded p) dg"
proof -
  have m: "Marshal p (replicate (MarshalLen p) 0) = Ok (encoded p)" using assms by (intro Marshal_encoded) simp_all
  have ws: "core (c\<lparr>wstate := ws\<rparr>) = core c" for ws by (simp add: core_def)
  show "core (writePacket e p c) = core c"
    by (simp add: writePacket_def m core_send_out ws split: option.split prod.split)
  assume d: "dg \<in> set (sent_log (writePacket e p c))"
  show "dg \<in> set (sent_log c) \<or> carried (wrapper e) (encoded p) dg"
  proof (cases "wrapper e")
    case None
    then show ?thesis using d core_send_out(2) [of e "encoded p" c] by (auto simp: writePacket_def m carried_def)
  next
    case (Some w)
    obtain out ws where o: "Wrap w (wstate c) (encoded p) = (out, ws)" by fastforce
    then have "out = Some y \<Longrightarrow> carried (Some w) (encoded p) y" for y by (auto simp: carried_def intro: exI [of _ "wstate c"])
    then show ?thesis using d Some o core_send_out(2) [of e _ "c\<lparr>wstate := ws\<rparr>"]
      by (cases out) (auto simp: writePacket_def m)
  qed
qed

lemma flow_sends:
  assumes "flow w log c d wr gt" and "core c' = core c"
    and "\<And>dg. dg \<in> set (sent_log c') \<Longrightarrow> dg \<in> set (sent_log c) \<or> (\<exists>p. carried w (encoded p) dg \<and> good_packet log c p)"
  shows "flow w log c' d wr gt"
proof -
  have "good_packet log c' p = good_packet log c p" for p using assms(2) by (simp add: good_packet_def core_iff)
  then show ?thesis using assms unfolding flow_def core_iff chan_ok_def by metis
qed

lemma flow_writePacket:
  assumes "flow (wrapper e) log c d wr gt" and "good_packet log c p"
  shows "flow (wrapper e) log (writePacket e p c) d wr gt" "core (writePacket e p c) = core c"
proof -
  have a: "length (ACKs p) \<le> 255" using assms(2) by (simp add: good_packet_def packet_wf_def)
  show "core (writePacket e p c) = core c" using writePacket_core(1) [OF a] .
  show "flow (wrapper e) log (writePacket e p c) d wr gt"
    using flow_sends [OF assms(1) writePacket_core(1) [OF a]] writePacket_core(2) [OF a] assms(2) by metis
qed

lemma flow_dest:
  assumes "flow w log c d wr gt" and "local_id d' = local_id d" "rcv_next (receiver d') = rcv_next (receiver d)"
    "buffered (receiver d') = buffered (receiver d)" "readRem d' = readRem d" "inbound d' = inbound d"
  shows "flow w log c d' wr gt"
  using assms by (simp add: flow_def receiver_ok_def has_received_def delivered_def)

lemma attached_good:
  assumes "packet_wf p" "ACKs p = []" "SessionID p = local_id c" "hasMessageBody p \<longrightarrow> in_log log (PacketID p) (Payload p)"
    and "\<forall>a \<in> set acks. has_received (receiver c) a" "length acks \<le> 4" "\<forall>r. remote c = Some r \<longrightarrow> length r = 8"
  shows "good_packet log c (attachACKs c acks p)"
  using assms by (auto simp: good_packet_def attachACKs_def packet_wf_def hasMessageBody_def split: option.split)

lemma flow_remote: "flow w log c d wr gt \<Longrightarrow> chan_ok d \<Longrightarrow> \<forall>r. remote c = Some r \<longrightarrow> length r = 8"
  by (auto simp: flow_def chan_ok_def)

lemma message_good:
  assumes "flow w log c d wr gt" and "chan_ok d" and "in_log log (msg_ID m) (msg_Payload m)"
    and "\<forall>a \<in> set acks. has_received (receiver c) a" "length acks \<le> 4"
  shows "good_packet log c (attachACKs c acks \<lparr>Opcode = (if msg_ID m = 0 then hardResetOpcode c else PControlV1),
    KeyID = keyID c, SessionID = local_id c, ACKs = [], RemoteSessionID = replicate 8 0, PacketID = msg_ID m, Payload = msg_Payload m\<rparr>)"
    (is "good_packet log c (attachACKs c acks ?p)")
proof -
  have ok: "chan_ok c" using assms(1) by (simp add: flow_def)
  have op: "IsControl PControlV1" "PControlV1 \<noteq> PACKV1" by (simp_all add: IsControl_def)
  have "packet_wf ?p" using ok op by (auto simp: packet_wf_def chan_ok_def)
  then show ?thesis using assms(3-5) flow_remote [OF assms(1,2)] by (intro attached_good) simp_all
qed

lemma flow_sendMessage:
  assumes "flow (wrapper e) log c d wr gt" and "chan_ok d" and "in_log log (msg_ID m) (msg_Payload m)"
    and "\<forall>a \<in> set acks. has_received (receiver c) a" "length acks \<le> 4"
  shows "flow (wrapper e) log (sendMessage e m acks c) d wr gt \<and> core (sendMessage e m acks c) = core c"
  using flow_writePacket [OF assms(1) message_good [OF assms]] by (simp add: sendMessage_def)

lemma flow_sendACK:
  assumes "flow (wrapper e) log c d wr gt" and "chan_ok d"
    and "\<forall>a \<in> set acks. has_received (receiver c) a" "length acks \<le> 4"
  shows "flow (wrapper e) log (sendACK e acks c) d wr gt \<and> core (sendACK e acks c) = core c"
proof -
  let ?p = "\<lparr>Opcode = PACKV1, KeyID = keyID c, SessionID = local_id c, ACKs = [], RemoteSessionID = replicate 8 0,
     PacketID = 0, Payload = []\<rparr>"
  have "packet_wf ?p" using assms(1) by (auto simp: packet_wf_def flow_def chan_ok_def IsControl_def)
  then have "good_packet log c (attachACKs c acks ?p)"
    using assms(3,4) flow_remote [OF assms(1,2)] by (intro attached_good) (simp_all add: hasMessageBody_def)
  from flow_writePacket [OF assms(1) this] show ?thesis by (simp add: sendACK_def)
qed

lemma flow_send_due:
  assumes "flow (wrapper e) log c d wr gt" and "chan_ok d" and "\<forall>m \<in> set ms. in_log log (msg_ID m) (msg_Payload m)"
    and "\<forall>a \<in> set acks. has_received (receiver c) a" "length acks \<le> 4"
  shows "flow (wrapper e) log (snd (send_due e ms acks c)) d wr gt \<and> core (snd (send_due e ms acks c)) = core c
    \<and> fst (send_due e ms acks c) = (if ms = [] then acks else [])"
  using assms
proof (induction ms arbitrary: acks c)
  case (Cons m ms)
  have s: "flow (wrapper e) log (sendMessage e m acks c) d wr gt \<and> core (sendMessage e m acks c) = core c"
    using Cons.prems by (intro flow_sendMessage) simp_all
  then show ?case using Cons.IH [of "sendMessage e m acks c" "[]"] Cons.prems by simp
qed simp

text \<open>The parts of a transmission that precede the sending.\<close>

definition prepared :: "int \<Rightarrow> 'w Channel \<Rightarrow> u32 list \<times> 'w Channel" where
  "prepared now c =
     (let (acks, r) = (if remote c \<noteq> None then TakeACKs maxACKPerPacket (receiver c) else ([], receiver c))
      in (acks, c\<lparr>sender := snd (Due now (sender c)), receiver := r\<rparr>))"

lemma transmit_prepared:
  "transmit e now c = (let (acks, c1) = prepared now c; (acks', c2) = send_due e (fst (Due now (sender c))) acks c1
     in if length acks' > 0 then sendACK e acks' c2 else c2)"
  by (simp add: transmit_def prepared_def Let_def case_prod_beta split: if_split)

lemma prepared_flow:
  assumes "flow w log c d wr gt" and "prepared now c = (acks, c1)"
  shows "flow w log c1 d wr gt" "\<forall>a \<in> set acks. has_received (receiver c1) a" "length acks \<le> 4"
    "local_id c1 = local_id c" "rcv_next (receiver c1) = rcv_next (receiver c)" "buffered (receiver c1) = buffered (receiver c)"
    "readRem c1 = readRem c" "inbound c1 = inbound c" "sent_log c1 = sent_log c" "closed c1 = closed c" "remote c1 = remote c"
    "map out_msg (inflight (sender c1)) = map out_msg (inflight (sender c))"
proof -
  obtain a r where ar: "(a, r) = (if remote c \<noteq> None then TakeACKs maxACKPerPacket (receiver c) else ([], receiver c))" by (metis surj_pair)
  have c1: "c1 = c\<lparr>sender := snd (Due now (sender c)), receiver := r\<rparr>" "acks = a"
    using assms(2) unfolding prepared_def ar [symmetric] by auto
  have r: "rcv_next r = rcv_next (receiver c)" "buffered r = buffered (receiver c)" "a @ pending r = pending (receiver c)" "length a \<le> 4"
    using ar TakeACKs_pending [of maxACKPerPacket "receiver c"]
    by (auto simp: maxACKPerPacket_def split: if_splits dest: sym)
  have h: "has_received r = has_received (receiver c)" using r by (auto simp: has_received_def fun_eq_iff)
  have s: "sender_ok log (sender c)" using assms(1) by (simp add: flow_def)
  note due = Due_ok(1,3) [OF s, of now]
  have ids: "out_msg ` set (inflight (snd (Due now (sender c)))) = out_msg ` set (inflight (sender c))"
    using arg_cong [OF due(2), of set] by simp
  have p: "\<forall>x \<in> set (pending (receiver c)). has_received (receiver c) x" using assms(1) by (simp add: flow_def)
  have p': "set a \<subseteq> set (pending (receiver c))" "set (pending r) \<subseteq> set (pending (receiver c))"
    using r(3) by (metis set_append Un_upper1, metis set_append Un_upper2)
  have i: "(\<exists>m \<in> set (inflight (snd (Due now (sender c)))). msg_ID (out_msg m) = i) \<longleftrightarrow> (\<exists>m \<in> set (inflight (sender c)). msg_ID (out_msg m) = i)" for i
    using ids by (metis (no_types, lifting) image_iff)
  show "flow w log c1 d wr gt"
    using assms(1) due(1) i h p p'(2) unfolding flow_def c1 good_packet_def chan_ok_def by auto
  show "\<forall>a \<in> set acks. has_received (receiver c1) a" using p p'(1) h c1 by auto
  show "length acks \<le> 4" "map out_msg (inflight (sender c1)) = map out_msg (inflight (sender c))"
    using r(4) c1 due(2) by simp_all
qed (use assms(2) in \<open>auto simp: prepared_def Let_def case_prod_beta TakeACKs_pending split: if_splits\<close>)

lemma transmit_flow:
  assumes "flow (wrapper e) log c d wr gt" and "chan_ok d"
  shows "flow (wrapper e) log (transmit e now c) d wr gt"
    and "flow w log' d c wr' gt' \<Longrightarrow> flow w log' d (transmit e now c) wr' gt'"
proof -
  obtain acks c1 where p: "prepared now c = (acks, c1)" by fastforce
  note f = prepared_flow [OF assms(1) p]
  have l: "\<forall>m \<in> set (fst (Due now (sender c))). in_log log (msg_ID m) (msg_Payload m)"
    using assms(1) Due_ok(2) [of log "sender c" now] by (auto simp: flow_def sender_ok_def)
  note sd = flow_send_due [OF f(1) assms(2) l f(2,3)]
  obtain acks' c2 where c2: "send_due e (fst (Due now (sender c))) acks c1 = (acks', c2)" by fastforce
  have f2: "flow (wrapper e) log c2 d wr gt" "core c2 = core c1" "acks' = acks \<or> acks' = []" using sd c2 by (auto split: if_splits)
  then have "flow (wrapper e) log (sendACK e acks' c2) d wr gt \<and> core (sendACK e acks' c2) = core c2"
    using f(2,3) by (intro flow_sendACK assms(2)) (auto simp: core_iff)
  then have t: "flow (wrapper e) log (transmit e now c) d wr gt" "core (transmit e now c) = core c1"
    using f2 by (simp_all add: transmit_prepared p c2)
  show "flow (wrapper e) log (transmit e now c) d wr gt" by (rule t(1))
  show "flow w log' d c wr' gt' \<Longrightarrow> flow w log' d (transmit e now c) wr' gt'"
    by (rule flow_dest) (use t(2) f(4-8) in \<open>simp_all add: core_iff\<close>)
qed

section \<open>Arrivals\<close>

lemma fold_Ack:
  "sender_ok log s \<Longrightarrow> sender_ok log (fold Ack as s)"
  "m \<in> set (inflight s) \<Longrightarrow> msg_ID (out_msg m) \<notin> set as \<Longrightarrow> m \<in> set (inflight (fold Ack as s))"
  "timeout (fold Ack as s) = timeout s"
proof (induction as arbitrary: s)
  case (Cons a as)
  {
    case 1
    then show ?case using Cons(1) [of "Ack a s"] Ack_ok by simp
  next
    case 2
    then show ?case using Cons(2) [of "Ack a s"] by (simp add: Ack_def release_keeps)
  next
    case 3
    then show ?case using Cons(3) [of "Ack a s"] by (simp add: Ack_def)
  }
qed simp_all

text \<open>A packet of the peer arriving at \<open>d\<close>, for both directions of the link.\<close>

lemma handlePacket_flow:
  assumes cd: "flow w log c d wr gt" and dc: "flow v log' d c wr' gt'" and p: "good_packet log c p"
  shows "flow w log c (handlePacket (encoded p) d) wr gt \<and> flow v log' (handlePacket (encoded p) d) c wr' gt'
    \<and> (hasMessageBody p \<longrightarrow> has_received (receiver (handlePacket (encoded p) d)) (PacketID p))
    \<and> (\<forall>i. has_received (receiver d) i \<longrightarrow> has_received (receiver (handlePacket (encoded p) d)) i)
    \<and> closed (handlePacket (encoded p) d) = closed d"
proof -
  have wf: "packet_wf p" using p by (simp add: good_packet_def)
  have parse: "ParseControl (encoded p) = Ok p" using Parse_encoded [OF wf, of "[]"] by simp
  have op: "Opcode_of (encoded p) = Some (Opcode p, KeyID p)"
    using wf firstByte_opcode [OF IsControl_lt, of "Opcode p" "KeyID p"]
    by (simp add: Opcode_of_def encoded_def packet_wf_def)
  define d1 where "d1 = d\<lparr>remote := Some (SessionID p), sender := fold Ack (ACKs p) (sender d)\<rparr>"
  obtain out r where rcv: "Receive (PacketID p) (Payload p) (receiver d) = (out, r)" by fastforce
  have sid: "remote d = None \<or> remote d = Some (SessionID p)" using dc p by (auto simp: flow_def good_packet_def)
  have h: "handlePacket (encoded p) d = (if hasMessageBody p then d1\<lparr>receiver := r, inbound := inbound d @ filter (\<lambda>x. length x \<noteq> 0) out\<rparr> else d1)"
    using sid wf rcv by (auto simp: handlePacket_def op parse d1_def hasMessageBody_def packet_wf_def)
  have d1: "flow w log c d1 wr gt" using cd by (simp add: flow_def d1_def)
  have acked: "\<forall>a \<in> set (ACKs p). has_received (receiver c) a" using p by (simp add: good_packet_def)
  have d1': "flow v log' d1 c wr' gt'"
  proof -
    have "(\<exists>m \<in> set (inflight (fold Ack (ACKs p) (sender d))). msg_ID (out_msg m) = i) \<or> has_received (receiver c) i"
      if "unat i < length log'" for i
      using dc that acked fold_Ack(2) [of _ "sender d" "ACKs p"] unfolding flow_def by metis
    then show ?thesis using dc p fold_Ack(1) [of log' "sender d" "ACKs p"]
      by (auto simp: flow_def d1_def chan_ok_def good_packet_def)
  qed
  show ?thesis
  proof (cases "hasMessageBody p")
    case False
    then show ?thesis using d1 d1' h by (simp add: d1_def)
  next
    case True
    let ?d2 = "d1\<lparr>receiver := r, inbound := inbound d @ filter (\<lambda>x. length x \<noteq> 0) out\<rparr>"
    have "receiver_ok log (receiver d)" "in_log log (PacketID p) (Payload p)"
      using cd p True by (simp_all add: flow_def good_packet_def)
    note r = Receive_ok [OF this rcv]
    have rx: "receiver d1 = receiver d" "inbound d1 = inbound d" "readRem d1 = readRem d" "closed d1 = closed d" by (simp_all add: d1_def)
    have "gt @ readRem d @ concat (inbound d @ filter (\<lambda>x. length x \<noteq> 0) out) = concat (delivered log r)"
      using cd by (simp add: r(2) flow_def concat_nonempty flip: append_assoc)
    then have "flow w log c ?d2 wr gt" using d1 r(1,3) rx unfolding flow_def by auto
    moreover have "flow v log' ?d2 c wr' gt'"
      using d1' r(3,4) rx unfolding flow_def good_packet_def chan_ok_def by fastforce
    ultimately show ?thesis using h True r(3) rx by simp
  qed
qed

lemma handleDatagram_flow:
  assumes cd: "flow w log c d wr gt" and dc: "flow (wrapper e) log' d c wr' gt'"
    and m: "wrappers_match w (wrapper e)"
    and dg: "dg \<in> set (sent_log c) \<or> (\<exists>v. wrapper e = Some v \<and> fst (Unwrap v (wstate d) dg) = None)"
  shows "flow w log c (handleDatagram e dg d) wr gt \<and> flow (wrapper e) log' (handleDatagram e dg d) c wr' gt'"
proof (cases "wrapper e")
  case None
  then obtain p where "dg = encoded p" "good_packet log c p"
    using dg cd m by (auto simp: flow_def wrappers_match_def carried_def)
  then show ?thesis using handlePacket_flow [OF cd dc] None by (simp add: handleDatagram_def)
next
  case (Some v)
  obtain u ws where u: "Unwrap v (wstate d) dg = (u, ws)" by fastforce
  let ?d = "d\<lparr>wstate := ws\<rparr>"
  have d: "flow w log c ?d wr gt" "flow (wrapper e) log' ?d c wr' gt'"
    using cd dc by (simp_all add: flow_def chan_ok_def good_packet_def)
  show ?thesis
  proof (cases u)
    case None
    then show ?thesis using d Some u by (simp add: handleDatagram_def)
  next
    case (Some plain)
    then have "dg \<in> set (sent_log c)" using dg \<open>wrapper e = Some v\<close> u by auto
    then obtain p where p: "carried w (encoded p) dg" "good_packet log c p" using cd by (auto simp: flow_def)
    then have "fst (Unwrap v (wstate d) dg) \<in> {None, Some (encoded p)}"
      using m \<open>wrapper e = Some v\<close> by (simp add: wrappers_match_def)
    then have "plain = encoded p" using u Some by simp
    then show ?thesis using handlePacket_flow [OF d p(2)] \<open>wrapper e = Some v\<close> u Some by (simp add: handleDatagram_def)
  qed
qed

section \<open>Reachable links\<close>

lemma take_chunk_flow:
  assumes "flow w log c d wr gt" and "take_chunk c = Some (p, c')" and "length (log @ [p]) < 2 ^ 32"
  shows "flow w (log @ [p]) c' d wr gt"
proof -
  obtain rest where o: "outbound c = p # rest" "Ready (sender c)" "c' = c\<lparr>sender := snd (Queue p (sender c)), outbound := rest\<rparr>"
    using assms(2) by (auto simp: take_chunk_def split: if_splits list.splits)
  have s: "sender_ok log (sender c)" and r: "receiver_ok log (receiver d)" using assms(1) by (simp_all add: flow_def)
  have fl: "inflight (snd (Queue p (sender c))) =
      inflight (sender c) @ [\<lparr>out_msg = \<lparr>msg_ID = of_nat (length log), msg_Payload = p\<rparr>, lastSent = 0, everSent = False\<rparr>]"
    using o(2) s by (simp add: Queue_def Ready_def sender_ok_def)
  have "(\<exists>m \<in> set (inflight (snd (Queue p (sender c)))). msg_ID (out_msg m) = i) \<or> has_received (receiver d) i"
    if "unat i < length (log @ [p])" for i
  proof (cases "unat i < length log")
    case True
    then show ?thesis using assms(1) by (auto simp: flow_def fl)
  next
    case False
    then have "unat i = length log" using that by simp
    then have "i = of_nat (length log)" by (simp flip: \<open>unat i = length log\<close>)
    then show ?thesis by (simp add: fl)
  qed
  moreover have "good_packet log c q \<Longrightarrow> good_packet (log @ [p]) c' q" for q
    by (auto simp: good_packet_def o(3) intro: in_log_mono)
  then have "\<forall>dg \<in> set (sent_log c'). \<exists>q. carried w (encoded q) dg \<and> good_packet (log @ [p]) c' q"
    using assms(1) by (simp add: flow_def o(3)) blast
  ultimately show ?thesis
    using assms(1) Queue_ok(1) [OF s o(2) assms(3)] receiver_ok_mono [OF r assms(3)] delivered_mono [OF r, of "[p]"] o(1,3)
    by (simp add: flow_def chan_ok_def)
qed

lemma Read_stream:
  assumes "Read n c = (ReadOk bs, c')"
  shows "bs @ readRem c' @ concat (inbound c') = readRem c @ concat (inbound c)"
  using assms by (auto simp: Read_def split: if_splits list.splits)

lemma Read_flow:
  assumes "Read n c = (ReadOk bs, c')"
  shows "flow w log c d wr gt \<Longrightarrow> flow w log c' d wr gt" "flow w log d c wr gt \<Longrightarrow> flow w log d c' wr (gt @ bs)"
  using Read_stream [OF assms] assms
  by (auto simp: Read_def flow_def chan_ok_def good_packet_def split: if_splits list.splits)

lemma Write_flow:
  assumes "\<not> closed c"
  shows "flow w log c d wr gt \<Longrightarrow> flow w log (Write p c) d (wr @ p) gt" "flow w log d c wr gt \<Longrightarrow> flow w log d (Write p c) wr gt"
  using assms by (auto simp: Write_def flow_def chan_ok_def good_packet_def concat_chunks)

lemma Close_flow:
  "flow w log c d wr gt \<Longrightarrow> flow w log (Close c) d wr gt" "flow w log d c wr gt \<Longrightarrow> flow w log d (Close c) wr gt"
  by (auto simp: Close_def flow_def chan_ok_def good_packet_def)

lemma link_invI:
  assumes "flow (wrapper (e x)) (qlog L x) (chan L x) (chan L (\<not> x)) (wrote L x) (got L (\<not> x))"
    and "flow (wrapper (e (\<not> x))) (qlog L (\<not> x)) (chan L (\<not> x)) (chan L x) (wrote L (\<not> x)) (got L x)"
  shows "link_inv e L"
  unfolding link_inv_def
proof
  fix z show "flow (wrapper (e z)) (qlog L z) (chan L z) (chan L (\<not> z)) (wrote L z) (got L (\<not> z))"
    using assms by (cases "z = x") auto
qed

lemma link_invD:
  assumes "link_inv e L"
  shows "flow (wrapper (e x)) (qlog L x) (chan L x) (chan L (\<not> x)) (wrote L x) (got L (\<not> x))"
    "flow (wrapper (e (\<not> x))) (qlog L (\<not> x)) (chan L (\<not> x)) (chan L x) (wrote L (\<not> x)) (got L x)" "chan_ok (chan L x)"
  using spec [OF assms [unfolded link_inv_def], of x] spec [OF assms [unfolded link_inv_def], of "\<not> x"] by (simp_all add: flow_def)

lemma link_inv_start:
  assumes "key < 8" "length (sid True) = 8" "length (sid False) = 8"
  shows "link_inv e (new_link key tmo sid w)"
proof -
  have "sender_ok [[]] (snd (Queue [] (NewSender 0 tmo)))"
    using Queue_ok(1) [OF NewSender_ok [of 0 tmo], of "[]"] by (simp add: Ready_def NewSender_def DefaultWindow_def)
  moreover have "receiver_ok [[]] NewReceiver" by (simp add: receiver_ok_def NewReceiver_def)
  moreover have "inflight (snd (Queue [] (NewSender 0 tmo))) = [\<lparr>out_msg = \<lparr>msg_ID = 0, msg_Payload = []\<rparr>, lastSent = 0, everSent = False\<rparr>]"
    by (simp add: Queue_def NewSender_def DefaultWindow_def)
  moreover have "unat i < length [[] :: bytes] \<Longrightarrow> i = 0" for i :: u32 by (simp add: unat_eq_0)
  ultimately show ?thesis using assms
    by (intro link_invI [of _ True])
       (simp_all add: flow_def new_link_def New_client_def NewServer_def newChannel_def chan_ok_def IsControl_def
         NewReceiver_def delivered_def)
qed

lemma link_inv_step:
  assumes "link_step e L L'" and "link_inv e L" and m: "\<forall>x. wrappers_match (wrapper (e x)) (wrapper (e (\<not> x)))"
  shows "link_inv e L'"
  using assms(1)
proof cases
  case (tick x now)
  note f = link_invD [OF assms(2), of x] link_invD(3) [OF assms(2), of "\<not> x"]
  show ?thesis unfolding tick(1) using transmit_flow [OF f(1,4), where now = now] f(2) by (intro link_invI [of _ x]) simp_all
next
  case (arrive x dg)
  note f = link_invD [OF assms(2), of x]
  have "wrappers_match (wrapper (e (\<not> x))) (wrapper (e x))" using m [rule_format, of "\<not> x"] by simp
  from handleDatagram_flow [OF f(2,1) this] arrive(3) show ?thesis
    unfolding arrive(1) by (intro link_invI [of _ x]) simp_all
next
  case (forged x w dg)
  note f = link_invD [OF assms(2), of x]
  have "wrappers_match (wrapper (e (\<not> x))) (wrapper (e x))" using m [rule_format, of "\<not> x"] by simp
  from handleDatagram_flow [OF f(2,1) this] forged(3,4) show ?thesis
    unfolding forged(1) by (intro link_invI [of _ x]) simp_all
next
  case (tls_write x p)
  show ?thesis unfolding tls_write(1) using Write_flow [OF tls_write(2)] link_invD(1,2) [OF assms(2), of x]
    by (intro link_invI [of _ x]) simp_all
next
  case (next_chunk x p c)
  note f = link_invD [OF assms(2), of x]
  have "\<exists>rest s. c = (chan L x)\<lparr>sender := s, outbound := rest\<rparr>"
    using next_chunk(2) by (auto simp: take_chunk_def split: if_splits list.splits)
  then have "flow (wrapper (e (\<not> x))) (qlog L (\<not> x)) (chan L (\<not> x)) c (wrote L (\<not> x)) (got L x)"
    by (intro flow_dest [OF f(2)]) auto
  then show ?thesis unfolding next_chunk(1) using take_chunk_flow [OF f(1) next_chunk(2,3)]
    by (intro link_invI [of _ x]) simp_all
next
  case (tls_read n x bs c)
  show ?thesis unfolding tls_read(1) using Read_flow [OF tls_read(2)] link_invD(1,2) [OF assms(2), of x]
    by (intro link_invI [of _ x]) simp_all
next
  case (shut x)
  show ?thesis unfolding shut using Close_flow link_invD(1,2) [OF assms(2), of x] by (intro link_invI [of _ x]) simp_all
qed

lemma link_inv_reach:
  assumes "link_reach e L" and "\<forall>x. wrappers_match (wrapper (e x)) (wrapper (e (\<not> x)))"
  shows "link_inv e L"
  using assms(1)
proof (induction rule: link_reach.induct)
  case (step L L')
  show ?case by (rule link_inv_step [OF step(2,3) assms(2)])
qed (rule link_inv_start)

section \<open>The byte stream\<close>

text \<open>
  C13: Two control channels over a network that loses, repeats, reorders and (when the channels are
  wrapped) forges datagrams: what TLS reads on one side is at every moment a prefix of what TLS
  wrote on the other, so no octet is lost, repeated, reordered or invented; and the sender has
  forgotten a message only if the receiver holds it.
\<close>

theorem control_stream_prefix:
  assumes "link_reach e L" and "\<forall>x. wrappers_match (wrapper (e x)) (wrapper (e (\<not> x)))"
  shows "prefix (got L x) (wrote L (\<not> x))
    \<and> (\<forall>i. unat i < length (qlog L x) \<longrightarrow> (\<exists>m \<in> set (inflight (sender (chan L x))). msg_ID (out_msg m) = i)
          \<or> has_received (receiver (chan L (\<not> x))) i)"
proof -
  note f = link_invD [OF link_inv_reach [OF assms], of x]
  let ?log = "qlog L (\<not> x)" and ?c = "chan L x"
  have "got L x @ readRem ?c @ concat (inbound ?c) = concat (delivered ?log (receiver ?c))"
    "concat ?log @ concat (outbound (chan L (\<not> x))) = wrote L (\<not> x)"
    using f(2) by (simp_all add: flow_def)
  moreover have "concat ?log = concat (delivered ?log (receiver ?c)) @ concat (drop (unat (rcv_next (receiver ?c))) ?log)"
    unfolding delivered_def by (simp flip: concat_append)
  ultimately have "wrote L (\<not> x) = got L x @ (readRem ?c @ concat (inbound ?c)
      @ concat (drop (unat (rcv_next (receiver ?c))) ?log) @ concat (outbound (chan L (\<not> x))))"
    by (metis append_assoc)
  then show ?thesis using f(1) by (auto simp: flow_def prefix_def)
qed

text \<open>A plain channel whose socket takes everything sends one packet for each message that is due.\<close>

lemma sendMessage_emits:
  assumes "wrapper e = None" "send_ok e = (\<lambda>_. True)" and "flow w log c d wr gt" and "chan_ok d"
    and "in_log log (msg_ID m) (msg_Payload m)" and "\<forall>a \<in> set acks. has_received (receiver c) a" "length acks \<le> 4"
  shows "\<exists>p. sent_log (sendMessage e m acks c) = sent_log c @ [encoded p] \<and> PacketID p = msg_ID m \<and> packet_wf p \<and> hasMessageBody p"
proof -
  let ?p = "attachACKs c acks \<lparr>Opcode = (if msg_ID m = 0 then hardResetOpcode c else PControlV1), KeyID = keyID c,
    SessionID = local_id c, ACKs = [], RemoteSessionID = replicate 8 0, PacketID = msg_ID m, Payload = msg_Payload m\<rparr>"
  have g: "good_packet log c ?p" by (rule message_good [OF assms(3-7)])
  then have "Marshal ?p (replicate (MarshalLen ?p) 0) = Ok (encoded ?p)"
    by (intro Marshal_encoded) (simp_all add: good_packet_def packet_wf_def)
  then have "sent_log (sendMessage e m acks c) = sent_log c @ [encoded ?p]"
    using assms(1,2) by (simp add: sendMessage_def writePacket_def send_out_def)
  moreover have "PacketID ?p = msg_ID m" "Opcode ?p \<noteq> PACKV1"
    using assms(3) by (auto simp: attachACKs_def flow_def chan_ok_def split: option.split)
  ultimately show ?thesis using g by (intro exI [of _ ?p]) (simp add: good_packet_def hasMessageBody_def)
qed

lemma sent_log_mono:
  assumes "wrapper e = None" "send_ok e = (\<lambda>_. True)"
  shows "set (sent_log c) \<subseteq> set (sent_log (writePacket e p c))"
  using assms by (auto simp: writePacket_def send_out_def fail_with_def Close_def split: sum.split)

lemma send_due_emits:
  assumes e: "wrapper e = None" "send_ok e = (\<lambda>_. True)" and "flow None log c d wr gt" "chan_ok d" "length acks \<le> 4"
    "\<forall>m \<in> set ms. in_log log (msg_ID m) (msg_Payload m)" "\<forall>a \<in> set acks. has_received (receiver c) a"
  shows "set (sent_log c) \<subseteq> set (sent_log (snd (send_due e ms acks c)))
    \<and> (\<forall>m \<in> set ms. \<exists>p. encoded p \<in> set (sent_log (snd (send_due e ms acks c))) \<and> PacketID p = msg_ID m \<and> packet_wf p \<and> hasMessageBody p)"
  using assms(3-)
proof (induction ms arbitrary: acks c)
  case (Cons n ms)
  let ?c = "sendMessage e n acks c"
  have n: "in_log log (msg_ID n) (msg_Payload n)" using Cons.prems(4) by simp
  have f: "flow None log ?c d wr gt" "core ?c = core c"
    using flow_sendMessage [of e log c d wr gt n acks] Cons.prems e n by simp_all
  obtain p where p: "sent_log ?c = sent_log c @ [encoded p]" "PacketID p = msg_ID n" "packet_wf p" "hasMessageBody p"
    using sendMessage_emits [OF e Cons.prems(1,2) n Cons.prems(5,3)] by blast
  have ih: "set (sent_log ?c) \<subseteq> set (sent_log (snd (send_due e ms [] ?c)))
    \<and> (\<forall>m \<in> set ms. \<exists>p. encoded p \<in> set (sent_log (snd (send_due e ms [] ?c))) \<and> PacketID p = msg_ID m \<and> packet_wf p \<and> hasMessageBody p)"
    using f(1) Cons.prems(2,4) by (intro Cons.IH) simp_all
  then have "encoded p \<in> set (sent_log (snd (send_due e ms [] ?c)))" using p(1) by auto
  then show ?case using ih p by auto
qed simp

lemma transmit_emits:
  assumes e: "wrapper e = None" "send_ok e = (\<lambda>_. True)" and f: "flow None log c d wr gt" "chan_ok d"
    and m: "m \<in> set (fst (Due now (sender c)))"
  shows "\<exists>p. encoded p \<in> set (sent_log (transmit e now c)) \<and> PacketID p = msg_ID m \<and> packet_wf p \<and> hasMessageBody p"
proof -
  obtain acks c1 where p: "prepared now c = (acks, c1)" by fastforce
  note pf = prepared_flow [OF f(1) p]
  have l: "\<forall>m \<in> set (fst (Due now (sender c))). in_log log (msg_ID m) (msg_Payload m)"
    using f(1) Due_ok(2) [of log "sender c" now] by (auto simp: flow_def sender_ok_def)
  let ?c2 = "snd (send_due e (fst (Due now (sender c))) acks c1)"
  obtain p where "encoded p \<in> set (sent_log ?c2)" "PacketID p = msg_ID m" "packet_wf p" "hasMessageBody p"
    using send_due_emits [OF e pf(1) f(2) pf(3) l pf(2)] m by blast
  moreover have "set (sent_log ?c2) \<subseteq> set (sent_log (transmit e now c))"
    using sent_log_mono [OF e] by (auto simp: transmit_prepared \<open>prepared now c = (acks, c1)\<close> sendACK_def Let_def case_prod_beta)
  ultimately show ?thesis by blast
qed

text \<open>Whatever of the peer's packets arrive, in whatever order: what they carry is held afterwards.\<close>

lemma arrivals:
  assumes "flow None log c d wr gt" and "flow None log' d c wr' gt'" and "wrapper e = None" and "set dgs \<subseteq> set (sent_log c)"
  shows "flow None log c (fold (handleDatagram e) dgs d) wr gt
    \<and> (\<forall>i. has_received (receiver d) i \<longrightarrow> has_received (receiver (fold (handleDatagram e) dgs d)) i)
    \<and> (\<forall>p. encoded p \<in> set dgs \<and> packet_wf p \<and> hasMessageBody p \<longrightarrow> has_received (receiver (fold (handleDatagram e) dgs d)) (PacketID p))"
  using assms
proof (induction dgs arbitrary: d)
  case (Cons dg dgs)
  obtain p where p: "dg = encoded p" "good_packet log c p" using Cons.prems(1,4) by (auto simp: flow_def carried_def)
  have h: "handleDatagram e dg d = handlePacket (encoded p) d" using Cons.prems(3) p by (simp add: handleDatagram_def)
  note hp = handlePacket_flow [OF Cons.prems(1,2) p(2), folded h]
  have "packet_wf q \<Longrightarrow> encoded q = dg \<Longrightarrow> q = p" for q
    using Parse_encoded [of q "[]"] Parse_encoded [of p "[]"] p by (auto simp: good_packet_def)
  then show ?case using Cons.IH [of "handleDatagram e dg d"] hp Cons.prems(3,4) by auto
qed simp


section \<open>A concrete link\<close>

definition example_chan_env :: "unit chan_env" where
  "example_chan_env = \<lparr>wrapper = None, send_ok = (\<lambda>_. True)\<rparr>"

definition example_link :: "unit link" where
  "example_link = new_link 0 0 (\<lambda>x. replicate 8 (if x then 1 else 2)) (\<lambda>_. ())"

lemma example_link_reach: "link_reach (\<lambda>_. example_chan_env) example_link"
  unfolding example_link_def by (rule link_reach.start) simp_all

theorem control_stream_prefix_witness:
  "link_reach (\<lambda>_. example_chan_env) example_link
   \<and> (\<forall>x. wrappers_match (wrapper example_chan_env) (wrapper example_chan_env))
   \<and> prefix (got example_link True) (wrote example_link False)"
  using control_stream_prefix [OF example_link_reach, of True] example_link_reach
  by (simp add: wrappers_match_def example_chan_env_def)


end
