(* ===== verification/Ovpn_Keys.thy ===== *)
theory Ovpn_Keys
  imports Crypto
begin

text \<open>
  OpenVPN's key method 2, \<^verbatim>\<open>internal/openvpn/keys\<close>: the key material either side sends over the control channel, the
  two messages with their parsers, and the derivation of the data keys with the TLS 1.0 PRF.  The two HMACs of the PRF are
  functions of a record; \<open>kd_ok\<close> states their output lengths.  Fixed-size arrays are octet lists.  The loop of
  \<^verbatim>\<open>pHash\<close> would not end for a MAC without output, so it is a partial function.
\<close>

section \<open>Key derivation\<close>

record kd_prims =
  hmac_md5 :: "bytes \<Rightarrow> bytes \<Rightarrow> bytes"
  hmac_sha1 :: "bytes \<Rightarrow> bytes \<Rightarrow> bytes"

definition kd_ok :: "kd_prims \<Rightarrow> bool" where
  "kd_ok K \<longleftrightarrow> (\<forall>k m. length (hmac_md5 K k m) = 16) \<and> (\<forall>k m. length (hmac_sha1 K k m) = 20)"

record KeySource =
  PreMaster :: bytes
  Random1 :: bytes
  Random2 :: bytes

record DataKeys =
  EncryptKey :: bytes
  EncryptIV :: bytes
  DecryptKey :: bytes
  DecryptIV :: bytes

record CBCKeys =
  cbcEncryptKey :: bytes
  EncryptHMAC :: bytes
  cbcDecryptKey :: bytes
  DecryptHMAC :: bytes

partial_function (option) pHash_loop :: "(bytes \<Rightarrow> bytes) \<Rightarrow> bytes \<Rightarrow> nat \<Rightarrow> bytes \<Rightarrow> bytes \<Rightarrow> bytes option" where
  "pHash_loop mac seed n a out =
     (if length out < n then (let a = mac a in pHash_loop mac seed n a (out @ mac (a @ seed))) else Some out)"

definition pHash :: "(bytes \<Rightarrow> bytes \<Rightarrow> bytes) \<Rightarrow> bytes \<Rightarrow> bytes \<Rightarrow> nat \<Rightarrow> bytes option" where
  "pHash h secret seed n = map_option (take n) (pHash_loop (h secret) seed n seed [])"

definition tls_prf :: "kd_prims \<Rightarrow> bytes \<Rightarrow> bytes \<Rightarrow> nat \<Rightarrow> bytes option" where
  "tls_prf K secret seed n =
     (let half = (length secret + 1) div 2;
          s1 = take half secret;
          s2 = drop (length secret - half) secret
      in case pHash (hmac_md5 K) s1 seed n of
           None \<Rightarrow> None
         | Some out \<Rightarrow> map_option (map2 (XOR) out) (pHash (hmac_sha1 K) s2 seed n))"

text \<open>The slots of one side: cipher and HMAC slot to send with, and to receive with.\<close>

definition deriveSlots :: "kd_prims \<Rightarrow> KeySource \<Rightarrow> KeySource \<Rightarrow> bytes \<Rightarrow> bytes \<Rightarrow> bool \<Rightarrow> (bytes \<times> bytes \<times> bytes \<times> bytes) option" where
  "deriveSlots K client server clientSID serverSID isServer =
     (case tls_prf K (PreMaster client) (ascii ''OpenVPN master secret'' @ Random1 client @ Random1 server) 48 of
        None \<Rightarrow> None
      | Some master \<Rightarrow>
          let seed = ascii ''OpenVPN key expansion'' @ Random2 client @ Random2 server @ clientSID @ serverSID in
          map_option (\<lambda>block.
            let slot0Cipher = slice 0 64 block; slot0HMAC = slice 64 128 block;
                slot1Cipher = slice 128 192 block; slot1HMAC = slice 192 256 block
            in if isServer then (slot1Cipher, slot1HMAC, slot0Cipher, slot0HMAC)
               else (slot0Cipher, slot0HMAC, slot1Cipher, slot1HMAC)) (tls_prf K master seed 256))"

definition Derive :: "kd_prims \<Rightarrow> KeySource \<Rightarrow> KeySource \<Rightarrow> bytes \<Rightarrow> bytes \<Rightarrow> bool \<Rightarrow> DataKeys option" where
  "Derive K client server clientSID serverSID isServer =
     map_option (\<lambda>(sendCipher, sendHMAC, recvCipher, recvHMAC).
       \<lparr>EncryptKey = take 32 sendCipher, EncryptIV = take 8 sendHMAC, DecryptKey = take 32 recvCipher, DecryptIV = take 8 recvHMAC\<rparr>)
       (deriveSlots K client server clientSID serverSID isServer)"

definition DeriveCBC :: "kd_prims \<Rightarrow> KeySource \<Rightarrow> KeySource \<Rightarrow> bytes \<Rightarrow> bytes \<Rightarrow> bool \<Rightarrow> CBCKeys option" where
  "DeriveCBC K client server clientSID serverSID isServer =
     map_option (\<lambda>(sendCipher, sendHMAC, recvCipher, recvHMAC).
       \<lparr>cbcEncryptKey = take 32 sendCipher, EncryptHMAC = sendHMAC, cbcDecryptKey = take 32 recvCipher, DecryptHMAC = recvHMAC\<rparr>)
       (deriveSlots K client server clientSID serverSID isServer)"

section \<open>The messages\<close>

datatype key_error = ErrShortMessage | ErrBadKeyMethod

definition appendString :: "bytes \<Rightarrow> bytes \<Rightarrow> bytes" where
  "appendString b s = b @ be16 (of_nat (length s + 1)) @ s @ [0]"

definition MarshalClient :: "KeySource \<Rightarrow> bytes \<Rightarrow> bytes \<Rightarrow> bytes \<Rightarrow> bytes \<Rightarrow> bytes" where
  "MarshalClient ks options username password peerInfo =
     (let b = [0, 0, 0, 0, 2] @ PreMaster ks @ Random1 ks @ Random2 ks;
          b = appendString b options;
          b = appendString b username;
          b = appendString b password
      in b @ be16 (of_nat (length peerInfo)) @ peerInfo)"

definition MarshalServer :: "KeySource \<Rightarrow> bytes \<Rightarrow> bytes" where
  "MarshalServer ks options = appendString ([0, 0, 0, 0, 2] @ Random1 ks @ Random2 ks) options"

definition readString :: "bytes \<Rightarrow> nat \<Rightarrow> key_error + (bytes \<times> nat)" where
  "readString b off =
     (if off + 2 > length b then Err ErrShortMessage
      else let n = unat (get16 off b); off = off + 2 in
      if n = 0 \<or> off + n > length b then Err ErrShortMessage
      else Ok (slice off (off + n - 1) b, off + n))"

definition readStringField :: "bytes \<Rightarrow> nat \<Rightarrow> key_error + (bytes \<times> nat)" where
  "readStringField b off =
     (if off + 2 > length b then Err ErrShortMessage
      else let n = unat (get16 off b); off = off + 2 in
      if n = 0 then Ok ([], off)
      else if off + n > length b then Err ErrShortMessage
      else Ok (slice off (off + n - 1) b, off + n))"

definition ParseServer :: "bytes \<Rightarrow> key_error + (KeySource \<times> bytes)" where
  "ParseServer b =
     (if length b < 5 + 2 * 32 + 2 then Err ErrShortMessage
      else if b ! 4 \<noteq> 2 then Err ErrBadKeyMethod
      else case readString b 69 of
        Err e \<Rightarrow> Err e
      | Ok (options, _) \<Rightarrow> Ok (\<lparr>PreMaster = replicate 48 0, Random1 = slice 5 37 b, Random2 = slice 37 69 b\<rparr>, options))"

record ClientHello =
  ch_KeySource :: KeySource
  ch_Options :: bytes
  ch_Username :: bytes
  ch_Password :: bytes
  ch_PeerInfo :: bytes

definition ParseClient :: "bytes \<Rightarrow> key_error + ClientHello" where
  "ParseClient b =
     (if length b < 5 + 48 + 2 * 32 then Err ErrShortMessage
      else if b ! 4 \<noteq> 2 then Err ErrBadKeyMethod
      else let h = \<lparr>ch_KeySource = \<lparr>PreMaster = slice 5 53 b, Random1 = slice 53 85 b, Random2 = slice 85 117 b\<rparr>,
                    ch_Options = [], ch_Username = [], ch_Password = [], ch_PeerInfo = []\<rparr> in
      case readStringField b 117 of Err e \<Rightarrow> Err e | Ok (options, off) \<Rightarrow>
      let h = h\<lparr>ch_Options := options\<rparr> in
      if off \<ge> length b then Ok h
      else case readStringField b off of Err e \<Rightarrow> Err e | Ok (username, off) \<Rightarrow>
      let h = h\<lparr>ch_Username := username\<rparr> in
      if off \<ge> length b then Ok h
      else case readStringField b off of Err e \<Rightarrow> Err e | Ok (password, off) \<Rightarrow>
      let h = h\<lparr>ch_Password := password\<rparr> in
      if off + 2 \<le> length b then
        (let n = unat (get16 off b); off = off + 2 in
         if n > 0 \<and> off + n \<le> length b then Ok (h\<lparr>ch_PeerInfo := slice off (off + n) b\<rparr>) else Ok h)
      else Ok h)"

section \<open>The derivation returns\<close>

lemma pHash_loop_returns:
  assumes "\<And>m. length (mac m) = sz" and "0 < sz"
  shows "\<exists>out'. pHash_loop mac seed n a out = Some out' \<and> n \<le> length out'"
proof (induction "n - length out" arbitrary: a out rule: less_induct)
  case less
  show ?case
  proof (cases "length out < n")
    case True
    then have "n - length (out @ mac (mac a @ seed)) < n - length out" using assms by simp
    from less [OF this] show ?thesis using True by (subst pHash_loop.simps) (simp add: Let_def)
  qed (subst pHash_loop.simps, simp)
qed

lemma pHash_returns:
  assumes "\<And>m. length (h secret m) = sz" and "0 < sz"
  shows "\<exists>out. pHash h secret seed n = Some out \<and> length out = n"
  using pHash_loop_returns [where mac = "h secret" and seed = seed and n = n and a = seed and out = "[]", OF assms] by (auto simp: pHash_def)

lemma tls_prf_returns:
  assumes "kd_ok K"
  shows "\<exists>out. tls_prf K secret seed n = Some out \<and> length out = n"
proof -
  let ?s1 = "take ((length secret + 1) div 2) secret" and ?s2 = "drop (length secret - (length secret + 1) div 2) secret"
  obtain a where a: "pHash (hmac_md5 K) ?s1 seed n = Some a" "length a = n"
    using pHash_returns [of "hmac_md5 K" ?s1 16 seed n] assms by (auto simp: kd_ok_def)
  obtain b where b: "pHash (hmac_sha1 K) ?s2 seed n = Some b" "length b = n"
    using pHash_returns [of "hmac_sha1 K" ?s2 20 seed n] assms by (auto simp: kd_ok_def)
  show ?thesis using a b by (simp add: tls_prf_def Let_def)
qed

text \<open>Both sides get the slots of one block, with the directions exchanged, whatever pre-master the server's own source holds.\<close>

lemma deriveSlots_mirrored:
  assumes "kd_ok K"
  shows "\<exists>a b c d. deriveSlots K client (server\<lparr>PreMaster := x\<rparr>) cs ss False = Some (a, b, c, d)
     \<and> deriveSlots K client server cs ss True = Some (c, d, a, b)
     \<and> length a = 64 \<and> length b = 64 \<and> length c = 64 \<and> length d = 64"
proof -
  obtain m where m: "tls_prf K (PreMaster client) (ascii ''OpenVPN master secret'' @ Random1 client @ Random1 server) 48 = Some m"
    using tls_prf_returns [OF assms] by blast
  obtain blk where "tls_prf K m (ascii ''OpenVPN key expansion'' @ Random2 client @ Random2 server @ cs @ ss) 256 = Some blk" "length blk = 256"
    using tls_prf_returns [OF assms] by blast
  then show ?thesis using m by (simp add: deriveSlots_def Let_def)
qed

section \<open>The messages parse back\<close>

definition source_ok :: "KeySource \<Rightarrow> bool" where
  "source_ok ks \<longleftrightarrow> length (PreMaster ks) = 48 \<and> length (Random1 ks) = 32 \<and> length (Random2 ks) = 32"

lemma readStringField_at:
  assumes "length b = off" and "length s < 65535"
  shows "readStringField (appendString b s @ r) off = Ok (s, off + length s + 3)"
proof -
  have n: "unat (of_nat (length s + 1) :: u16) = length s + 1" using assms(2) by (intro unat_of_nat_small) simp
  have e: "appendString b s @ r = b @ be16 (of_nat (length s + 1)) @ s @ [0] @ r" by (simp add: appendString_def)
  have g: "get16 off (appendString b s @ r) = of_nat (length s + 1)" unfolding e using assms(1) by (simp only: get16_append) simp
  have "slice (off + 2) (off + 2 + length s) (appendString b s @ r) = s" unfolding e using assms(1) by (simp add: slice_def)
  then show ?thesis
    unfolding readStringField_def Let_def g n using assms(1) by (simp add: appendString_def)
qed

lemma readString_at:
  assumes "length b = off" and "length s < 65535"
  shows "readString (appendString b s @ r) off = Ok (s, off + length s + 3)"
proof -
  have l: "off + 2 \<le> length (appendString b s @ r)" using assms(1) by (simp add: appendString_def)
  have "unat (of_nat (length s + 1) :: u16) = length s + 1" using assms(2) by (intro unat_of_nat_small) simp
  moreover have "get16 off (appendString b s @ r) = of_nat (length s + 1)"
    unfolding appendString_def append_assoc using assms(1) by (simp only: get16_append) simp
  ultimately have "unat (get16 off (appendString b s @ r)) \<noteq> 0" by simp
  then show ?thesis using readStringField_at [OF assms, of r] l by (simp add: readString_def readStringField_def Let_def split: if_splits)
qed

lemma ParseServer_MarshalServer:
  assumes "source_ok ks" and "length options < 65535"
  shows "ParseServer (MarshalServer ks options) = Ok (ks\<lparr>PreMaster := replicate 48 0\<rparr>, options)"
proof -
  define b where "b = [0, 0, 0, 0, 2 :: byte] @ Random1 ks @ Random2 ks"
  have l: "length b = 69" using assms(1) by (simp add: b_def source_ok_def)
  have r: "readString (appendString b options) 69 = Ok (options, 72 + length options)"
    using readString_at [OF l assms(2), of "[]"] by simp
  have s: "slice 5 37 (appendString b options) = Random1 ks" "slice 37 69 (appendString b options) = Random2 ks" "appendString b options ! 4 = 2"
    using assms(1) by (simp_all add: appendString_def b_def slice_def source_ok_def)
  have "71 \<le> length (appendString b options)" using l by (simp add: appendString_def)
  then show ?thesis unfolding MarshalServer_def b_def [symmetric] by (simp add: ParseServer_def r s)
qed

lemma ParseClient_MarshalClient:
  assumes "source_ok ks" and "length options < 65535" "length username < 65535" "length password < 65535" "length peerInfo < 65536"
  shows "ParseClient (MarshalClient ks options username password peerInfo) =
     Ok \<lparr>ch_KeySource = ks, ch_Options = options, ch_Username = username, ch_Password = password, ch_PeerInfo = peerInfo\<rparr>"
proof -
  define b0 where "b0 = [0, 0, 0, 0, 2 :: byte] @ PreMaster ks @ Random1 ks @ Random2 ks"
  define b1 b2 b3 where "b1 = appendString b0 options" and "b2 = appendString b1 username" and "b3 = appendString b2 password"
  define t where "t = be16 (of_nat (length peerInfo)) @ peerInfo"
  have l0: "length b0 = 117" using assms(1) by (simp add: b0_def source_ok_def)
  have l1: "length b1 = 117 + length options + 3" using l0 by (simp add: b1_def appendString_def)
  have l2: "length b2 = length b1 + length username + 3" by (simp add: b2_def appendString_def)
  have l3: "length b3 = length b2 + length password + 3" by (simp add: b3_def appendString_def)
  have m: "MarshalClient ks options username password peerInfo = b3 @ t"
    by (simp add: MarshalClient_def Let_def b0_def b1_def b2_def b3_def t_def)
  obtain r1 where r1: "b2 = b1 @ r1" by (simp add: b2_def appendString_def)
  obtain r2 where r2: "b3 = b2 @ r2" by (simp add: b3_def appendString_def)
  have f0: "readStringField (b3 @ t) 117 = Ok (options, length b1)"
    using readStringField_at [OF l0 assms(2), of "r1 @ r2 @ t"] l1 by (simp add: r1 r2 flip: b1_def)
  have f1: "readStringField (b3 @ t) (length b1) = Ok (username, length b2)"
    using readStringField_at [OF refl assms(3), of b1 "r2 @ t"] l2 by (simp add: r2 flip: b2_def)
  have f2: "readStringField (b3 @ t) (length b2) = Ok (password, length b3)"
    using readStringField_at [OF refl assms(4), of b2 t] l3 by (simp flip: b3_def)
  have n: "unat (get16 (length b3) (b3 @ t)) = length peerInfo"
    using assms(5) unat_of_nat_small [of "length peerInfo", where 'a = 16] by (simp add: get16_append t_def)
  have p: "slice (length b3 + 2) (length b3 + 2 + length peerInfo) (b3 @ t) = peerInfo" by (simp add: slice_def t_def)
  have tl: "length t = length peerInfo + 2" by (simp add: t_def)
  obtain r0 where r0: "b3 @ t = b0 @ r0" by (simp add: b1_def b2_def b3_def appendString_def)
  have k: "slice 5 53 (b3 @ t) = PreMaster ks" "slice 53 85 (b3 @ t) = Random1 ks" "slice 85 117 (b3 @ t) = Random2 ks" "(b3 @ t) ! 4 = 2"
    unfolding r0 using assms(1) by (simp_all add: b0_def slice_def source_ok_def)
  define L where "L = length (b3 @ t)"
  have lt: "\<not> L < 5 + 48 + 2 * 32" "\<not> L \<le> length b1" "\<not> L \<le> length b2" "length b3 + 2 + length peerInfo = L"
    using l1 l2 l3 tl by (simp_all add: L_def)
  then have "length b3 + 2 \<le> L" by linarith
  then show ?thesis
    unfolding m ParseClient_def L_def [symmetric] using lt p [unfolded lt(4)] by (cases "peerInfo = []") (simp_all add: f0 f1 f2 k n p Let_def)
qed

end
