(* ===== verification/Ovpn_Data.thy ===== *)
theory Ovpn_Data
  imports Ovpn_Keys Channel Inner_Packet
begin

text \<open>
  The OpenVPN data channel, \<^verbatim>\<open>internal/openvpn/data\<close>: AES-256-GCM with the tag in front of the ciphertext
  (\<^verbatim>\<open>data.go\<close>) and AES-256-CBC with an HMAC (\<^verbatim>\<open>cbc.go\<close>), both behind the same replay window, and the tunnel of
  \<^verbatim>\<open>internal/openvpn/session.go\<close> that carries IP packets over either.  The compare-and-swap loop of the packet counter is one step, and
  buffers that are reused between calls are values.
\<close>

section \<open>Packet counter and header\<close>

datatype data_error = DataShort | DataReplay | CounterExhausted | DataAuth | AEADFailed | DataRand | DataKeySize | DataPanic | NotIP

definition makeHeader :: "u32 \<Rightarrow> byte \<Rightarrow> bytes" where
  "makeHeader peerID keyID =
     [push_bit 3 9 OR (keyID AND 0x07), ucast (drop_bit 16 peerID), ucast (drop_bit 8 peerID), ucast peerID]"

definition IsPing :: "bytes \<Rightarrow> bool" where
  "IsPing p \<longleftrightarrow> p = [0x2a, 0x18, 0x7b, 0xf3, 0x64, 0x1e, 0xb4, 0xcb, 0x07, 0xed, 0x2d, 0x0a, 0x98, 0x1f, 0xc7, 0x48]"

definition nextPacketID :: "u32 \<Rightarrow> (u32 \<times> u32) option" where
  "nextPacketID c = (if c = - 1 then None else Some (c + 1, c + 1))"

section \<open>AES-256-GCM\<close>

record DataCipher =
  ci_send :: bytes
  ci_recv :: bytes
  ci_sendIV :: bytes
  ci_recvIV :: bytes
  ci_header :: bytes
  ci_counter :: u32
  ci_recvNonce :: bytes
  ci_replay :: ovpn_window

definition New_data :: "DataKeys \<Rightarrow> u32 \<Rightarrow> byte \<Rightarrow> data_error + DataCipher" where
  "New_data dk peerID keyID =
     (if \<not> aes_key_ok (EncryptKey dk) then Err DataKeySize
      else if \<not> aes_key_ok (DecryptKey dk) then Err DataKeySize
      else Ok \<lparr>ci_send = EncryptKey dk, ci_recv = DecryptKey dk, ci_sendIV = EncryptIV dk, ci_recvIV = DecryptIV dk,
               ci_header = makeHeader peerID keyID, ci_counter = 0, ci_recvNonce = replicate 4 0 @ DecryptIV dk, ci_replay = ovpn_window0\<rparr>)"

definition sealExact :: "prims \<Rightarrow> DataCipher \<Rightarrow> bytes \<Rightarrow> u32 \<Rightarrow> bytes" where
  "sealExact P c plaintext pid =
     (let n = length plaintext;
          aad = ci_header c @ be32 pid;
          nonce = be32 pid @ ci_sendIV c;
          sealed = aad @ aead_seal P AESGCM (ci_send c) nonce aad plaintext;
          tag = slice (8 + n) (8 + n + 16) sealed;
          sealed = put_at 24 (slice 8 (8 + n) sealed) sealed
      in put_at 8 tag sealed)"

definition data_seal :: "prims \<Rightarrow> DataCipher \<Rightarrow> bytes \<Rightarrow> int \<Rightarrow> (data_error + bytes) \<times> DataCipher" where
  "data_seal P c plaintext minInner = (case nextPacketID (ci_counter c) of
     None \<Rightarrow> (Err CounterExhausted, c)
   | Some (pid, n) \<Rightarrow>
       let c = c\<lparr>ci_counter := n\<rparr> in
       if minInner > int (length plaintext) then
         (Ok (sealExact P c (plaintext @ replicate (nat minInner - length plaintext) 0) pid), c)
       else (Ok (sealExact P c plaintext pid), c))"

definition data_Open :: "prims \<Rightarrow> DataCipher \<Rightarrow> bytes \<Rightarrow> (data_error + bytes) \<times> DataCipher" where
  "data_Open P c pkt =
     (if length pkt < 24 then (Err DataShort, c)
      else let pid = get32 4 pkt;
               n = length pkt - 24;
               tag = slice 8 24 pkt;
               pkt = put_at 8 (slice 24 (24 + n) pkt) pkt;
               pkt = put_at (8 + n) tag pkt;
               c = c\<lparr>ci_recvNonce := put_at 0 (be32 pid) (ci_recvNonce c)\<rparr>
           in case aead_open P AESGCM (ci_recv c) (ci_recvNonce c) (take 8 pkt) (slice 8 (8 + n + 16) pkt) of
                None \<Rightarrow> (Err AEADFailed, c)
              | Some plaintext \<Rightarrow>
                  let (ok, w) = ovpn_accept (ci_replay c) pid; c = c\<lparr>ci_replay := w\<rparr> in
                  if \<not> ok then (Err DataReplay, c) else (Ok plaintext, c))"

section \<open>AES-256-CBC with HMAC\<close>

record CBCCipher =
  cb_enc :: bytes
  cb_dec :: bytes
  cb_encHMAC :: bytes
  cb_decHMAC :: bytes
  cb_newHash :: hash_alg
  cb_hashSize :: nat
  cb_header :: bytes
  cb_counter :: u32
  cb_replay :: ovpn_window

definition NewCBC :: "CBCKeys \<Rightarrow> hash_alg \<Rightarrow> nat \<Rightarrow> u32 \<Rightarrow> byte \<Rightarrow> data_error + CBCCipher" where
  "NewCBC k newHash hashSize peerID keyID =
     (if \<not> aes_key_ok (cbcEncryptKey k) then Err DataKeySize
      else if \<not> aes_key_ok (cbcDecryptKey k) then Err DataKeySize
      else if hashSize > length (EncryptHMAC k) \<or> hashSize > length (DecryptHMAC k) then Err DataPanic
      else Ok \<lparr>cb_enc = cbcEncryptKey k, cb_dec = cbcDecryptKey k, cb_encHMAC = take hashSize (EncryptHMAC k),
               cb_decHMAC = take hashSize (DecryptHMAC k), cb_newHash = newHash, cb_hashSize = hashSize,
               cb_header = makeHeader peerID keyID, cb_counter = 0, cb_replay = ovpn_window0\<rparr>)"

definition cbc_seal :: "prims \<Rightarrow> rand \<Rightarrow> CBCCipher \<Rightarrow> bytes \<Rightarrow> int \<Rightarrow> (data_error + bytes) \<times> CBCCipher" where
  "cbc_seal P rnd c plaintext minInner = (case nextPacketID (cb_counter c) of
     None \<Rightarrow> (Err CounterExhausted, c)
   | Some (pid, n) \<Rightarrow>
       let c = c\<lparr>cb_counter := n\<rparr>;
           plainLen = 4 + nat (max (int (length plaintext)) minInner);
           pad = 16 - plainLen mod 16;
           work = be32 pid @ plaintext @ replicate (plainLen - 4 - length plaintext) 0 @ replicate pad (of_nat pad)
       in case rnd 16 of
            None \<Rightarrow> (Err DataRand, c)
          | Some iv \<Rightarrow>
              let work = cbc_enc P (cb_enc c) iv work;
                  tag = hmac P (cb_newHash c) (cb_encHMAC c) (iv @ work)
              in (Ok (cb_header c @ tag @ iv @ work), c))"

definition pkcs7Unpad :: "bytes \<Rightarrow> data_error + bytes" where
  "pkcs7Unpad b =
     (if length b = 0 \<or> length b mod 16 \<noteq> 0 then Err DataShort
      else let pad = unat (b ! (length b - 1)) in
      if pad = 0 \<or> pad > 16 \<or> pad > length b then Err DataShort
      else if list_ex (\<lambda>x. unat x \<noteq> pad) (drop (length b - pad) b) then Err DataShort
      else Ok (take (length b - pad) b))"

definition cbc_Open :: "prims \<Rightarrow> CBCCipher \<Rightarrow> bytes \<Rightarrow> (data_error + bytes) \<times> CBCCipher" where
  "cbc_Open P c pkt =
     (let fixed = 4 + cb_hashSize c + 16 in
      if length pkt < fixed + 16 then (Err DataShort, c)
      else let tag = slice 4 (4 + cb_hashSize c) pkt; iv = slice (4 + cb_hashSize c) fixed pkt; ct = drop fixed pkt in
      if length ct mod 16 \<noteq> 0 then (Err DataShort, c)
      else if tag \<noteq> hmac P (cb_newHash c) (cb_decHMAC c) (iv @ ct) then (Err DataAuth, c)
      else case pkcs7Unpad (cbc_dec P (cb_dec c) iv ct) of
        Err e \<Rightarrow> (Err e, c)
      | Ok work \<Rightarrow>
          if length work < 4 then (Err DataShort, c)
          else let (ok, w) = ovpn_accept (cb_replay c) (get32 0 work); c = c\<lparr>cb_replay := w\<rparr> in
               if \<not> ok then (Err DataReplay, c) else (Ok (drop 4 work), c))"

section \<open>The tunnel\<close>

datatype dataCipher = GCM DataCipher | CBC CBCCipher

text \<open>The cipher's \<^verbatim>\<open>SealPadded\<close>; \<^verbatim>\<open>Seal\<close> is the same with length zero.\<close>

fun ovpn_EncapsulatePadded :: "prims \<Rightarrow> rand \<Rightarrow> dataCipher \<Rightarrow> bytes \<Rightarrow> int \<Rightarrow> (data_error + bytes) \<times> dataCipher" where
  "ovpn_EncapsulatePadded P rnd (GCM c) p minInner = map_prod id GCM (data_seal P c p minInner)"
| "ovpn_EncapsulatePadded P rnd (CBC c) p minInner = map_prod id CBC (cbc_seal P rnd c p minInner)"

fun dc_Open :: "prims \<Rightarrow> dataCipher \<Rightarrow> bytes \<Rightarrow> (data_error + bytes) \<times> dataCipher" where
  "dc_Open P (GCM c) pkt = map_prod id GCM (data_Open P c pkt)"
| "dc_Open P (CBC c) pkt = map_prod id CBC (cbc_Open P c pkt)"

definition ovpn_Decapsulate :: "prims \<Rightarrow> dataCipher \<Rightarrow> bytes \<Rightarrow> (data_error + bytes) \<times> dataCipher" where
  "ovpn_Decapsulate P c pkt = (case dc_Open P c pkt of
     (Err e, c) \<Rightarrow> (Err e, c)
   | (Ok pt, c) \<Rightarrow>
       if IsPing pt then (Ok [], c)
       else let inner = TrimToIP pt in if inner = [] then (Err NotIP, c) else (Ok inner, c))"

section \<open>What a datagram opens to\<close>

text \<open>The counter of a datagram and the plaintext it authenticates, under the keys of a receiving cipher.\<close>

fun ov_ctr :: "prims \<Rightarrow> dataCipher \<Rightarrow> bytes \<Rightarrow> u32" where
  "ov_ctr P (GCM c) w = get32 4 w"
| "ov_ctr P (CBC c) w = get32 0 (cbc_dec P (cb_dec c) (slice (4 + cb_hashSize c) (4 + cb_hashSize c + 16) w) (drop (4 + cb_hashSize c + 16) w))"

fun ov_opens :: "prims \<Rightarrow> dataCipher \<Rightarrow> bytes \<Rightarrow> bytes option" where
  "ov_opens P (GCM c) w =
     (if length w < 24 then None
      else aead_open P AESGCM (ci_recv c) (be32 (get32 4 w) @ ci_recvIV c) (take 8 w) (drop 24 w @ slice 8 24 w))"
| "ov_opens P (CBC c) w =
     (let f = 4 + cb_hashSize c + 16; iv = slice (4 + cb_hashSize c) f w; ct = drop f w in
      if length w < f + 16 \<or> length ct mod 16 \<noteq> 0 \<or> slice 4 (4 + cb_hashSize c) w \<noteq> hmac P (cb_newHash c) (cb_decHMAC c) (iv @ ct) then None
      else case pkcs7Unpad (cbc_dec P (cb_dec c) iv ct) of
        Err _ \<Rightarrow> None
      | Ok work \<Rightarrow> if length work < 4 then None else Some (drop 4 work))"

fun same_keys :: "dataCipher \<Rightarrow> dataCipher \<Rightarrow> bool" where
  "same_keys (GCM a) (GCM b) \<longleftrightarrow> ci_recv b = ci_recv a \<and> ci_recvIV b = ci_recvIV a
     \<and> 4 \<le> length (ci_recvNonce b) \<and> drop 4 (ci_recvNonce b) = ci_recvIV a"
| "same_keys (CBC a) (CBC b) \<longleftrightarrow> cb_dec b = cb_dec a \<and> cb_decHMAC b = cb_decHMAC a \<and> cb_newHash b = cb_newHash a \<and> cb_hashSize b = cb_hashSize a"
| "same_keys _ _ \<longleftrightarrow> False"

fun window_of :: "dataCipher \<Rightarrow> ovpn_window" where
  "window_of (GCM c) = ci_replay c"
| "window_of (CBC c) = cb_replay c"

definition ov_holds :: "dataCipher \<Rightarrow> nat set \<Rightarrow> dataCipher \<Rightarrow> bool" where
  "ov_holds r A c \<longleftrightarrow> same_keys r c \<and> started_rel A (ovpn_abs (window_of c))"

lemma rotate_out:
  assumes "24 \<le> length w" and n: "n = length w - 24"
  shows "take 8 (put_at (8 + n) (slice 8 24 w) (put_at 8 (slice 24 (24 + n) w) w)) = take 8 w"
    and "slice 8 (8 + n + 16) (put_at (8 + n) (slice 8 24 w) (put_at 8 (slice 24 (24 + n) w) w)) = drop 24 w @ slice 8 24 w"
proof -
  define h t ct where "h = take 8 w" and "t = slice 8 24 w" and "ct = drop 24 w"
  have w: "w = h @ t @ ct" using slice_parts [of 8 24 w] assms(1) by (simp add: h_def t_def ct_def)
  have l: "length h = 8" "length t = 16" "length ct = n" using assms by (simp_all add: h_def t_def ct_def)
  have s: "slice 24 (24 + n) w = ct" "slice 8 24 w = t" using l by (simp_all add: w slice_def)
  have "put_at (8 + n) t (put_at 8 ct w) = h @ ct @ t" using l by (simp add: w put_at_def)
  then show "take 8 (put_at (8 + n) (slice 8 24 w) (put_at 8 (slice 24 (24 + n) w) w)) = take 8 w"
    and "slice 8 (8 + n + 16) (put_at (8 + n) (slice 8 24 w) (put_at 8 (slice 24 (24 + n) w) w)) = drop 24 w @ slice 8 24 w"
    unfolding s using l by (simp_all add: slice_def flip: h_def ct_def)
qed

lemma ovpn_accept_step:
  assumes "started_rel A (ovpn_abs w)"
  obtains w' where "ovpn_accept w c = (c \<noteq> 0 \<and> fresh 64 A (unat c), w')"
    and "started_rel (if c \<noteq> 0 \<and> fresh 64 A (unat c) then insert (unat c) A else A) (ovpn_abs w')"
  using ovpn.acc_step [of A w c] assms by auto

lemma data_Open_step:
  assumes h: "ov_holds r A (GCM c)" and o: "data_Open P c w = (x, c')"
  shows "case ov_opens P r w of
     None \<Rightarrow> (\<exists>e. x = Err e) \<and> ov_holds r A (GCM c')
   | Some pt \<Rightarrow> if ov_ctr P r w \<noteq> 0 \<and> fresh 64 A (unat (ov_ctr P r w)) then x = Ok pt \<and> ov_holds r (insert (unat (ov_ctr P r w)) A) (GCM c')
       else (\<exists>e. x = Err e) \<and> ov_holds r A (GCM c')"
proof -
  obtain k where r: "r = GCM k" using h by (cases r) (auto simp: ov_holds_def)
  have k: "ci_recv c = ci_recv k" "ci_recvIV c = ci_recvIV k" "4 \<le> length (ci_recvNonce c)" "drop 4 (ci_recvNonce c) = ci_recvIV k"
    and sr: "started_rel A (ovpn_abs (ci_replay c))" using h by (auto simp: ov_holds_def r)
  show ?thesis
  proof (cases "length w < 24")
    case True
    then show ?thesis using o h by (auto simp: data_Open_def r)
  next
    case False
    define c1 where "c1 = c\<lparr>ci_recvNonce := put_at 0 (be32 (get32 4 w)) (ci_recvNonce c)\<rparr>"
    have nonce: "put_at 0 (be32 (get32 4 w)) (ci_recvNonce c) = be32 (get32 4 w) @ ci_recvIV k" using k by (simp add: put_at_def)
    have h1: "ov_holds r B (GCM (c1\<lparr>ci_replay := v\<rparr>)) \<longleftrightarrow> started_rel B (ovpn_abs v)" for B v
      using k by (simp add: ov_holds_def r c1_def nonce)
    obtain w' where a: "ovpn_accept (ci_replay c) (get32 4 w) = (get32 4 w \<noteq> 0 \<and> fresh 64 A (unat (get32 4 w)), w')"
      "started_rel (if get32 4 w \<noteq> 0 \<and> fresh 64 A (unat (get32 4 w)) then insert (unat (get32 4 w)) A else A) (ovpn_abs w')"
      using ovpn_accept_step [OF sr] by blast
    have h0: "ov_holds r A (GCM c1)" using h1 [of A "ci_replay c"] sr by (simp add: c1_def)
    have "data_Open P c w = (case ov_opens P r w of None \<Rightarrow> (Err AEADFailed, c1)
        | Some pt \<Rightarrow> if get32 4 w \<noteq> 0 \<and> fresh 64 A (unat (get32 4 w)) then (Ok pt, c1\<lparr>ci_replay := w'\<rparr>) else (Err DataReplay, c1\<lparr>ci_replay := w'\<rparr>))"
      using False rotate_out [of w "length w - 24"] k a(1)
      by (simp add: data_Open_def Let_def r nonce c1_def split: option.split)
    then show ?thesis using o h0 h1 a(2) by (auto simp: r split: option.splits if_splits)
  qed
qed

lemma pkcs7_prefix: "pkcs7Unpad b = Ok work \<Longrightarrow> 4 \<le> length work \<Longrightarrow> get32 0 work = get32 0 b"
  by (auto simp: pkcs7Unpad_def Let_def get32_def slice_def min_def split: if_splits)

lemma cbc_Open_step:
  assumes h: "ov_holds r A (CBC c)" and o: "cbc_Open P c w = (x, c')"
  shows "case ov_opens P r w of
     None \<Rightarrow> (\<exists>e. x = Err e) \<and> ov_holds r A (CBC c')
   | Some pt \<Rightarrow> if ov_ctr P r w \<noteq> 0 \<and> fresh 64 A (unat (ov_ctr P r w)) then x = Ok pt \<and> ov_holds r (insert (unat (ov_ctr P r w)) A) (CBC c')
       else (\<exists>e. x = Err e) \<and> ov_holds r A (CBC c')"
proof -
  obtain k where r: "r = CBC k" using h by (cases r) (auto simp: ov_holds_def)
  have k: "cb_dec k = cb_dec c" "cb_decHMAC k = cb_decHMAC c" "cb_newHash k = cb_newHash c" "cb_hashSize k = cb_hashSize c"
    and sr: "started_rel A (ovpn_abs (cb_replay c))" using h by (auto simp: ov_holds_def r)
  have h1: "ov_holds r B (CBC (c\<lparr>cb_replay := v\<rparr>)) \<longleftrightarrow> started_rel B (ovpn_abs v)" for B v
    using k by (simp add: ov_holds_def r)
  define f where "f = 4 + cb_hashSize c + 16"
  define pt where "pt = pkcs7Unpad (cbc_dec P (cb_dec c) (slice (4 + cb_hashSize c) f w) (drop f w))"
  define bad where "bad \<longleftrightarrow> length w < f + 16 \<or> length (drop f w) mod 16 \<noteq> 0
    \<or> slice 4 (4 + cb_hashSize c) w \<noteq> hmac P (cb_newHash c) (cb_decHMAC c) (slice (4 + cb_hashSize c) f w @ drop f w)"
  have op: "ov_opens P r w = (if bad then None else case pt of Err _ \<Rightarrow> None | Ok work \<Rightarrow> if length work < 4 then None else Some (drop 4 work))"
    by (simp add: r k bad_def pt_def f_def Let_def)
  show ?thesis
  proof (cases "bad \<or> (\<exists>e. pt = Err e) \<or> (\<exists>work. pt = Ok work \<and> length work < 4)")
    case True
    then have "ov_opens P r w = None" using op by auto
    moreover have "(\<exists>e. x = Err e) \<and> c' = c"
      using True o by (auto simp: cbc_Open_def Let_def bad_def pt_def f_def split: if_splits sum.splits dest: sym)
    ultimately show ?thesis using h by auto
  next
    case False
    then obtain work where wk: "pt = Ok work" "4 \<le> length work" "\<not> bad" by (cases pt) auto
    have ct: "ov_ctr P r w = get32 0 work"
      using pkcs7_prefix [OF wk(1) [unfolded pt_def] wk(2)] by (simp add: r k f_def)
    obtain w' where a: "ovpn_accept (cb_replay c) (get32 0 work) = (get32 0 work \<noteq> 0 \<and> fresh 64 A (unat (get32 0 work)), w')"
      "started_rel (if get32 0 work \<noteq> 0 \<and> fresh 64 A (unat (get32 0 work)) then insert (unat (get32 0 work)) A else A) (ovpn_abs w')"
      using ovpn_accept_step [OF sr] by blast
    have "cbc_Open P c w = (if get32 0 work \<noteq> 0 \<and> fresh 64 A (unat (get32 0 work)) then (Ok (drop 4 work), c\<lparr>cb_replay := w'\<rparr>)
        else (Err DataReplay, c\<lparr>cb_replay := w'\<rparr>))"
      using wk a(1) by (simp add: cbc_Open_def Let_def bad_def pt_def f_def)
    moreover have "ov_opens P r w = Some (drop 4 work)" using op wk by simp
    ultimately show ?thesis using o h1 a(2) ct by (auto split: if_splits)
  qed
qed

lemma dc_Open_step:
  assumes h: "ov_holds r A c" and o: "dc_Open P c w = (x, c')"
  shows "case ov_opens P r w of
     None \<Rightarrow> (\<exists>e. x = Err e) \<and> ov_holds r A c'
   | Some pt \<Rightarrow> if ov_ctr P r w \<noteq> 0 \<and> fresh 64 A (unat (ov_ctr P r w)) then x = Ok pt \<and> ov_holds r (insert (unat (ov_ctr P r w)) A) c'
       else (\<exists>e. x = Err e) \<and> ov_holds r A c'"
proof (cases c)
  case (GCM g)
  then obtain g' where g: "data_Open P g w = (x, g')" "c' = GCM g'" using o by (cases "data_Open P g w") auto
  show ?thesis unfolding g(2) by (rule data_Open_step [OF h [unfolded GCM] g(1)])
next
  case (CBC g)
  then obtain g' where g: "cbc_Open P g w = (x, g')" "c' = CBC g'" using o by (cases "cbc_Open P g w") auto
  show ?thesis unfolding g(2) by (rule cbc_Open_step [OF h [unfolded CBC] g(1)])
qed

section \<open>The receiving tunnel\<close>

definition ov_carries :: "prims \<Rightarrow> dataCipher \<Rightarrow> bytes \<Rightarrow> bytes \<Rightarrow> bool" where
  "ov_carries P r w pkt \<longleftrightarrow> ov_ctr P r w \<noteq> 0 \<and> (\<exists>z. ov_opens P r w = Some (pkt @ replicate z 0)) \<and> self_delimiting pkt"

lemma self_delimiting_not_ping:
  assumes "self_delimiting pkt"
  shows "\<not> IsPing (pkt @ z)" "pkt \<noteq> []"
proof -
  have "16 < length pkt" using assms by (auto simp: self_delimiting_def)
  then show "\<not> IsPing (pkt @ z)" "pkt \<noteq> []" by (auto simp: IsPing_def dest: arg_cong [of _ _ length])
qed

interpretation ovpn_recv: datagram_receiver 64 "\<lambda>c. c \<noteq> 0" "ov_ctr P r" "ovpn_Decapsulate P"
  "ov_carries P r" "\<lambda>w. ov_opens P r w = None" "ov_holds r"
  for P r
proof
  fix A s w pkt x s'
  assume h: "ov_holds r A s" and c: "ov_carries P r w pkt" and o: "ovpn_Decapsulate P s w = (x, s')"
  obtain y t where d: "dc_Open P s w = (y, t)" by (cases "dc_Open P s w")
  obtain z where z: "ov_opens P r w = Some (pkt @ replicate z 0)" "ov_ctr P r w \<noteq> 0" "self_delimiting pkt" using c by (auto simp: ov_carries_def)
  show "ov_ctr P r w \<noteq> 0 \<and> (if fresh 64 A (unat (ov_ctr P r w)) then x = Ok pkt \<and> ov_holds r (insert (unat (ov_ctr P r w)) A) s'
      else (\<exists>e. x = Err e) \<and> ov_holds r A s')"
    using dc_Open_step [OF h d] o d z self_delimiting_not_ping [OF z(3)] TrimToIP_pad [OF z(3)]
    by (auto simp: ovpn_Decapsulate_def split: if_splits)
next
  fix A s w x s'
  assume h: "ov_holds r A s" and n: "ov_opens P r w = None" and o: "ovpn_Decapsulate P s w = (x, s')"
  obtain y t where d: "dc_Open P s w = (y, t)" by (cases "dc_Open P s w")
  show "(\<exists>e. x = Err e) \<and> ov_holds r A s'"
    using dc_Open_step [OF h d] o d n by (auto simp: ovpn_Decapsulate_def)
qed

section \<open>The sending tunnel\<close>

text \<open>A sending and a receiving cipher whose keys line up.\<close>

fun mirrored :: "dataCipher \<Rightarrow> dataCipher \<Rightarrow> bool" where
  "mirrored (GCM a) (GCM b) \<longleftrightarrow> ci_send a = ci_recv b \<and> ci_sendIV a = ci_recvIV b \<and> length (ci_header a) = 4"
| "mirrored (CBC a) (CBC b) \<longleftrightarrow> cb_enc a = cb_dec b \<and> cb_encHMAC a = cb_decHMAC b \<and> cb_newHash a = cb_newHash b
     \<and> cb_hashSize b = hash_size (cb_newHash b) \<and> length (cb_header a) = 4"
| "mirrored _ _ \<longleftrightarrow> False"

fun counter_of :: "dataCipher \<Rightarrow> u32" where
  "counter_of (GCM c) = ci_counter c"
| "counter_of (CBC c) = cb_counter c"

lemma length_makeHeader [simp]: "length (makeHeader p k) = 4"
  by (simp add: makeHeader_def)

lemma sealExact_eq:
  assumes P: "prims_ok P" and h: "length (ci_header c) = 4"
    and a: "aad = ci_header c @ be32 pid" and x: "x = aead_seal P AESGCM (ci_send c) (be32 pid @ ci_sendIV c) aad pt"
  shows "sealExact P c pt pid = aad @ drop (length pt) x @ take (length pt) x"
proof -
  define ct tag where "ct = take (length pt) x" and "tag = drop (length pt) x"
  have "length x = length pt + 16" using P by (simp add: x prims_ok_def)
  then have l: "length aad = 8" "length ct = length pt" "length tag = 16" using h by (simp_all add: a ct_def tag_def)
  have xe: "x = ct @ tag" by (simp add: ct_def tag_def)
  have s: "slice (8 + length pt) (8 + length pt + 16) (aad @ ct @ tag) = tag" "slice 8 (8 + length pt) (aad @ ct @ tag) = ct"
    using l by (simp_all add: slice_def)
  have "put_at 8 tag (put_at 24 ct (aad @ ct @ tag)) = aad @ tag @ ct"
  proof -
    have "put_at 24 ct (aad @ ct @ tag) = aad @ take 16 (ct @ tag) @ ct" using l by (simp add: put_at_def)
    then show ?thesis using l by (simp add: put_at_def)
  qed
  then have "sealExact P c pt pid = aad @ tag @ ct"
    unfolding sealExact_def Let_def a [symmetric] x [symmetric] xe s .
  then show ?thesis by (simp add: ct_def tag_def)
qed

lemma sealExact_opens:
  assumes P: "prims_ok P" and m: "mirrored (GCM c) r"
  shows "ov_ctr P r (sealExact P c pt pid) = pid \<and> ov_opens P r (sealExact P c pt pid) = Some pt"
proof -
  obtain k where r: "r = GCM k" using m by (cases r) auto
  define aad x where "aad = ci_header c @ be32 pid" and "x = aead_seal P AESGCM (ci_send c) (be32 pid @ ci_sendIV c) aad pt"
  have lx: "length x = length pt + 16" using P by (simp add: x_def prims_ok_def)
  have la: "length aad = 8" using m by (simp add: r aad_def)
  have w: "sealExact P c pt pid = aad @ drop (length pt) x @ take (length pt) x"
    using sealExact_eq [OF P _ aad_def x_def] m by (simp add: r)
  have g: "get32 4 (sealExact P c pt pid) = pid"
    unfolding w aad_def using m by (simp add: r get32_append)
  have "drop 24 (sealExact P c pt pid) @ slice 8 24 (sealExact P c pt pid) = x"
    unfolding w using la lx by (simp add: slice_def)
  moreover have "take 8 (sealExact P c pt pid) = aad" "\<not> length (sealExact P c pt pid) < 24" unfolding w using la lx by simp_all
  moreover have "aead_open P AESGCM (ci_recv k) (be32 pid @ ci_recvIV k) aad x = Some pt"
    using P m by (simp add: r x_def prims_ok_def)
  ultimately show ?thesis using g by (simp add: r)
qed

text \<open>The padding of a CBC plaintext comes off again.\<close>

lemma pkcs7Unpad_pad:
  assumes "pad = 16 - length b mod 16"
  shows "pkcs7Unpad (b @ replicate pad (of_nat pad)) = Ok b" and "length (b @ replicate pad (of_nat pad :: byte)) mod 16 = 0"
proof -
  have lt: "length b mod 16 < 16" by simp
  then have p: "0 < pad" "pad \<le> 16" using assms by linarith+
  have u: "unat (of_nat pad :: byte) = pad" using p by (intro unat_of_nat_small) simp
  define q m where "q = length b div 16" and "m = length b mod 16"
  have "length b = 16 * q + m" by (simp add: q_def m_def)
  then have "length b + pad = 16 * (q + 1)" using assms lt unfolding m_def [symmetric] by simp
  then show l: "length (b @ replicate pad (of_nat pad :: byte)) mod 16 = 0" by simp
  have "(b @ replicate pad (of_nat pad :: byte)) ! (length b + pad - 1) = of_nat pad"
  proof -
    have "\<not> length b + pad - 1 < length b" "length b + pad - 1 - length b < pad" using p by linarith+
    then show ?thesis by (simp only: nth_append if_False nth_replicate)
  qed
  then show "pkcs7Unpad (b @ replicate pad (of_nat pad)) = Ok b"
    unfolding pkcs7Unpad_def Let_def using p u l by (simp add: list_ex_iff)
qed

lemma cbc_seal_opens:
  assumes P: "prims_ok P" and R: "rand_ok rnd" and m: "mirrored (CBC c) r" and o: "cbc_seal P rnd c pt mi = (Ok w, c')"
  shows "ov_ctr P r w = cb_counter c' \<and> (\<exists>z. ov_opens P r w = Some (pt @ replicate z 0)) \<and> cb_counter c \<noteq> - 1 \<and> cb_counter c' = cb_counter c + 1"
proof -
  obtain k where r: "r = CBC k" using m by (cases r) auto
  have kk: "cb_enc c = cb_dec k" "cb_encHMAC c = cb_decHMAC k" "cb_newHash c = cb_newHash k" "cb_hashSize k = hash_size (cb_newHash k)"
    "length (cb_header c) = 4" using m by (simp_all add: r)
  define pid where "pid = cb_counter c + 1"
  define n where "n = nat (max (int (length pt)) mi) - length pt"
  define b where "b = be32 pid @ pt @ replicate n 0"
  define pad where "pad = 16 - length b mod 16"
  have lb: "length b = 4 + nat (max (int (length pt)) mi)" by (simp add: b_def n_def)
  have ne: "cb_counter c \<noteq> - 1" using o by (auto simp: cbc_seal_def nextPacketID_def)
  then obtain iv where iv: "rnd 16 = Some iv"
    using o by (cases "rnd 16") (auto simp: cbc_seal_def nextPacketID_def Let_def)
  define ct where "ct = cbc_enc P (cb_dec k) iv (b @ replicate pad (of_nat pad))"
  define tag where "tag = hmac P (cb_newHash k) (cb_decHMAC k) (iv @ ct)"
  have w: "w = cb_header c @ tag @ iv @ ct" "c' = c\<lparr>cb_counter := pid\<rparr>"
    using o ne iv kk unfolding cbc_seal_def nextPacketID_def
    by (simp_all add: Let_def tag_def ct_def pad_def lb) (simp_all add: b_def n_def pid_def)
  note pu = pkcs7Unpad_pad [OF pad_def]
  have dec: "cbc_dec P (cb_dec k) iv ct = b @ replicate pad (of_nat pad)" and lct: "length ct = length (b @ replicate pad (of_nat pad :: byte))"
    using P pu(2) by (simp_all add: ct_def prims_ok_def)
  have ll: "length tag = hash_size (cb_newHash k)" "length iv = 16" using P R iv by (simp_all add: tag_def prims_ok_def rand_ok_def)
  have sl: "slice 4 (4 + cb_hashSize k) w = tag" "slice (4 + cb_hashSize k) (4 + cb_hashSize k + 16) w = iv" "drop (4 + cb_hashSize k + 16) w = ct"
    using kk ll by (simp_all add: w slice_def)
  have cm: "length ct mod 16 = 0" "16 \<le> length ct"
  proof -
    show z: "length ct mod 16 = 0" using pu(2) lct by simp
    have "0 < length ct" using lct by (simp add: b_def)
    then show "16 \<le> length ct" using z by (intro dvd_imp_le) (simp_all add: mod_eq_0_iff_dvd)
  qed
  have lw: "\<not> length w < 4 + cb_hashSize k + 16 + 16" using kk ll cm by (simp add: w)
  have "ov_opens P r w = Some (pt @ replicate n 0)"
    unfolding r ov_opens.simps Let_def sl dec pu(1) using lw cm by (simp add: tag_def b_def)
  moreover have "ov_ctr P r w = pid" unfolding r ov_ctr.simps sl dec by (simp add: b_def)
  ultimately show ?thesis using ne w(2) by (auto simp: pid_def)
qed

lemma Encapsulate_step:
  assumes P: "prims_ok P" and R: "rand_ok rnd" and m: "mirrored s r" and o: "ovpn_EncapsulatePadded P rnd s pt mi = (x, s')"
  shows "mirrored s' r \<and> unat (counter_of s) \<le> unat (counter_of s')
    \<and> (\<forall>w. x = Ok w \<longrightarrow> counter_of s \<noteq> - 1 \<and> counter_of s' = counter_of s + 1 \<and> ov_ctr P r w = counter_of s'
         \<and> (\<exists>z. ov_opens P r w = Some (pt @ replicate z 0)))"
proof -
  have inc: "unat v \<le> unat (v + 1)" if "v \<noteq> - 1" for v :: u32
    using unat_inc [of v] that by (simp add: word_order.not_eq_extremum)
  show ?thesis
  proof (cases s)
    case (GCM c)
    obtain c' where c': "data_seal P c pt mi = (x, c')" "s' = GCM c'" using o GCM by (cases "data_seal P c pt mi") auto
    show ?thesis
    proof (cases "ci_counter c = - 1")
      case True
      then show ?thesis using c' m GCM by (auto simp: data_seal_def nextPacketID_def)
    next
      case False
      define d where "d = c\<lparr>ci_counter := ci_counter c + 1\<rparr>"
      have md: "mirrored (GCM d) r" using m GCM by (cases r) (auto simp: d_def)
      define z where "z = (if mi > int (length pt) then nat mi - length pt else 0)"
      have "data_seal P c pt mi = (Ok (sealExact P d (pt @ replicate z 0) (ci_counter c + 1)), d)"
        using False by (simp add: data_seal_def nextPacketID_def Let_def d_def z_def)
      then have z: "x = Ok (sealExact P d (pt @ replicate z 0) (ci_counter c + 1))" "c' = d" using c'(1) by simp_all
      show ?thesis using sealExact_opens [OF P md] z c'(2) md False GCM inc [OF False] by (auto simp: d_def)
    qed
  next
    case (CBC c)
    obtain c' where c': "cbc_seal P rnd c pt mi = (x, c')" "s' = CBC c'" using o CBC by (cases "cbc_seal P rnd c pt mi") auto
    have st: "c' = c \<or> cb_counter c \<noteq> - 1 \<and> c' = c\<lparr>cb_counter := cb_counter c + 1\<rparr>"
      using c'(1) by (auto simp: cbc_seal_def nextPacketID_def Let_def split: if_splits option.splits)
    then have "mirrored s' r" using m CBC c'(2) by (cases r) auto
    moreover have "unat (cb_counter c) \<le> unat (cb_counter c')" using st inc by auto
    ultimately show ?thesis using cbc_seal_opens [OF P R] m c' CBC by auto
  qed
qed

text \<open>A run of the sender: the datagrams it makes, each with the packet in it.\<close>

fun ovpn_send_all :: "prims \<Rightarrow> (rand \<times> bytes \<times> int) list \<Rightarrow> dataCipher \<Rightarrow> (bytes \<times> bytes) list" where
  "ovpn_send_all P [] s = []"
| "ovpn_send_all P ((rnd, pkt, m) # ops) s = (case ovpn_EncapsulatePadded P rnd s pkt m of
     (Err _, s') \<Rightarrow> ovpn_send_all P ops s'
   | (Ok w, s') \<Rightarrow> (w, pkt) # ovpn_send_all P ops s')"

lemma ovpn_send_all_carries:
  assumes P: "prims_ok P" and "\<forall>(rnd, pkt, m) \<in> set ops. rand_ok rnd \<and> self_delimiting pkt" and "mirrored s r"
  shows "(\<forall>(w, pkt) \<in> set (ovpn_send_all P ops s). ov_carries P r w pkt \<and> unat (counter_of s) < unat (ov_ctr P r w))
    \<and> distinct (map (\<lambda>x. ov_ctr P r (fst x)) (ovpn_send_all P ops s))"
  using assms(2,3)
proof (induction ops arbitrary: s)
  case (Cons op ops)
  obtain rnd pkt m where op: "op = (rnd, pkt, m)" by (cases op) auto
  obtain x s' where x: "ovpn_EncapsulatePadded P rnd s pkt m = (x, s')" by (cases "ovpn_EncapsulatePadded P rnd s pkt m")
  have R: "rand_ok rnd" and sd: "self_delimiting pkt" using Cons.prems(1) by (auto simp: op)
  note st = Encapsulate_step [OF P R Cons.prems(2) x]
  have IH: "(\<forall>(w, pkt) \<in> set (ovpn_send_all P ops s'). ov_carries P r w pkt \<and> unat (counter_of s') < unat (ov_ctr P r w))
      \<and> distinct (map (\<lambda>x. ov_ctr P r (fst x)) (ovpn_send_all P ops s'))"
    using Cons.IH [of s'] Cons.prems(1) st by auto
  show ?case
  proof (cases x)
    case (Inl e)
    then show ?thesis using IH st x by (fastforce simp: op)
  next
    case (Inr w)
    then have w: "counter_of s \<noteq> - 1" "ov_ctr P r w = counter_of s + 1" "counter_of s' = counter_of s + 1" "\<exists>z. ov_opens P r w = Some (pkt @ replicate z 0)"
      using st by auto
    have u: "unat (counter_of s + 1) = unat (counter_of s) + 1" using unat_inc [of "counter_of s"] w(1) by (simp add: word_order.not_eq_extremum)
    then have "ov_ctr P r w \<noteq> 0" using w(2) by (metis add_is_0 one_neq_zero unsigned_0)
    then have c: "ov_carries P r w pkt" using w(4) sd by (simp add: ov_carries_def)
    have e: "ovpn_send_all P (op # ops) s = (w, pkt) # ovpn_send_all P ops s'" using Inr x by (simp add: op)
    have "ov_ctr P r w \<notin> (\<lambda>x. ov_ctr P r (fst x)) ` set (ovpn_send_all P ops s')" using IH w(2,3) by fastforce
    then show ?thesis using IH c u w(2,3) unfolding e by fastforce
  qed
qed simp

text \<open>Nothing is refused before the counter is spent, as long as octets for the initialisation vector can be read.\<close>

lemma Encapsulate_ok:
  assumes "counter_of s \<noteq> - 1" and "rnd 16 \<noteq> None" and "ovpn_EncapsulatePadded P rnd s pt mi = (x, s')"
  shows "(\<exists>w. x = Ok w) \<and> counter_of s' = counter_of s + 1"
  using assms by (cases s) (auto simp: data_seal_def cbc_seal_def nextPacketID_def Let_def split: if_splits)

lemma ovpn_send_all_complete:
  assumes "unat (counter_of s) + length ops < 2 ^ 32" and "\<forall>(rnd, pkt, m) \<in> set ops. rnd 16 \<noteq> None"
  shows "map snd (ovpn_send_all P ops s) = map (\<lambda>(rnd, pkt, m). pkt) ops"
  using assms
proof (induction ops arbitrary: s)
  case (Cons op ops)
  obtain rnd pkt m where op: "op = (rnd, pkt, m)" by (cases op) auto
  obtain x s' where x: "ovpn_EncapsulatePadded P rnd s pkt m = (x, s')" by (cases "ovpn_EncapsulatePadded P rnd s pkt m")
  have ne: "counter_of s \<noteq> - 1" using Cons.prems(1) by (auto simp: unsigned_minus_1_eq_mask mask_eq_exp_minus_1)
  then have u: "unat (counter_of s + 1) = unat (counter_of s) + 1" using unat_inc [of "counter_of s"] by (simp add: word_order.not_eq_extremum)
  have "rnd 16 \<noteq> None" using Cons.prems(2) by (simp add: op)
  from Encapsulate_ok [OF ne this x] obtain w where w: "x = Ok w" "counter_of s' = counter_of s + 1" by blast
  have "map snd (ovpn_send_all P ops s') = map (\<lambda>(rnd, pkt, m). pkt) ops"
    using Cons.IH [of s'] Cons.prems u w(2) by simp
  then show ?case using x w(1) by (simp add: op)
qed simp

section \<open>Properties\<close>

text \<open>
  What a channel from \<open>s\<close> to \<open>r\<close> promises.  No two datagrams carry one counter, and every packet is sent until the counter is spent.  The network
  loses, repeats and reorders the datagrams and inserts others that do not open.  The receiver delivers the IP packets without their
  padding, exactly one for each counter that is new and within the window, in order of arrival; if none arrives twice or too late, all.
\<close>

definition channel_delivers :: "prims \<Rightarrow> dataCipher \<Rightarrow> dataCipher \<Rightarrow> bool" where
  "channel_delivers P s r \<longleftrightarrow> (\<forall>ops ws sent gen.
     (\<forall>(rnd, pkt, m) \<in> set ops. rand_ok rnd \<and> self_delimiting pkt) \<longrightarrow> sent = ovpn_send_all P ops s
     \<longrightarrow> gen = filter (\<lambda>w. w \<in> fst ` set sent) ws \<longrightarrow> (\<forall>w \<in> set ws. w \<in> set gen \<or> ov_opens P r w = None) \<longrightarrow>
     distinct (map (\<lambda>x. ov_ctr P r (fst x)) sent)
     \<and> (length ops < 2 ^ 32 \<and> (\<forall>(rnd, pkt, m) \<in> set ops. rnd 16 \<noteq> None) \<longrightarrow> map snd sent = map (\<lambda>(rnd, pkt, m). pkt) ops)
     \<and> receive_all (ovpn_Decapsulate P) ws r = map (packet_at (ov_ctr P r) sent) (spec_accepted 64 (\<lambda>c. c \<noteq> 0) {} (map (ov_ctr P r) gen))
     \<and> (distinct (map (ov_ctr P r) gen) \<and> mildly_reordered 64 (map (ov_ctr P r) gen) \<longrightarrow>
          receive_all (ovpn_Decapsulate P) ws r = map (packet_at (ov_ctr P r) sent) (map (ov_ctr P r) gen)))"

lemma channel_deliversD:
  assumes "channel_delivers P s r" and "\<forall>(rnd, pkt, m) \<in> set ops. rand_ok rnd \<and> self_delimiting pkt" and "sent = ovpn_send_all P ops s"
    and "gen = filter (\<lambda>w. w \<in> fst ` set sent) ws" and "\<forall>w \<in> set ws. w \<in> set gen \<or> ov_opens P r w = None"
  shows "length ops < 2 ^ 32 \<Longrightarrow> \<forall>(rnd, pkt, m) \<in> set ops. rnd 16 \<noteq> None \<Longrightarrow> map snd sent = map (\<lambda>(rnd, pkt, m). pkt) ops"
    and "distinct (map (ov_ctr P r) gen) \<Longrightarrow> mildly_reordered 64 (map (ov_ctr P r) gen) \<Longrightarrow>
      receive_all (ovpn_Decapsulate P) ws r = map (packet_at (ov_ctr P r) sent) (map (ov_ctr P r) gen)"
  using assms unfolding channel_delivers_def by blast+

lemma mirrored_delivers:
  assumes P: "prims_ok P" and m: "mirrored s r" and h: "ov_holds r {} r" and z: "counter_of s = 0"
  shows "channel_delivers P s r"
  unfolding channel_delivers_def
proof (intro allI impI)
  fix ops ws sent gen
  assume ops: "\<forall>(rnd, pkt, m) \<in> set ops. rand_ok rnd \<and> self_delimiting pkt" and sent: "sent = ovpn_send_all P ops s"
    and gen: "gen = filter (\<lambda>w. w \<in> fst ` set sent) ws" and ws: "\<forall>w \<in> set ws. w \<in> set gen \<or> ov_opens P r w = None"
  have c: "\<forall>(w, pkt) \<in> set sent. ov_carries P r w pkt" and d: "distinct (map (\<lambda>x. ov_ctr P r (fst x)) sent)"
    using ovpn_send_all_carries [OF P ops m] unfolding sent by auto
  have v: "\<forall>w \<in> fst ` set sent. ov_ctr P r w \<noteq> 0" using c by (auto simp: ov_carries_def)
  have f: "\<forall>w \<in> set ws. w \<in> fst ` set sent \<or> ov_opens P r w = None" using ws gen by auto
  have k: "length ops < 2 ^ 32 \<and> (\<forall>(rnd, pkt, m) \<in> set ops. rnd 16 \<noteq> None) \<longrightarrow> map snd sent = map (\<lambda>(rnd, pkt, m). pkt) ops"
    using ovpn_send_all_complete [of s ops P] z unfolding sent by simp
  show "distinct (map (\<lambda>x. ov_ctr P r (fst x)) sent)
     \<and> (length ops < 2 ^ 32 \<and> (\<forall>(rnd, pkt, m) \<in> set ops. rnd 16 \<noteq> None) \<longrightarrow> map snd sent = map (\<lambda>(rnd, pkt, m). pkt) ops)
     \<and> receive_all (ovpn_Decapsulate P) ws r = map (packet_at (ov_ctr P r) sent) (spec_accepted 64 (\<lambda>c. c \<noteq> 0) {} (map (ov_ctr P r) gen))
     \<and> (distinct (map (ov_ctr P r) gen) \<and> mildly_reordered 64 (map (ov_ctr P r) gen) \<longrightarrow>
          receive_all (ovpn_Decapsulate P) ws r = map (packet_at (ov_ctr P r) sent) (map (ov_ctr P r) gen))"
    using d k ovpn_recv.receives [OF h c d f] ovpn_recv.receives_all [OF h c d f gen v] unfolding gen by blast
qed

lemma derived_GCM:
  assumes P: "prims_ok P" and K: "kd_ok K"
  shows "\<exists>kc ks t u. Derive K cks (sks\<lparr>PreMaster := x\<rparr>) cs ss False = Some kc \<and> Derive K cks sks cs ss True = Some ks
     \<and> New_data kc peerID 0 = Ok t \<and> New_data ks peerID kid = Ok u
     \<and> channel_delivers P (GCM t) (GCM u) \<and> channel_delivers P (GCM u) (GCM t)"
proof -
  obtain a b c d where abcd: "deriveSlots K cks (sks\<lparr>PreMaster := x\<rparr>) cs ss False = Some (a, b, c, d)"
      "deriveSlots K cks sks cs ss True = Some (c, d, a, b)" "length a = 64" "length b = 64" "length c = 64" "length d = 64"
    using deriveSlots_mirrored [OF K] by blast
  have r: "started_rel {} (ovpn_abs ovpn_window0)" by (rule ovpn.rel_init)
  obtain kc ks t u where k: "Derive K cks (sks\<lparr>PreMaster := x\<rparr>) cs ss False = Some kc" "Derive K cks sks cs ss True = Some ks"
      "New_data kc peerID 0 = Ok t" "New_data ks peerID kid = Ok u"
    and m: "mirrored (GCM t) (GCM u)" "mirrored (GCM u) (GCM t)" "ov_holds (GCM t) {} (GCM t)" "ov_holds (GCM u) {} (GCM u)"
      "ci_counter t = 0" "ci_counter u = 0"
    using abcd r by (simp add: Derive_def New_data_def aes_key_ok_def ov_holds_def)
  then show ?thesis using mirrored_delivers [OF P m(1) m(4)] mirrored_delivers [OF P m(2) m(3)] by auto
qed

lemma derived_CBC:
  assumes P: "prims_ok P" and K: "kd_ok K"
  shows "\<exists>kc ks t u. DeriveCBC K cks (sks\<lparr>PreMaster := x\<rparr>) cs ss False = Some kc \<and> DeriveCBC K cks sks cs ss True = Some ks
     \<and> NewCBC kc g (hash_size g) peerID 0 = Ok t \<and> NewCBC ks g (hash_size g) peerID kid = Ok u
     \<and> channel_delivers P (CBC t) (CBC u) \<and> channel_delivers P (CBC u) (CBC t)"
proof -
  obtain a b c d where abcd: "deriveSlots K cks (sks\<lparr>PreMaster := x\<rparr>) cs ss False = Some (a, b, c, d)"
      "deriveSlots K cks sks cs ss True = Some (c, d, a, b)" "length a = 64" "length b = 64" "length c = 64" "length d = 64"
    using deriveSlots_mirrored [OF K] by blast
  have r: "started_rel {} (ovpn_abs ovpn_window0)" by (rule ovpn.rel_init)
  have hs: "hash_size g \<le> 64" by (cases g) simp_all
  obtain kc ks t u where k: "DeriveCBC K cks (sks\<lparr>PreMaster := x\<rparr>) cs ss False = Some kc" "DeriveCBC K cks sks cs ss True = Some ks"
      "NewCBC kc g (hash_size g) peerID 0 = Ok t" "NewCBC ks g (hash_size g) peerID kid = Ok u"
    and m: "mirrored (CBC t) (CBC u)" "mirrored (CBC u) (CBC t)" "ov_holds (CBC t) {} (CBC t)" "ov_holds (CBC u) {} (CBC u)"
      "cb_counter t = 0" "cb_counter u = 0"
    using abcd r hs by (simp add: DeriveCBC_def NewCBC_def aes_key_ok_def ov_holds_def)
  then show ?thesis using mirrored_delivers [OF P m(1) m(4)] mirrored_delivers [OF P m(2) m(3)] by auto
qed

text \<open>
  C8: an OpenVPN session from the key exchange to the packets.  The server reads from the client's key message the key source, options and
  credentials the client wrote, and the client reads the server's randoms and options.  Both then derive data keys that line up, for AES-GCM and
  for AES-CBC with every digest, although the client does not know the server's pre-master.  The ciphers built from them deliver in both directions:
  no two datagrams carry one counter, every packet is sent until the counter is spent, and over a network that loses, repeats, reorders and
  inserts datagrams that do not open, the receiver delivers the IP packets, unpadded and octet for octet, exactly one per fresh
  counter within the window.
\<close>

theorem ovpn_session_delivers:
  assumes "prims_ok P" and "kd_ok K" and "source_ok cks" and "source_ok sks"
    and "length opts < 65535" "length user < 65535" "length pass < 65535" "length info < 65536" "length sopts < 65535"
  shows "\<exists>h sks'. ParseClient (MarshalClient cks opts user pass info) = Ok h
     \<and> h = \<lparr>ch_KeySource = cks, ch_Options = opts, ch_Username = user, ch_Password = pass, ch_PeerInfo = info\<rparr>
     \<and> ParseServer (MarshalServer sks sopts) = Ok (sks', sopts)
     \<and> (\<exists>kc ks t u. Derive K cks sks' cs ss False = Some kc \<and> Derive K (ch_KeySource h) sks cs ss True = Some ks
          \<and> New_data kc peerID 0 = Ok t \<and> New_data ks peerID kid = Ok u
          \<and> channel_delivers P (GCM t) (GCM u) \<and> channel_delivers P (GCM u) (GCM t))
     \<and> (\<forall>g. \<exists>kc ks t u. DeriveCBC K cks sks' cs ss False = Some kc \<and> DeriveCBC K (ch_KeySource h) sks cs ss True = Some ks
          \<and> NewCBC kc g (hash_size g) peerID 0 = Ok t \<and> NewCBC ks g (hash_size g) peerID kid = Ok u
          \<and> channel_delivers P (CBC t) (CBC u) \<and> channel_delivers P (CBC u) (CBC t))"
  using ParseClient_MarshalClient [OF assms(3,5-8)] ParseServer_MarshalServer [OF assms(4,9)]
    derived_GCM [OF assms(1,2), where cks = cks and sks = sks and x = "replicate 48 0" and cs = cs and ss = ss and peerID = peerID and kid = kid]
    derived_CBC [OF assms(1,2), where cks = cks and sks = sks and x = "replicate 48 0" and cs = cs and ss = ss and peerID = peerID and kid = kid]
  by simp

definition example_kd :: kd_prims where
  "example_kd = \<lparr>hmac_md5 = \<lambda>k m. replicate 16 (sum_list (k @ m)), hmac_sha1 = \<lambda>k m. replicate 20 (sum_list (k @ m))\<rparr>"

definition example_source :: "byte \<Rightarrow> KeySource" where
  "example_source b = \<lparr>PreMaster = replicate 48 b, Random1 = replicate 32 b, Random2 = replicate 32 (b + 1)\<rparr>"

definition ovpn_example_ip :: bytes where
  "ovpn_example_ip = [69, 0, 0, 20] @ replicate 16 1"

lemma ovpn_session_delivers_witness:
  "\<exists>kc t u w. Derive example_kd (example_source 1) ((example_source 2)\<lparr>PreMaster := replicate 48 0\<rparr>) [1] [2] False = Some kc
     \<and> New_data kc 7 0 = Ok t
     \<and> ovpn_send_all example_prims [(\<lambda>n. Some (replicate n 0), ovpn_example_ip, 100)] (GCM t) = [(w, ovpn_example_ip)]
     \<and> receive_all (ovpn_Decapsulate example_prims) [w] (GCM u) = [ovpn_example_ip]"
proof -
  have K: "kd_ok example_kd" by (simp add: kd_ok_def example_kd_def)
  have S: "source_ok (example_source b)" for b by (simp add: source_ok_def example_source_def)
  let ?s = "(example_source 2)\<lparr>PreMaster := replicate 48 0\<rparr>"
  obtain kc t u where kt: "Derive example_kd (example_source 1) ?s [1] [2] False = Some kc" "New_data kc 7 0 = Ok t"
      "channel_delivers example_prims (GCM t) (GCM u)"
    using ovpn_session_delivers [OF example_prims_ok K S [of 1] S [of 2], where opts = "[]" and user = "[]" and pass = "[]" and info = "[]"
        and sopts = "[]" and cs = "[1]" and ss = "[2]" and peerID = 7 and kid = 0]
      ParseServer_MarshalServer [OF S [of 2], of "[]"] by auto
  define ops :: "(rand \<times> bytes \<times> int) list" where "ops = [(\<lambda>n. Some (replicate n 0), ovpn_example_ip, 100)]"
  have o: "\<forall>(rnd, pkt, m) \<in> set ops. rand_ok rnd \<and> self_delimiting pkt" "length ops < 2 ^ 32" "\<forall>(rnd, pkt, m) \<in> set ops. rnd 16 \<noteq> None"
    by (simp_all add: ops_def rand_ok_def self_delimiting_def version_def ovpn_example_ip_def eval_simps)
  have "map snd (ovpn_send_all example_prims ops (GCM t)) = [ovpn_example_ip]"
    using channel_deliversD(1) [OF kt(3) o(1) refl refl, of "[]"] o(2,3) by (simp add: ops_def del: ovpn_send_all.simps)
  then obtain w where w: "ovpn_send_all example_prims ops (GCM t) = [(w, ovpn_example_ip)]"
    by (cases "ovpn_send_all example_prims ops (GCM t)") auto
  have "receive_all (ovpn_Decapsulate example_prims) [w] (GCM u) = [ovpn_example_ip]"
    using channel_deliversD(2) [OF kt(3) o(1) w [symmetric] refl, of "[w]"]
    by (simp add: packet_at_def del: receive_all.simps)
  then show ?thesis using kt(1,2) w unfolding ops_def by blast
qed

end
