(* ===== verification/Wg_Wire.thy ===== *)
theory Wg_Wire
  imports Prelude
begin

text \<open>
  The WireGuard message codec, \<^verbatim>\<open>internal/wireguard/wire/wire.go\<close>: the three handshake messages, the
  transport header and the TAI64N timestamp.  An array of fixed size is a list of octets; \<open>arr n\<close> is an array of
  \<open>n\<close> zero octets into which a slice is copied.  Writing into a buffer returns the message slice.
\<close>

definition arr :: "nat \<Rightarrow> bytes \<Rightarrow> bytes" where
  "arr n xs = take n xs @ replicate (n - length xs) 0"

definition le32 :: "u32 \<Rightarrow> bytes" where
  "le32 w = le_bytes 4 (unat w)"

definition le64 :: "u64 \<Rightarrow> bytes" where
  "le64 w = le_bytes 8 (unat w)"

definition getle32 :: "nat \<Rightarrow> bytes \<Rightarrow> u32" where
  "getle32 i xs = of_nat (le_val (slice i (i + 4) xs))"

definition getle64 :: "nat \<Rightarrow> bytes \<Rightarrow> u64" where
  "getle64 i xs = of_nat (le_val (slice i (i + 8) xs))"

datatype wg_error =
    ErrMalformed | WgShort
  | BadKeySize | AlreadySent | NoRand | DHFailed | NoMACRegions | NotSent | ErrWrongReceiver | HandshakeDecrypt
  | ErrMAC1 | NotConsumed | ErrCookieReply
  | ErrDecrypt | ErrReplay | ErrExhausted | TransportShort

section \<open>Message types\<close>

definition Type_of :: "bytes \<Rightarrow> byte option" where
  "Type_of pkt =
     (if length pkt < 4 then None
      else if pkt ! 1 OR pkt ! 2 OR pkt ! 3 \<noteq> 0 then None
      else Some (pkt ! 0))"

definition Demux :: "bytes \<Rightarrow> u32 option" where
  "Demux pkt =
     (if length pkt < 32 then None
      else if Type_of pkt \<noteq> Some 4 then None
      else Some (getle32 4 pkt))"

section \<open>The handshake messages\<close>

record HandshakeInitiation =
  hi_Sender :: u32
  hi_Ephemeral :: bytes
  hi_Static :: bytes
  hi_Timestamp :: bytes
  hi_MAC1 :: bytes
  hi_MAC2 :: bytes

definition MarshalInitiation :: "HandshakeInitiation \<Rightarrow> bytes \<Rightarrow> wg_error + bytes" where
  "MarshalInitiation m dst =
     (if length dst < 148 then Err WgShort
      else Ok ([1, 0, 0, 0] @ le32 (hi_Sender m) @ hi_Ephemeral m @ hi_Static m @ hi_Timestamp m @ hi_MAC1 m @ hi_MAC2 m))"

definition ParseHandshakeInitiation :: "bytes \<Rightarrow> wg_error + HandshakeInitiation" where
  "ParseHandshakeInitiation pkt =
     (if length pkt \<noteq> 148 then Err ErrMalformed
      else if Type_of pkt \<noteq> Some 1 then Err ErrMalformed
      else Ok \<lparr>hi_Sender = getle32 4 pkt, hi_Ephemeral = slice 8 40 pkt, hi_Static = slice 40 88 pkt,
        hi_Timestamp = slice 88 116 pkt, hi_MAC1 = slice 116 132 pkt, hi_MAC2 = drop 132 pkt\<rparr>)"

definition MACRegions :: "bytes \<Rightarrow> (bytes \<times> bytes) option" where
  "MACRegions msg =
     (if length msg = 148 then Some (take 116 msg, take 132 msg)
      else if length msg = 92 then Some (take 60 msg, take 76 msg)
      else None)"

record HandshakeResponse =
  hr_Sender :: u32
  hr_Receiver :: u32
  hr_Ephemeral :: bytes
  hr_Empty :: bytes
  hr_MAC1 :: bytes
  hr_MAC2 :: bytes

definition MarshalResponse :: "HandshakeResponse \<Rightarrow> bytes \<Rightarrow> wg_error + bytes" where
  "MarshalResponse m dst =
     (if length dst < 92 then Err WgShort
      else Ok ([2, 0, 0, 0] @ le32 (hr_Sender m) @ le32 (hr_Receiver m) @ hr_Ephemeral m @ hr_Empty m @ hr_MAC1 m @ hr_MAC2 m))"

definition ParseHandshakeResponse :: "bytes \<Rightarrow> wg_error + HandshakeResponse" where
  "ParseHandshakeResponse pkt =
     (if length pkt \<noteq> 92 then Err ErrMalformed
      else if Type_of pkt \<noteq> Some 2 then Err ErrMalformed
      else Ok \<lparr>hr_Sender = getle32 4 pkt, hr_Receiver = getle32 8 pkt, hr_Ephemeral = slice 12 44 pkt,
        hr_Empty = slice 44 60 pkt, hr_MAC1 = slice 60 76 pkt, hr_MAC2 = drop 76 pkt\<rparr>)"

record CookieReplyMsg =
  cr_Receiver :: u32
  cr_Nonce :: bytes
  cr_Cookie :: bytes

definition MarshalCookieReply :: "CookieReplyMsg \<Rightarrow> bytes \<Rightarrow> wg_error + bytes" where
  "MarshalCookieReply m dst =
     (if length dst < 64 then Err WgShort
      else Ok ([3, 0, 0, 0] @ le32 (cr_Receiver m) @ cr_Nonce m @ cr_Cookie m))"

definition ParseCookieReply :: "bytes \<Rightarrow> wg_error + CookieReplyMsg" where
  "ParseCookieReply pkt =
     (if length pkt \<noteq> 64 then Err ErrMalformed
      else if Type_of pkt \<noteq> Some 3 then Err ErrMalformed
      else Ok \<lparr>cr_Receiver = getle32 4 pkt, cr_Nonce = slice 8 32 pkt, cr_Cookie = slice 32 64 pkt\<rparr>)"

section \<open>Transport header and timestamp\<close>

definition PutTransportHeader :: "nat \<Rightarrow> u32 \<Rightarrow> u64 \<Rightarrow> wg_error + bytes" where
  "PutTransportHeader dstLen receiver counter =
     (if dstLen < 16 then Err WgShort else Ok ([4, 0, 0, 0] @ le32 receiver @ le64 counter))"

definition TransportCounter :: "bytes \<Rightarrow> u64 option" where
  "TransportCounter pkt = (if length pkt < 16 then None else Some (getle64 8 pkt))"

text \<open>The time is seconds and nanoseconds since 1970.\<close>

definition Timestamp :: "int \<times> nat \<Rightarrow> bytes" where
  "Timestamp t = be64 (of_int (2 ^ 62 + fst t)) @ be32 (of_nat (snd t))"

fun TimestampAfter :: "bytes \<Rightarrow> bytes \<Rightarrow> bool" where
  "TimestampAfter (a # as) (b # bs) = (if a \<noteq> b then a > b else TimestampAfter as bs)"
| "TimestampAfter _ _ = False"

section \<open>Lemmas\<close>

lemma length_arr [simp]: "length (arr n xs) = n"
  by (simp add: arr_def)

lemma arr_id: "length xs = n \<Longrightarrow> arr n xs = xs"
  by (simp add: arr_def)

lemma length_le32 [simp]: "length (le32 w) = 4"
  by (simp add: le32_def)

lemma length_le64 [simp]: "length (le64 w) = 8"
  by (simp add: le64_def)

lemma getle32_le32: "length a = i \<Longrightarrow> getle32 i (a @ le32 w @ r) = w"
  using unsigned_less [of w, where 'a = nat] by (simp add: getle32_def slice_def le32_def le_val_le_bytes)

lemma getle64_le64: "length a = i \<Longrightarrow> getle64 i (a @ le64 w @ r) = w"
  using unsigned_less [of w, where 'a = nat] by (simp add: getle64_def slice_def le64_def le_val_le_bytes)

lemma length_Timestamp [simp]: "length (Timestamp t) = 12"
  by (simp add: Timestamp_def)

lemma Type_of_hdr [simp]: "Type_of (t # 0 # 0 # 0 # r) = Some t"
  by (simp add: Type_of_def)

lemma ParseHandshakeInitiation_bytes:
  assumes "length e = 32" "length s = 48" "length t = 28" "length m1 = 16" "length m2 = 16"
  shows "ParseHandshakeInitiation ([1, 0, 0, 0] @ le32 w @ e @ s @ t @ m1 @ m2)
    = Ok \<lparr>hi_Sender = w, hi_Ephemeral = e, hi_Static = s, hi_Timestamp = t, hi_MAC1 = m1, hi_MAC2 = m2\<rparr>"
  using assms getle32_le32 [of "[1, 0, 0, 0]" 4 w] by (simp add: ParseHandshakeInitiation_def slice_def)

lemma ParseHandshakeResponse_bytes:
  assumes "length e = 32" "length s = 16" "length m1 = 16" "length m2 = 16"
  shows "ParseHandshakeResponse ([2, 0, 0, 0] @ le32 w @ le32 v @ e @ s @ m1 @ m2)
    = Ok \<lparr>hr_Sender = w, hr_Receiver = v, hr_Ephemeral = e, hr_Empty = s, hr_MAC1 = m1, hr_MAC2 = m2\<rparr>"
  using assms getle32_le32 [of "[2, 0, 0, 0]" 4 w] getle32_le32 [of "[2, 0, 0, 0] @ le32 w" 8 v]
  by (simp add: ParseHandshakeResponse_def slice_def)

lemma ParseCookieReply_bytes:
  assumes "length n = 24" "length c = 32"
  shows "ParseCookieReply ([3, 0, 0, 0] @ le32 w @ n @ c) = Ok \<lparr>cr_Receiver = w, cr_Nonce = n, cr_Cookie = c\<rparr>"
  using assms getle32_le32 [of "[3, 0, 0, 0]" 4 w] by (simp add: ParseCookieReply_def slice_def)

end
