(* ===== verification/Wg_Noise.thy ===== *)
theory Wg_Noise
  imports Wg_Wire Crypto Netip
begin

text \<open>
  WireGuard's handshake, \<^verbatim>\<open>internal/wireguard/noise\<close>: the key derivation of \<^verbatim>\<open>kdf.go\<close>, the initiator of
  \<^verbatim>\<open>noise.go\<close>, the responder of \<^verbatim>\<open>responder.go\<close> and the cookies of \<^verbatim>\<open>cookie.go\<close>.  BLAKE2s, its HMAC and MAC modes,
  X25519 and the AEADs are parameters with their documented laws; the clock and the random source are arguments.
  Every operation returns the state it leaves behind, on its error paths too.
\<close>

section \<open>Primitives\<close>

record wg_prims =
  wg_aead :: prims
  blake2s :: "bytes \<Rightarrow> bytes"
  blake2s128 :: "bytes \<Rightarrow> bytes \<Rightarrow> bytes"
  hmac_blake2s :: "bytes \<Rightarrow> bytes \<Rightarrow> bytes"
  x25519_pub :: "bytes \<Rightarrow> bytes"
  x25519 :: "bytes \<Rightarrow> bytes \<Rightarrow> bytes option"
  xchacha_seal :: "bytes \<Rightarrow> bytes \<Rightarrow> bytes \<Rightarrow> bytes \<Rightarrow> bytes"
  xchacha_open :: "bytes \<Rightarrow> bytes \<Rightarrow> bytes \<Rightarrow> bytes \<Rightarrow> bytes option"

text \<open>
  What the code relies on: output lengths, that opening inverts sealing, and that two parties with honest key pairs
  compute the same shared secret, which X25519 never refuses for a public key made from a private one.
\<close>

definition wg_ok :: "wg_prims \<Rightarrow> bool" where
  "wg_ok W \<longleftrightarrow> prims_ok (wg_aead W)
     \<and> (\<forall>x. length (blake2s W x) = 32) \<and> (\<forall>k x. length (blake2s128 W k x) = 16) \<and> (\<forall>k x. length (hmac_blake2s W k x) = 32)
     \<and> (\<forall>k. length (x25519_pub W k) = 32)
     \<and> (\<forall>a b. x25519 W a (x25519_pub W b) = x25519 W b (x25519_pub W a) \<and> x25519 W a (x25519_pub W b) \<noteq> None)
     \<and> (\<forall>k n ad pt. xchacha_open W k n ad (xchacha_seal W k n ad pt) = Some pt \<and> length (xchacha_seal W k n ad pt) = length pt + 16)"

definition construction :: bytes where "construction = ascii ''Noise_IKpsk2_25519_ChaChaPoly_BLAKE2s''"
definition wgIdentifier :: bytes where "wgIdentifier = ascii ''WireGuard v1 zx2c4 Jason@zx2c4.com''"
definition labelMAC1 :: bytes where "labelMAC1 = ascii ''mac1----''"
definition labelCookie :: bytes where "labelCookie = ascii ''cookie--''"

definition hashOf :: "wg_prims \<Rightarrow> bytes list \<Rightarrow> bytes" where
  "hashOf W parts = arr 32 (blake2s W (concat parts))"

definition mac128 :: "wg_prims \<Rightarrow> bytes \<Rightarrow> bytes \<Rightarrow> bytes" where
  "mac128 W k data = arr 16 (blake2s128 W k data)"

definition hmacSum :: "wg_prims \<Rightarrow> bytes \<Rightarrow> bytes list \<Rightarrow> bytes" where
  "hmacSum W k parts = arr 32 (hmac_blake2s W k (concat parts))"

definition kdf1 :: "wg_prims \<Rightarrow> bytes \<Rightarrow> bytes \<Rightarrow> bytes" where
  "kdf1 W ck input = (let temp = hmacSum W ck [input] in hmacSum W temp [[1]])"

definition kdf2 :: "wg_prims \<Rightarrow> bytes \<Rightarrow> bytes \<Rightarrow> bytes \<times> bytes" where
  "kdf2 W ck input =
     (let temp = hmacSum W ck [input];
          out1 = hmacSum W temp [[1]];
          out2 = hmacSum W temp [out1, [2]]
      in (out1, out2))"

definition kdf3 :: "wg_prims \<Rightarrow> bytes \<Rightarrow> bytes \<Rightarrow> bytes \<times> bytes \<times> bytes" where
  "kdf3 W ck input =
     (let temp = hmacSum W ck [input];
          out1 = hmacSum W temp [[1]];
          out2 = hmacSum W temp [out1, [2]];
          out3 = hmacSum W temp [out2, [3]]
      in (out1, out2, out3))"

text \<open>\<^verbatim>\<open>NewChaCha20Poly1305(k)\<close> followed by a call with the zero nonce; the constructor refuses other key lengths.\<close>

definition zeroNonce :: bytes where "zeroNonce = replicate 12 0"

definition zseal :: "wg_prims \<Rightarrow> bytes \<Rightarrow> bytes \<Rightarrow> bytes \<Rightarrow> wg_error + bytes" where
  "zseal W k pt ad = (if length k \<noteq> 32 then Err BadKeySize else Ok (aead_seal (wg_aead W) ChaCha20Poly1305 k zeroNonce ad pt))"

definition zopen :: "wg_prims \<Rightarrow> bytes \<Rightarrow> bytes \<Rightarrow> bytes \<Rightarrow> wg_error + bytes" where
  "zopen W k ct ad =
     (if length k \<noteq> 32 then Err BadKeySize
      else case aead_open (wg_aead W) ChaCha20Poly1305 k zeroNonce ad ct of None \<Rightarrow> Err HandshakeDecrypt | Some pt \<Rightarrow> Ok pt)"

definition macOver :: "bytes \<Rightarrow> u32 \<Rightarrow> bytes" where
  "macOver over typeWord = (if typeWord = 0 \<or> length over < 4 then over else put_at 0 (le32 typeWord) over)"

definition randomIndex :: "rand \<Rightarrow> u32 option" where
  "randomIndex rnd = map_option (\<lambda>b. ucast (b ! 0) OR push_bit 8 (ucast (b ! 1)) OR push_bit 16 (ucast (b ! 2)) OR push_bit 24 (ucast (b ! 3))) (rnd 4)"

definition PublicKey :: "wg_prims \<Rightarrow> bytes \<Rightarrow> wg_error + bytes" where
  "PublicKey W private = (if length private \<noteq> 32 then Err BadKeySize else Ok (arr 32 (x25519_pub W private)))"

section \<open>The initiator\<close>

record Keypair =
  kp_Send :: bytes
  kp_Recv :: bytes
  kp_Local :: u32
  kp_Remote :: u32

record Config =
  LocalStatic :: bytes
  RemoteStatic :: bytes
  PresharedKey :: bytes
  TypeInitiation :: u32
  TypeResponse :: u32

record Initiator =
  in_localStatic :: bytes
  in_remoteStatic :: bytes
  in_presharedKey :: bytes
  in_mac1Key :: bytes
  in_cookieKey :: bytes
  in_cookie :: bytes
  in_ephemeral :: bytes
  in_localIdx :: u32
  in_ck :: bytes
  in_h :: bytes
  in_lastMAC1 :: bytes
  in_sent :: bool
  in_typeInitiation :: u32

definition NewInitiator :: "wg_prims \<Rightarrow> Config \<Rightarrow> wg_error + Initiator" where
  "NewInitiator W cfg =
     (if length (LocalStatic cfg) \<noteq> 32 then Err BadKeySize
      else if length (RemoteStatic cfg) \<noteq> 32 then Err BadKeySize
      else Ok \<lparr>in_localStatic = LocalStatic cfg, in_remoteStatic = RemoteStatic cfg, in_presharedKey = PresharedKey cfg,
        in_mac1Key = hashOf W [labelMAC1, RemoteStatic cfg], in_cookieKey = hashOf W [labelCookie, RemoteStatic cfg],
        in_cookie = replicate 16 0, in_ephemeral = [], in_localIdx = 0, in_ck = replicate 32 0, in_h = replicate 32 0,
        in_lastMAC1 = replicate 16 0, in_sent = False, in_typeInitiation = TypeInitiation cfg\<rparr>)"

definition addMACs :: "wg_prims \<Rightarrow> bytes \<Rightarrow> Initiator \<Rightarrow> (wg_error + bytes) \<times> Initiator" where
  "addMACs W msg i = (case MACRegions msg of
     None \<Rightarrow> (Err NoMACRegions, i)
   | Some (over1, over2) \<Rightarrow>
       let m1 = mac128 W (in_mac1Key i) (macOver over1 (in_typeInitiation i));
           msg = put_at (length over1) m1 msg;
           i = i\<lparr>in_lastMAC1 := m1\<rparr>;
           over2 = take (length over2) msg
       in if in_cookie i = replicate 16 0 then (Ok (put_at (length over2) (replicate 16 0) msg), i)
          else let m2 = mac128 W (in_cookie i) (macOver over2 (in_typeInitiation i))
               in (Ok (put_at (length over2) m2 msg), i))"

definition Initiation :: "wg_prims \<Rightarrow> rand \<Rightarrow> int \<times> nat \<Rightarrow> Initiator \<Rightarrow> (wg_error + bytes) \<times> Initiator" where
  "Initiation W rnd now i =
     (if in_sent i then (Err AlreadySent, i)
      else let ck = hashOf W [construction]; ih = hashOf W [ck, wgIdentifier]; i = i\<lparr>in_ck := ck, in_h := hashOf W [ih, in_remoteStatic i]\<rparr> in
      case rnd 32 of None \<Rightarrow> (Err NoRand, i) | Some eph \<Rightarrow>
      let i = i\<lparr>in_ephemeral := eph\<rparr> in
      case randomIndex rnd of None \<Rightarrow> (Err NoRand, i) | Some idx \<Rightarrow>
      let i = i\<lparr>in_localIdx := idx\<rparr>;
          e = arr 32 (x25519_pub W eph);
          i = i\<lparr>in_h := hashOf W [in_h i, e], in_ck := kdf1 W (in_ck i) e\<rparr> in
      case x25519 W eph (in_remoteStatic i) of None \<Rightarrow> (Err DHFailed, i) | Some es \<Rightarrow>
      let (ck, k) = kdf2 W (in_ck i) es; i = i\<lparr>in_ck := ck\<rparr> in
      case zseal W k (x25519_pub W (in_localStatic i)) (in_h i) of Err x \<Rightarrow> (Err x, i) | Ok static \<Rightarrow>
      let s = arr 48 static; i = i\<lparr>in_h := hashOf W [in_h i, s]\<rparr> in
      case x25519 W (in_localStatic i) (in_remoteStatic i) of None \<Rightarrow> (Err DHFailed, i) | Some ss \<Rightarrow>
      let (ck, k) = kdf2 W (in_ck i) ss; i = i\<lparr>in_ck := ck\<rparr> in
      case zseal W k (Timestamp now) (in_h i) of Err x \<Rightarrow> (Err x, i) | Ok stamp \<Rightarrow>
      let t = arr 28 stamp; i = i\<lparr>in_h := hashOf W [in_h i, t]\<rparr> in
      case MarshalInitiation \<lparr>hi_Sender = in_localIdx i, hi_Ephemeral = e, hi_Static = s, hi_Timestamp = t,
             hi_MAC1 = replicate 16 0, hi_MAC2 = replicate 16 0\<rparr> (replicate 148 0) of Err x \<Rightarrow> (Err x, i) | Ok out \<Rightarrow>
      case addMACs W out i of (Err x, i) \<Rightarrow> (Err x, i) | (Ok out, i) \<Rightarrow> (Ok out, i\<lparr>in_sent := True\<rparr>))"

text \<open>\<^verbatim>\<open>Initiator.Consume\<close> assigns to its receiver only when it succeeds.\<close>

definition Initiator_Consume :: "wg_prims \<Rightarrow> bytes \<Rightarrow> Initiator \<Rightarrow> (wg_error + Keypair) \<times> Initiator" where
  "Initiator_Consume W pkt i =
     (if \<not> in_sent i then (Err NotSent, i)
      else case ParseHandshakeResponse pkt of Err x \<Rightarrow> (Err x, i) | Ok msg \<Rightarrow>
      if hr_Receiver msg \<noteq> in_localIdx i then (Err ErrWrongReceiver, i)
      else if length (hr_Ephemeral msg) \<noteq> 32 then (Err BadKeySize, i)
      else
      let peerEph = hr_Ephemeral msg;
          h = hashOf W [in_h i, hr_Ephemeral msg];
          ck = kdf1 W (in_ck i) (hr_Ephemeral msg) in
      case x25519 W (in_ephemeral i) peerEph of None \<Rightarrow> (Err DHFailed, i) | Some ee \<Rightarrow>
      let ck = kdf1 W ck ee in
      case x25519 W (in_localStatic i) peerEph of None \<Rightarrow> (Err DHFailed, i) | Some se \<Rightarrow>
      let ck = kdf1 W ck se;
          (ck, tau, k) = kdf3 W ck (in_presharedKey i);
          h = hashOf W [h, tau] in
      case zopen W k (hr_Empty msg) h of Err x \<Rightarrow> (Err x, i) | Ok _ \<Rightarrow>
      let h = hashOf W [h, hr_Empty msg];
          i = i\<lparr>in_ck := ck, in_h := h\<rparr>;
          (send, recv) = kdf2 W (in_ck i) []
      in (Ok \<lparr>kp_Send = send, kp_Recv = recv, kp_Local = in_localIdx i, kp_Remote = hr_Sender msg\<rparr>, i))"

section \<open>The responder\<close>

record Responder =
  re_localStatic :: bytes
  re_mac1Key :: bytes
  re_ck :: bytes
  re_h :: bytes
  re_peerEph :: bytes
  re_peerStatic :: bytes
  re_peerIndex :: u32
  re_timestamp :: bytes
  re_consumed :: bool
  re_typeInitiation :: u32
  re_typeResponse :: u32

definition NewResponderWithTypes :: "wg_prims \<Rightarrow> bytes \<Rightarrow> u32 \<Rightarrow> u32 \<Rightarrow> wg_error + Responder" where
  "NewResponderWithTypes W localStatic h1 h2 =
     (if length localStatic \<noteq> 32 then Err BadKeySize
      else Ok \<lparr>re_localStatic = localStatic, re_mac1Key = hashOf W [labelMAC1, x25519_pub W localStatic], re_ck = replicate 32 0,
        re_h = replicate 32 0, re_peerEph = [], re_peerStatic = [], re_peerIndex = 0, re_timestamp = replicate 12 0, re_consumed = False,
        re_typeInitiation = h1, re_typeResponse = h2\<rparr>)"

definition NewResponder :: "wg_prims \<Rightarrow> bytes \<Rightarrow> wg_error + Responder" where
  "NewResponder W localStatic = NewResponderWithTypes W localStatic 0 0"

definition Responder_Consume :: "wg_prims \<Rightarrow> bytes \<Rightarrow> Responder \<Rightarrow> (wg_error + (bytes \<times> bytes)) \<times> Responder" where
  "Responder_Consume W pkt r =
     (case ParseHandshakeInitiation pkt of Err x \<Rightarrow> (Err x, r) | Ok msg \<Rightarrow>
      case MACRegions pkt of None \<Rightarrow> (Err ErrMalformed, r) | Some (over1, _) \<Rightarrow>
      if mac128 W (re_mac1Key r) (macOver over1 (re_typeInitiation r)) \<noteq> hi_MAC1 msg then (Err ErrMAC1, r)
      else
      let r = r\<lparr>re_peerIndex := hi_Sender msg\<rparr>;
          ck = hashOf W [construction]; ih = hashOf W [ck, wgIdentifier];
          r = r\<lparr>re_ck := ck, re_h := hashOf W [ih, x25519_pub W (re_localStatic r)]\<rparr> in
      if length (hi_Ephemeral msg) \<noteq> 32 then (Err BadKeySize, r)
      else
      let r = r\<lparr>re_peerEph := hi_Ephemeral msg, re_h := hashOf W [re_h r, hi_Ephemeral msg], re_ck := kdf1 W (re_ck r) (hi_Ephemeral msg)\<rparr> in
      case x25519 W (re_localStatic r) (hi_Ephemeral msg) of None \<Rightarrow> (Err DHFailed, r) | Some es \<Rightarrow>
      let (ck, k) = kdf2 W (re_ck r) es; r = r\<lparr>re_ck := ck\<rparr> in
      case zopen W k (hi_Static msg) (re_h r) of Err x \<Rightarrow> (Err x, r) | Ok staticBytes \<Rightarrow>
      if length staticBytes \<noteq> 32 then (Err BadKeySize, r)
      else
      let r = r\<lparr>re_peerStatic := staticBytes, re_h := hashOf W [re_h r, hi_Static msg]\<rparr> in
      case x25519 W (re_localStatic r) staticBytes of None \<Rightarrow> (Err DHFailed, r) | Some ss \<Rightarrow>
      let (ck, k) = kdf2 W (re_ck r) ss; r = r\<lparr>re_ck := ck\<rparr> in
      case zopen W k (hi_Timestamp msg) (re_h r) of Err x \<Rightarrow> (Err x, r) | Ok ts \<Rightarrow>
      let r = r\<lparr>re_h := hashOf W [re_h r, hi_Timestamp msg], re_timestamp := put_at 0 (take 12 ts) (re_timestamp r), re_consumed := True\<rparr>
      in (Ok (arr 32 (re_peerStatic r), re_timestamp r), r))"

definition Response :: "wg_prims \<Rightarrow> rand \<Rightarrow> bytes \<Rightarrow> Responder \<Rightarrow> (wg_error + (bytes \<times> Keypair)) \<times> Responder" where
  "Response W rnd psk r =
     (if \<not> re_consumed r then (Err NotConsumed, r)
      else case rnd 32 of None \<Rightarrow> (Err NoRand, r) | Some eph \<Rightarrow>
      case randomIndex rnd of None \<Rightarrow> (Err NoRand, r) | Some localIdx \<Rightarrow>
      let e = arr 32 (x25519_pub W eph);
          r = r\<lparr>re_h := hashOf W [re_h r, e], re_ck := kdf1 W (re_ck r) e\<rparr> in
      case x25519 W eph (re_peerEph r) of None \<Rightarrow> (Err DHFailed, r) | Some ee \<Rightarrow>
      let r = r\<lparr>re_ck := kdf1 W (re_ck r) ee\<rparr> in
      case x25519 W eph (re_peerStatic r) of None \<Rightarrow> (Err DHFailed, r) | Some se \<Rightarrow>
      let r = r\<lparr>re_ck := kdf1 W (re_ck r) se\<rparr>;
          (ck, tau, k) = kdf3 W (re_ck r) psk;
          r = r\<lparr>re_ck := ck, re_h := hashOf W [re_h r, tau]\<rparr> in
      case zseal W k [] (re_h r) of Err x \<Rightarrow> (Err x, r) | Ok emp \<Rightarrow>
      let m = arr 16 emp; r = r\<lparr>re_h := hashOf W [re_h r, m]\<rparr> in
      case MarshalResponse \<lparr>hr_Sender = localIdx, hr_Receiver = re_peerIndex r, hr_Ephemeral = e, hr_Empty = m,
             hr_MAC1 = replicate 16 0, hr_MAC2 = replicate 16 0\<rparr> (replicate 92 0) of Err x \<Rightarrow> (Err x, r) | Ok out \<Rightarrow>
      let peerMAC1Key = hashOf W [labelMAC1, re_peerStatic r];
          m1 = mac128 W peerMAC1Key (macOver (take (92 - 2 * 16) out) (re_typeResponse r));
          out = put_at (92 - 2 * 16) m1 out;
          (recv, send) = kdf2 W (re_ck r) []
      in (Ok (out, \<lparr>kp_Send = send, kp_Recv = recv, kp_Local = localIdx, kp_Remote = re_peerIndex r\<rparr>), r))"

section \<open>Cookies\<close>

definition CookieRefreshTime :: int where "CookieRefreshTime = 120 * 1000000000"

text \<open>A secret never drawn has the zero time, here \<open>None\<close>.\<close>

record CookieChecker =
  cc_mac1Key :: bytes
  cc_encKey :: bytes
  cc_typeInitiation :: u32
  cc_secret :: bytes
  cc_secretAt :: "int option"

definition NewCookieChecker :: "wg_prims \<Rightarrow> bytes \<Rightarrow> u32 \<Rightarrow> wg_error + CookieChecker" where
  "NewCookieChecker W localStatic typeInitiation = (case PublicKey W localStatic of
     Err x \<Rightarrow> Err x
   | Ok pub \<Rightarrow> Ok \<lparr>cc_mac1Key = hashOf W [labelMAC1, pub], cc_encKey = hashOf W [labelCookie, pub], cc_typeInitiation = typeInitiation,
       cc_secret = replicate 32 0, cc_secretAt = None\<rparr>)"

text \<open>The octets of an address, \<^verbatim>\<open>netip.Addr.AsSlice\<close>.\<close>

fun AsSlice :: "Addr \<Rightarrow> bytes" where
  "AsSlice NoAddr = []"
| "AsSlice (Addr4 a) = be_bytes 4 (unat a)"
| "AsSlice (Addr6 a) = be_bytes 16 (unat a)"

type_synonym addr_port = "Addr \<times> u16"

definition cookieFor :: "wg_prims \<Rightarrow> addr_port \<Rightarrow> CookieChecker \<Rightarrow> bytes" where
  "cookieFor W src c = mac128 W (cc_secret c) (AsSlice (Unmap (fst src)) @ be16 (snd src))"

definition CheckMAC1 :: "wg_prims \<Rightarrow> bytes \<Rightarrow> CookieChecker \<Rightarrow> bool" where
  "CheckMAC1 W msg c = (case MACRegions msg of
     None \<Rightarrow> False
   | Some (over1, _) \<Rightarrow> length msg = 148 \<and>
       mac128 W (cc_mac1Key c) (macOver over1 (cc_typeInitiation c)) = slice (length over1) (length over1 + 16) msg)"

definition CheckMAC2 :: "wg_prims \<Rightarrow> int \<Rightarrow> bytes \<Rightarrow> addr_port \<Rightarrow> CookieChecker \<Rightarrow> bool" where
  "CheckMAC2 W now msg src c = (case MACRegions msg of
     None \<Rightarrow> False
   | Some (_, over2) \<Rightarrow> length msg = 148 \<and>
       (let fresh = (case cc_secretAt c of None \<Rightarrow> False | Some t \<Rightarrow> now - t \<le> CookieRefreshTime);
            cookie = cookieFor W src c
        in if \<not> fresh then False
           else mac128 W cookie (macOver over2 (cc_typeInitiation c)) = slice (length over2) (length over2 + 16) msg))"

definition CookieReply :: "wg_prims \<Rightarrow> rand \<Rightarrow> int \<Rightarrow> bytes \<Rightarrow> addr_port \<Rightarrow> CookieChecker \<Rightarrow> (wg_error + bytes) \<times> CookieChecker" where
  "CookieReply W rnd now msg src c =
     (if length msg \<noteq> 148 then (Err ErrMalformed, c)
      else
      let over1 = (case MACRegions msg of None \<Rightarrow> [] | Some (o1, _) \<Rightarrow> o1);
          mac1 = slice (length over1) (length over1 + 16) msg;
          renew = (case cc_secretAt c of None \<Rightarrow> True | Some t \<Rightarrow> now - t > CookieRefreshTime) in
      case (if renew then map_option (\<lambda>s. c\<lparr>cc_secret := s, cc_secretAt := Some now\<rparr>) (rnd 32) else Some c) of
        None \<Rightarrow> (Err NoRand, c)
      | Some c \<Rightarrow>
      let cookie = cookieFor W src c in
      case rnd 24 of None \<Rightarrow> (Err NoRand, c) | Some nonce \<Rightarrow>
      if length (cc_encKey c) \<noteq> 32 then (Err BadKeySize, c)
      else (MarshalCookieReply \<lparr>cr_Receiver = getle32 4 msg, cr_Nonce = nonce,
              cr_Cookie = arr 32 (xchacha_seal W (cc_encKey c) nonce mac1 cookie)\<rparr> (replicate 64 0), c))"

definition SetCookie :: "bytes \<Rightarrow> Initiator \<Rightarrow> Initiator" where
  "SetCookie c i = i\<lparr>in_cookie := c\<rparr>"

definition ConsumeCookieReply :: "wg_prims \<Rightarrow> bytes \<Rightarrow> Initiator \<Rightarrow> wg_error + bytes" where
  "ConsumeCookieReply W pkt i =
     (if \<not> in_sent i then Err ErrCookieReply
      else case ParseCookieReply pkt of Err x \<Rightarrow> Err x | Ok msg \<Rightarrow>
      if cr_Receiver msg \<noteq> in_localIdx i then Err ErrCookieReply
      else if length (in_cookieKey i) \<noteq> 32 then Err BadKeySize
      else case xchacha_open W (in_cookieKey i) (cr_Nonce msg) (in_lastMAC1 i) (cr_Cookie msg) of
        None \<Rightarrow> Err ErrCookieReply
      | Some pt \<Rightarrow> Ok (arr 16 pt))"

section \<open>The transcript\<close>

text \<open>What both sides compute from the two secrets of the first message, and from those of the second.\<close>

definition transcript1 :: "wg_prims \<Rightarrow> bytes \<Rightarrow> bytes \<Rightarrow> bytes \<Rightarrow> bytes \<Rightarrow> bytes \<Rightarrow> bytes \<Rightarrow> bytes \<times> bytes \<times> bytes \<times> bytes" where
  "transcript1 W spub e es ipub ss ts =
     (let c0 = hashOf W [construction];
          h1 = hashOf W [hashOf W [hashOf W [c0, wgIdentifier], spub], e];
          (c2, k2) = kdf2 W (kdf1 W c0 e) es;
          s = aead_seal (wg_aead W) ChaCha20Poly1305 k2 zeroNonce h1 ipub;
          h2 = hashOf W [h1, s];
          (c3, k3) = kdf2 W c2 ss;
          t = aead_seal (wg_aead W) ChaCha20Poly1305 k3 zeroNonce h2 ts
      in (s, t, c3, hashOf W [h2, t]))"

definition transcript2 :: "wg_prims \<Rightarrow> bytes \<Rightarrow> bytes \<Rightarrow> bytes \<Rightarrow> bytes \<Rightarrow> bytes \<Rightarrow> bytes \<Rightarrow> bytes \<times> bytes \<times> bytes" where
  "transcript2 W ck h e ee se psk =
     (let (c, tau, k) = kdf3 W (kdf1 W (kdf1 W (kdf1 W ck e) ee) se) psk;
          h' = hashOf W [hashOf W [h, e], tau];
          m = aead_seal (wg_aead W) ChaCha20Poly1305 k zeroNonce h' [];
          (a, b) = kdf2 W c []
      in (m, a, b))"

lemma wg_lengths [simp]: "length (hashOf W p) = 32" "length (mac128 W k x) = 16" "length (hmacSum W k p) = 32"
  by (simp_all add: hashOf_def mac128_def hmacSum_def)

lemma length_kdf [simp]: "length (fst (kdf2 W k x)) = 32" "length (snd (kdf2 W k x)) = 32" "length (snd (snd (kdf3 W k x))) = 32"
  by (simp_all add: kdf2_def kdf3_def Let_def)

lemma wg_okD:
  assumes "wg_ok W"
  shows "prims_ok (wg_aead W)" "length (x25519_pub W k) = 32" "x25519 W a (x25519_pub W b) = x25519 W b (x25519_pub W a)"
    "x25519 W a (x25519_pub W b) \<noteq> None" "xchacha_open W k n ad (xchacha_seal W k n ad pt) = Some pt"
    "length (xchacha_seal W k n ad pt) = length pt + 16"
  using assms by (simp_all add: wg_ok_def)

lemma length_wg_seal: "wg_ok W \<Longrightarrow> length (aead_seal (wg_aead W) g k n ad pt) = length pt + 16"
  by (simp add: wg_ok_def prims_ok_def)

lemma wg_open_seal: "wg_ok W \<Longrightarrow> aead_open (wg_aead W) g k n ad (aead_seal (wg_aead W) g k n ad pt) = Some pt"
  by (simp add: wg_ok_def prims_ok_def)

lemma length_macOver [simp]: "length (macOver x t) = length x"
  by (auto simp: macOver_def)

definition wg_h0 :: "wg_prims \<Rightarrow> bytes \<Rightarrow> bytes \<Rightarrow> bytes" where
  "wg_h0 W spub e = hashOf W [hashOf W [hashOf W [hashOf W [construction], wgIdentifier], spub], e]"

definition wg_k0 :: "wg_prims \<Rightarrow> bytes \<Rightarrow> bytes \<Rightarrow> bytes \<times> bytes" where
  "wg_k0 W e es = kdf2 W (kdf1 W (hashOf W [construction]) e) es"

lemma transcript1D:
  assumes "transcript1 W spub e es ipub ss ts = (s, t, c, h)"
  shows "aead_seal (wg_aead W) ChaCha20Poly1305 (snd (wg_k0 W e es)) zeroNonce (wg_h0 W spub e) ipub = s"
    and "aead_seal (wg_aead W) ChaCha20Poly1305 (snd (kdf2 W (fst (wg_k0 W e es)) ss)) zeroNonce (hashOf W [wg_h0 W spub e, s]) ts = t"
    and "fst (kdf2 W (fst (wg_k0 W e es)) ss) = c" "hashOf W [hashOf W [wg_h0 W spub e, s], t] = h"
  using assms by (auto simp: transcript1_def wg_h0_def wg_k0_def Let_def case_prod_beta)

lemma length_wg_k0 [simp]: "length (snd (wg_k0 W e es)) = 32"
  by (simp add: wg_k0_def)

text \<open>The two authenticators end up in their fields; the second covers the first.\<close>

definition mac2_of :: "wg_prims \<Rightarrow> Initiator \<Rightarrow> bytes \<Rightarrow> bytes" where
  "mac2_of W i body = (if in_cookie i = replicate 16 0 then replicate 16 0 else mac128 W (in_cookie i) (macOver body (in_typeInitiation i)))"

lemma length_mac2_of: "length (mac2_of W i body) = 16"
  by (simp add: mac2_of_def)

lemma addMACs_eq:
  assumes "length body = 116" and m1: "m1 = mac128 W (in_mac1Key i) (macOver body (in_typeInitiation i))"
  shows "addMACs W (body @ replicate 16 0 @ replicate 16 0) i = (Ok (body @ m1 @ mac2_of W i (body @ m1)), i\<lparr>in_lastMAC1 := m1\<rparr>)"
proof -
  have l: "length m1 = 16" by (simp add: m1)
  have r: "MACRegions (body @ replicate 16 0 @ replicate 16 0) = Some (body, body @ replicate 16 0)" using assms(1) by (simp add: MACRegions_def)
  have p: "put_at (length body) m1 (body @ replicate 16 0 @ replicate 16 0) = body @ m1 @ replicate 16 0"
    using l by (intro put_at_mid) simp
  have q: "put_at 132 x (body @ m1 @ replicate 16 0) = body @ m1 @ x" if "length x = 16" for x
    using put_at_fill [of x "replicate 16 0" "body @ m1"] that assms(1) l by simp
  show ?thesis unfolding addMACs_def r option.case prod.case m1 [symmetric] Let_def p using assms(1) l
    by (simp add: q mac2_of_def)
qed

lemma Initiation_eq:
  assumes "wg_ok W" "\<not> in_sent i" "rnd 32 = Some eph" "randomIndex rnd = Some idx"
    and "x25519 W eph (in_remoteStatic i) = Some es" "x25519 W (in_localStatic i) (in_remoteStatic i) = Some ss"
    and tr: "transcript1 W (in_remoteStatic i) (x25519_pub W eph) es (x25519_pub W (in_localStatic i)) ss (Timestamp now) = (s, t, c, h)"
    and body: "body = [1, 0, 0, 0] @ le32 idx @ x25519_pub W eph @ s @ t"
    and m1: "m1 = mac128 W (in_mac1Key i) (macOver body (in_typeInitiation i))"
  shows "Initiation W rnd now i = (Ok (body @ m1 @ mac2_of W i (body @ m1)),
      i\<lparr>in_ephemeral := eph, in_localIdx := idx, in_ck := c, in_h := h, in_lastMAC1 := m1, in_sent := True\<rparr>)"
    and "length s = 48" "length t = 28" "length body = 116"
proof -
  note tr = transcript1D [OF tr]
  show l: "length s = 48" "length t = 28"
    using length_wg_seal [OF assms(1)] wg_okD(2) [OF assms(1)] by (simp_all add: tr(1,2) [symmetric])
  then show lb: "length body = 116" using wg_okD(2) [OF assms(1)] by (simp add: body)
  define j where "j = i\<lparr>in_ephemeral := eph, in_localIdx := idx, in_ck := c, in_h := h\<rparr>"
  have a: "addMACs W (body @ replicate 16 0 @ replicate 16 0) j = (Ok (body @ m1 @ mac2_of W j (body @ m1)), j\<lparr>in_lastMAC1 := m1\<rparr>)"
    using addMACs_eq [OF lb, of m1 W j] by (simp add: m1 j_def)
  have e: "arr 32 (x25519_pub W eph) = x25519_pub W eph" "arr 48 s = s" "arr 28 t = t" using l wg_okD(2) [OF assms(1)] by (simp_all add: arr_id)
  show "Initiation W rnd now i = (Ok (body @ m1 @ mac2_of W i (body @ m1)),
      i\<lparr>in_ephemeral := eph, in_localIdx := idx, in_ck := c, in_h := h, in_lastMAC1 := m1, in_sent := True\<rparr>)"
    using assms(2-6) a
    by (simp add: Initiation_def zseal_def MarshalInitiation_def body j_def mac2_of_def Let_def case_prod_beta e
        wg_h0_def [symmetric] wg_k0_def [symmetric] tr)
qed

lemma Responder_Consume_eq:
  assumes "wg_ok W" and r: "NewResponderWithTypes W sr h1 h2 = Ok r"
    and "x25519 W sr e = Some es" "x25519 W sr ipub = Some ss" "length e = 32" "length ipub = 32" "length ts = 12"
    and tr: "transcript1 W (x25519_pub W sr) e es ipub ss ts = (s, t, c, h)" and l: "length s = 48" "length t = 28"
    and body: "body = [1, 0, 0, 0] @ le32 idx @ e @ s @ t"
    and m1: "m1 = mac128 W (hashOf W [labelMAC1, x25519_pub W sr]) (macOver body h1)" and m2: "length m2 = 16"
  shows "Responder_Consume W (body @ m1 @ m2) r = (Ok (ipub, ts),
      r\<lparr>re_peerIndex := idx, re_ck := c, re_h := h, re_peerEph := e, re_peerStatic := ipub, re_timestamp := ts, re_consumed := True\<rparr>)"
proof -
  note tr = transcript1D [OF tr]
  have lm: "length m1 = 16" by (simp add: m1)
  have pa: "ParseHandshakeInitiation (body @ m1 @ m2) = Ok \<lparr>hi_Sender = idx, hi_Ephemeral = e, hi_Static = s, hi_Timestamp = t, hi_MAC1 = m1, hi_MAC2 = m2\<rparr>"
    using ParseHandshakeInitiation_bytes [OF assms(5) l lm m2, of idx] by (simp add: body)
  have lb: "length body = 116" using assms(5) l by (simp add: body)
  have mr: "MACRegions (body @ m1 @ m2) = Some (body, body @ m1)" using lb lm m2 by (simp add: MACRegions_def)
  have o: "aead_open (wg_aead W) ChaCha20Poly1305 (snd (wg_k0 W e es)) zeroNonce (wg_h0 W (x25519_pub W sr) e) s = Some ipub"
    "aead_open (wg_aead W) ChaCha20Poly1305 (snd (kdf2 W (fst (wg_k0 W e es)) ss)) zeroNonce (hashOf W [wg_h0 W (x25519_pub W sr) e, s]) t = Some ts"
    using wg_open_seal [OF assms(1)] tr(1,2) by metis+
  have r': "re_localStatic r = sr" "re_mac1Key r = hashOf W [labelMAC1, x25519_pub W sr]" "re_typeInitiation r = h1" "re_timestamp r = replicate 12 0"
    using r by (auto simp: NewResponderWithTypes_def split: if_splits)
  have ts: "put_at 0 ts (replicate 12 0) = ts" using put_at_fill [of ts "replicate 12 0" "[]"] assms(7) by simp
  show ?thesis unfolding Responder_Consume_def pa sum.case mr option.case prod.case
    using assms(3-7) m1 by (simp add: r' Let_def case_prod_beta zopen_def wg_h0_def [symmetric] wg_k0_def [symmetric] o tr(3,4) ts arr_id)
qed

definition wg_k3 :: "wg_prims \<Rightarrow> bytes \<Rightarrow> bytes \<Rightarrow> bytes \<Rightarrow> bytes \<Rightarrow> bytes \<Rightarrow> bytes \<times> bytes \<times> bytes" where
  "wg_k3 W ck e ee se psk = kdf3 W (kdf1 W (kdf1 W (kdf1 W ck e) ee) se) psk"

lemma transcript2D:
  assumes "transcript2 W ck h e ee se psk = (m, a, b)"
  shows "aead_seal (wg_aead W) ChaCha20Poly1305 (snd (snd (wg_k3 W ck e ee se psk))) zeroNonce
      (hashOf W [hashOf W [h, e], fst (snd (wg_k3 W ck e ee se psk))]) [] = m"
    and "kdf2 W (fst (wg_k3 W ck e ee se psk)) [] = (a, b)"
  using assms by (auto simp: transcript2_def wg_k3_def Let_def case_prod_beta prod_eq_iff)

lemma length_wg_k3 [simp]: "length (snd (snd (wg_k3 W ck e ee se psk))) = 32"
  by (simp add: wg_k3_def)

lemma Response_eq:
  assumes "wg_ok W" "re_consumed r" "rnd 32 = Some eph" "randomIndex rnd = Some idx"
    and "x25519 W eph (re_peerEph r) = Some ee" "x25519 W eph (re_peerStatic r) = Some se"
    and tr: "transcript2 W (re_ck r) (re_h r) (x25519_pub W eph) ee se psk = (m, a, b)"
  shows "\<exists>m1 r'. Response W rnd psk r = (Ok ([2, 0, 0, 0] @ le32 idx @ le32 (re_peerIndex r) @ x25519_pub W eph @ m @ m1 @ replicate 16 0,
      \<lparr>kp_Send = b, kp_Recv = a, kp_Local = idx, kp_Remote = re_peerIndex r\<rparr>), r') \<and> length m = 16 \<and> length m1 = 16"
proof -
  note tr = transcript2D [OF tr]
  have lm: "length m = 16" using length_wg_seal [OF assms(1)] by (simp add: tr(1) [symmetric])
  have e: "arr 32 (x25519_pub W eph) = x25519_pub W eph" "arr 16 m = m" using lm wg_okD(2) [OF assms(1)] by (simp_all add: arr_id)
  define body where "body = [2, 0, 0, 0] @ le32 idx @ le32 (re_peerIndex r) @ x25519_pub W eph @ m"
  have lb: "length body = 60" using lm wg_okD(2) [OF assms(1)] by (simp add: body_def)
  have p: "put_at 60 x (body @ replicate 16 0 @ replicate 16 0) = body @ x @ replicate 16 0" if "length x = 16" for x
    using put_at_mid [of x "replicate 16 0" body "replicate 16 0"] that lb by simp
  define m1 where "m1 = mac128 W (hashOf W [labelMAC1, re_peerStatic r]) (macOver body (re_typeResponse r))"
  have mar: "MarshalResponse \<lparr>hr_Sender = idx, hr_Receiver = re_peerIndex r, hr_Ephemeral = x25519_pub W eph, hr_Empty = m,
      hr_MAC1 = replicate 16 0, hr_MAC2 = replicate 16 0\<rparr> (replicate 92 0) = Ok (body @ replicate 16 0 @ replicate 16 0)"
    by (simp add: MarshalResponse_def body_def)
  have "\<exists>r'. Response W rnd psk r = (Ok (body @ m1 @ replicate 16 0, \<lparr>kp_Send = b, kp_Recv = a, kp_Local = idx, kp_Remote = re_peerIndex r\<rparr>), r')"
    using assms(2-6) lb
    by (simp add: Response_def zseal_def Let_def case_prod_beta e mar p m1_def wg_k3_def [symmetric] tr)
  then show ?thesis using lm by (auto simp: body_def m1_def)
qed

lemma Initiator_Consume_eq:
  assumes "wg_ok W" "in_sent i" "x25519 W (in_ephemeral i) e = Some ee" "x25519 W (in_localStatic i) e = Some se" "length e = 32"
    and tr: "transcript2 W (in_ck i) (in_h i) e ee se (in_presharedKey i) = (m, a, b)" and l: "length m = 16" "length m1 = 16" "length m2 = 16"
  shows "\<exists>i'. Initiator_Consume W ([2, 0, 0, 0] @ le32 idx @ le32 (in_localIdx i) @ e @ m @ m1 @ m2) i
    = (Ok \<lparr>kp_Send = a, kp_Recv = b, kp_Local = in_localIdx i, kp_Remote = idx\<rparr>, i')"
proof -
  note tr = transcript2D [OF tr]
  have o: "aead_open (wg_aead W) ChaCha20Poly1305 (snd (snd (wg_k3 W (in_ck i) e ee se (in_presharedKey i)))) zeroNonce
      (hashOf W [hashOf W [in_h i, e], fst (snd (wg_k3 W (in_ck i) e ee se (in_presharedKey i)))]) m = Some []"
    using wg_open_seal [OF assms(1)] tr(1) by metis
  show ?thesis unfolding Initiator_Consume_def ParseHandshakeResponse_bytes [OF assms(5) l] sum.case
    using assms(2-5) by (simp add: Let_def case_prod_beta zopen_def wg_k3_def [symmetric] o tr(2))
qed

section \<open>Properties\<close>

text \<open>
  C6: an honest handshake completes and both ends hold the same keys.  Whatever static keys, preshared key, message-type words
  and cookie, when random octets can be read: the initiator's first message is accepted by the responder, who learns the initiator's
  public key and exactly its timestamp; the response, made with the same preshared key, is accepted by the initiator; each one's sending key is the other's receiving
  key, and each addresses the other by the index the other chose.
\<close>

theorem wg_handshake_agrees:
  assumes "wg_ok W" "length si = 32" "length sr = 32" and "rnd 32 \<noteq> None" "rnd 4 \<noteq> None" "rnd' 32 \<noteq> None" "rnd' 4 \<noteq> None"
  shows "\<exists>i i1 i2 r r1 r2 msg resp ki kr.
      NewInitiator W \<lparr>LocalStatic = si, RemoteStatic = x25519_pub W sr, PresharedKey = psk, TypeInitiation = h1, TypeResponse = h2\<rparr> = Ok i
    \<and> NewResponderWithTypes W sr h1 h2 = Ok r
    \<and> Initiation W rnd now (SetCookie cookie i) = (Ok msg, i1)
    \<and> Responder_Consume W msg r = (Ok (x25519_pub W si, Timestamp now), r1)
    \<and> Response W rnd' psk r1 = (Ok (resp, kr), r2)
    \<and> Initiator_Consume W resp i1 = (Ok ki, i2)
    \<and> kp_Send ki = kp_Recv kr \<and> kp_Recv ki = kp_Send kr \<and> kp_Local ki = kp_Remote kr \<and> kp_Remote ki = kp_Local kr"
proof -
  note dh = wg_okD(3,4) [OF assms(1)] and pl = wg_okD(2) [OF assms(1)]
  let ?sp = "x25519_pub W sr" and ?ip = "x25519_pub W si"
  obtain i where i: "NewInitiator W \<lparr>LocalStatic = si, RemoteStatic = ?sp, PresharedKey = psk, TypeInitiation = h1, TypeResponse = h2\<rparr> = Ok i"
    "in_localStatic i = si" "in_remoteStatic i = ?sp" "in_presharedKey i = psk" "in_mac1Key i = hashOf W [labelMAC1, ?sp]" "in_typeInitiation i = h1" "\<not> in_sent i"
    using assms(2) pl by (simp add: NewInitiator_def)
  obtain r where r: "NewResponderWithTypes W sr h1 h2 = Ok r" using assms(3) by (simp add: NewResponderWithTypes_def)
  obtain eph idx eph' idx' where e: "rnd 32 = Some eph" "randomIndex rnd = Some idx" "rnd' 32 = Some eph'" "randomIndex rnd' = Some idx'"
    using assms(4-7) by (auto simp: randomIndex_def)
  let ?e = "x25519_pub W eph" and ?e' = "x25519_pub W eph'"
  obtain es ss ee se where d: "x25519 W eph ?sp = Some es" "x25519 W si ?sp = Some ss" "x25519 W eph ?e' = Some ee" "x25519 W si ?e' = Some se"
    using dh(2) by (meson option.exhaust)
  then have d': "x25519 W sr ?e = Some es" "x25519 W sr ?ip = Some ss" "x25519 W eph' ?e = Some ee" "x25519 W eph' ?ip = Some se"
    using dh(1) by metis+
  obtain s t c h where tr: "transcript1 W ?sp ?e es ?ip ss (Timestamp now) = (s, t, c, h)" by (cases "transcript1 W ?sp ?e es ?ip ss (Timestamp now)")
  obtain m a b where tr': "transcript2 W c h ?e' ee se psk = (m, a, b)" by (cases "transcript2 W c h ?e' ee se psk")
  define body where "body = [1, 0, 0, 0] @ le32 idx @ ?e @ s @ t"
  define m1 where "m1 = mac128 W (hashOf W [labelMAC1, ?sp]) (macOver body h1)"
  define j where "j = SetCookie cookie i"
  have j: "in_localStatic j = si" "in_remoteStatic j = ?sp" "in_presharedKey j = psk" "in_mac1Key j = hashOf W [labelMAC1, ?sp]" "in_typeInitiation j = h1" "\<not> in_sent j"
    using i by (simp_all add: j_def SetCookie_def)
  define m2 where "m2 = mac2_of W j (body @ m1)"
  define i1 where "i1 = j\<lparr>in_ephemeral := eph, in_localIdx := idx, in_ck := c, in_h := h, in_lastMAC1 := m1, in_sent := True\<rparr>"
  have ini: "Initiation W rnd now j = (Ok (body @ m1 @ m2), i1)" and l: "length s = 48" "length t = 28"
    using Initiation_eq [OF assms(1) j(6) e(1,2), unfolded j, OF d(1,2) tr body_def m1_def] by (simp_all add: m2_def i1_def)
  have lm2: "length m2 = 16" by (simp add: m2_def mac2_of_def)
  define r1 where "r1 = r\<lparr>re_peerIndex := idx, re_ck := c, re_h := h, re_peerEph := ?e, re_peerStatic := ?ip, re_timestamp := Timestamp now, re_consumed := True\<rparr>"
  have con: "Responder_Consume W (body @ m1 @ m2) r = (Ok (?ip, Timestamp now), r1)"
    unfolding r1_def using Responder_Consume_eq [OF assms(1) r d'(1,2) pl pl _ tr l body_def m1_def lm2] by simp
  obtain m1' r2 where rsp: "Response W rnd' psk r1 = (Ok ([2, 0, 0, 0] @ le32 idx' @ le32 idx @ ?e' @ m @ m1' @ replicate 16 0,
      \<lparr>kp_Send = b, kp_Recv = a, kp_Local = idx', kp_Remote = idx\<rparr>), r2)" "length m = 16" "length m1' = 16"
    using Response_eq [OF assms(1) _ e(3,4), of r1 ee se psk m a b] d'(3,4) tr' by (auto simp: r1_def)
  obtain i2 where fin: "Initiator_Consume W ([2, 0, 0, 0] @ le32 idx' @ le32 idx @ ?e' @ m @ m1' @ replicate 16 0) i1
      = (Ok \<lparr>kp_Send = a, kp_Recv = b, kp_Local = idx, kp_Remote = idx'\<rparr>, i2)"
    using Initiator_Consume_eq [OF assms(1) _ _ _ pl, of i1 eph' ee se m a b m1' "replicate 16 0" idx'] d(3,4) tr' rsp(2,3) j by (auto simp: i1_def)
  show ?thesis using i(1) r ini [unfolded j_def] con rsp(1) fin by (intro exI conjI) (assumption | simp)+
qed

definition example_wg :: wg_prims where
  "example_wg = \<lparr>wg_aead = example_prims, blake2s = \<lambda>x. replicate 32 (sum_list x), blake2s128 = \<lambda>k x. replicate 16 (sum_list k + sum_list x),
     hmac_blake2s = \<lambda>k x. replicate 32 (sum_list k + sum_list x), x25519_pub = \<lambda>k. replicate 32 (sum_list k),
     x25519 = \<lambda>a p. Some (replicate 32 (sum_list a * hd p)),
     xchacha_seal = aead_seal example_prims ChaCha20Poly1305, xchacha_open = aead_open example_prims ChaCha20Poly1305\<rparr>"

lemma example_wg_ok: "wg_ok example_wg"
  using example_prims_ok by (simp add: wg_ok_def example_wg_def prims_ok_def mult.commute)

lemma wg_handshake_agrees_witness:
  "\<exists>i i1 i2 r r1 r2 msg resp ki kr.
      NewInitiator example_wg \<lparr>LocalStatic = replicate 32 1, RemoteStatic = x25519_pub example_wg (replicate 32 2), PresharedKey = replicate 32 5,
        TypeInitiation = 0, TypeResponse = 0\<rparr> = Ok i
    \<and> NewResponderWithTypes example_wg (replicate 32 2) 0 0 = Ok r
    \<and> Initiation example_wg (\<lambda>n. Some (replicate n 3)) (7, 8) (SetCookie [] i) = (Ok msg, i1)
    \<and> Responder_Consume example_wg msg r = (Ok (x25519_pub example_wg (replicate 32 1), Timestamp (7, 8)), r1)
    \<and> Response example_wg (\<lambda>n. Some (replicate n 4)) (replicate 32 5) r1 = (Ok (resp, kr), r2)
    \<and> Initiator_Consume example_wg resp i1 = (Ok ki, i2)
    \<and> kp_Send ki = kp_Recv kr \<and> kp_Recv ki = kp_Send kr \<and> kp_Local ki = kp_Remote kr \<and> kp_Remote ki = kp_Local kr"
  by (rule wg_handshake_agrees [OF example_wg_ok]) simp_all

lemma Initiation_honest:
  assumes "wg_ok W" "rnd 32 \<noteq> None" "rnd 4 \<noteq> None" "\<not> in_sent i" "in_remoteStatic i = x25519_pub W sr"
  shows "\<exists>body m1 i1. Initiation W rnd now i = (Ok (body @ m1 @ mac2_of W i (body @ m1)), i1) \<and> length body = 116
    \<and> m1 = mac128 W (in_mac1Key i) (macOver body (in_typeInitiation i)) \<and> getle32 4 (body @ m1 @ mac2_of W i (body @ m1)) = in_localIdx i1
    \<and> in_sent i1 \<and> in_lastMAC1 i1 = m1 \<and> in_cookieKey i1 = in_cookieKey i"
proof -
  obtain eph idx where e: "rnd 32 = Some eph" "randomIndex rnd = Some idx" using assms(2,3) by (auto simp: randomIndex_def)
  obtain es ss where d: "x25519 W eph (in_remoteStatic i) = Some es" "x25519 W (in_localStatic i) (in_remoteStatic i) = Some ss"
    unfolding assms(5) using wg_okD(4) [OF assms(1)] by (meson option.exhaust)
  obtain s t c h where tr: "transcript1 W (in_remoteStatic i) (x25519_pub W eph) es (x25519_pub W (in_localStatic i)) ss (Timestamp now) = (s, t, c, h)"
    by (cases "transcript1 W (in_remoteStatic i) (x25519_pub W eph) es (x25519_pub W (in_localStatic i)) ss (Timestamp now)")
  note I = Initiation_eq [OF assms(1,4) e d tr refl refl]
  show ?thesis by (rule exI, rule exI, rule exI, rule conjI, rule I(1)) (use I(4) getle32_le32 [of "[1, 0, 0, 0]" 4 idx] in simp)
qed

lemma CookieReply_eq:
  assumes "length (cc_encKey c) = 32" "rand_ok rc" "rc 32 \<noteq> None" "rc 24 \<noteq> None" "length body = 116" "length m1 = 16" "length m2 = 16"
  shows "\<exists>nonce c' at. CookieReply W rc t (body @ m1 @ m2) src c = (MarshalCookieReply \<lparr>cr_Receiver = getle32 4 (body @ m1 @ m2), cr_Nonce = nonce,
      cr_Cookie = arr 32 (xchacha_seal W (cc_encKey c) nonce m1 (cookieFor W src c'))\<rparr> (replicate 64 0), c')
    \<and> length nonce = 24 \<and> cc_secretAt c' = Some at \<and> cc_mac1Key c' = cc_mac1Key c \<and> cc_typeInitiation c' = cc_typeInitiation c"
proof -
  obtain n s where n: "rc 24 = Some n" "rc 32 = Some s" "length n = 24" using assms(2-4) by (auto simp: rand_ok_def)
  have m: "MACRegions (body @ m1 @ m2) = Some (body, body @ m1)" "length (body @ m1 @ m2) = 148" "slice 116 132 (body @ m1 @ m2) = m1"
    using assms(5-7) by (simp_all add: MACRegions_def slice_def)
  show ?thesis
  proof (cases "case cc_secretAt c of None \<Rightarrow> True | Some u \<Rightarrow> t - u > CookieRefreshTime")
    case True
    show ?thesis unfolding CookieReply_def Let_def m(1) if_P [OF True]
      by (rule exI [of _ n], rule exI [of _ "c\<lparr>cc_secret := s, cc_secretAt := Some t\<rparr>"]) (use m(2,3) n assms(1,5) in simp)
  next
    case False
    then obtain u where u: "cc_secretAt c = Some u" by (cases "cc_secretAt c") auto
    show ?thesis unfolding CookieReply_def Let_def m(1) if_not_P [OF False]
      by (rule exI [of _ n], rule exI [of _ c]) (use m(2,3) n assms(1,5) u in simp)
  qed
qed

text \<open>
  C36: a cookie reply gets the initiator past a responder under load.  When an initiation to this responder is answered with a cookie reply, the
  first authenticator of the initiation is the one the responder checks, the initiator opens the reply and finds the
  responder's cookie for the address the initiation came from, and the next initiation made with it, unless that cookie is all zeros,
  passes the check of the second authenticator from the same address as long as the responder's secret lives.
\<close>

theorem wg_cookie_accepted:
  assumes "wg_ok W" "length sr = 32" and "rnd 32 \<noteq> None" "rnd 4 \<noteq> None" "rnd' 32 \<noteq> None" "rnd' 4 \<noteq> None"
    and rc: "rand_ok rc" "rc 32 \<noteq> None" "rc 24 \<noteq> None"
    and c0: "NewCookieChecker W sr h1 = Ok c0" and c: "cc_mac1Key c = cc_mac1Key c0" "cc_encKey c = cc_encKey c0" "cc_typeInitiation c = h1"
    and i: "NewInitiator W \<lparr>LocalStatic = si, RemoteStatic = x25519_pub W sr, PresharedKey = psk, TypeInitiation = h1, TypeResponse = h2\<rparr> = Ok i"
  shows "\<exists>msg i1 rep c' ck msg' i2. Initiation W rnd now (SetCookie old i) = (Ok msg, i1)
    \<and> CheckMAC1 W msg c \<and> CookieReply W rc t msg src c = (Ok rep, c')
    \<and> ConsumeCookieReply W rep i1 = Ok ck \<and> ck = cookieFor W src c'
    \<and> Initiation W rnd' now' (SetCookie ck i) = (Ok msg', i2)
    \<and> (ck \<noteq> replicate 16 0 \<longrightarrow> (\<forall>t'. t' - the (cc_secretAt c') \<le> CookieRefreshTime \<longrightarrow> CheckMAC2 W t' msg' src c'))"
proof -
  have pub: "arr 32 (x25519_pub W sr) = x25519_pub W sr" using wg_okD(2) [OF assms(1)] by (simp add: arr_id)
  have k: "cc_mac1Key c = in_mac1Key i" "cc_encKey c = in_cookieKey i" "length (cc_encKey c) = 32" "in_typeInitiation i = h1" "\<not> in_sent i"
      "in_remoteStatic i = x25519_pub W sr"
    using c0 c i assms(2) by (auto simp: NewCookieChecker_def PublicKey_def NewInitiator_def pub split: if_splits)
  have set: "in_mac1Key (SetCookie x i) = in_mac1Key i" "in_cookieKey (SetCookie x i) = in_cookieKey i" "in_typeInitiation (SetCookie x i) = h1"
      "\<not> in_sent (SetCookie x i)" "in_remoteStatic (SetCookie x i) = x25519_pub W sr" "in_cookie (SetCookie x i) = x" for x
    using k by (simp_all add: SetCookie_def)
  obtain body m1 i1 m2 where I: "Initiation W rnd now (SetCookie old i) = (Ok (body @ m1 @ m2), i1)" "length body = 116"
      "m1 = mac128 W (in_mac1Key i) (macOver body h1)" "getle32 4 (body @ m1 @ m2) = in_localIdx i1" "in_sent i1" "in_lastMAC1 i1 = m1"
      "in_cookieKey i1 = in_cookieKey i" "length m2 = 16"
    using Initiation_honest [OF assms(1,3,4) set(4,5), of now old] length_mac2_of unfolding set by blast
  have lm: "length m1 = 16" by (simp add: I(3))
  obtain nonce c' u where C: "CookieReply W rc t (body @ m1 @ m2) src c = (MarshalCookieReply \<lparr>cr_Receiver = in_localIdx i1, cr_Nonce = nonce,
      cr_Cookie = arr 32 (xchacha_seal W (in_cookieKey i) nonce m1 (cookieFor W src c'))\<rparr> (replicate 64 0), c')"
      "length nonce = 24" "cc_secretAt c' = Some u" "cc_typeInitiation c' = h1"
    using CookieReply_eq [OF k(3) rc I(2) lm I(8), of W t src] k(2) c(3) I(4) by auto
  define ck where "ck = cookieFor W src c'"
  have lck: "length ck = 16" by (simp add: ck_def cookieFor_def)
  let ?x = "xchacha_seal W (in_cookieKey i) nonce m1 ck"
  have lx: "length ?x = 32" using wg_okD(6) [OF assms(1)] lck by simp
  define rep where "rep = [3, 0, 0, 0] @ le32 (in_localIdx i1) @ nonce @ ?x"
  have C': "CookieReply W rc t (body @ m1 @ m2) src c = (Ok rep, c')"
    using C(1) lx by (simp add: MarshalCookieReply_def rep_def ck_def arr_id)
  have R: "ConsumeCookieReply W rep i1 = Ok ck"
    unfolding ConsumeCookieReply_def rep_def ParseCookieReply_bytes [OF C(2) lx] sum.case
    using I(5,6,7) k(2,3) wg_okD(5) [OF assms(1)] lck by (simp add: arr_id)
  have M1: "CheckMAC1 W (body @ m1 @ m2) c" using I(2,3,8) lm k(1) c(3) by (simp add: CheckMAC1_def MACRegions_def slice_def)
  obtain body' m1' i2 where J: "Initiation W rnd' now' (SetCookie ck i) = (Ok (body' @ m1' @ mac2_of W (SetCookie ck i) (body' @ m1')), i2)" "length body' = 116" "length m1' = 16"
    using Initiation_honest [OF assms(1,5,6) set(4,5), of now' ck] wg_lengths(2) unfolding set by blast
  have "CheckMAC2 W t' (body' @ m1' @ mac2_of W (SetCookie ck i) (body' @ m1')) src c'"
    if "ck \<noteq> replicate 16 0" "t' - the (cc_secretAt c') \<le> CookieRefreshTime" for t'
    using that J(2,3) C(3,4) by (simp add: CheckMAC2_def MACRegions_def mac2_of_def set Let_def slice_def ck_def [symmetric])
  then show ?thesis using I(1) M1 C' R J(1) ck_def by blast
qed

lemma wg_cookie_accepted_witness:
  "\<exists>c0 i msg i1 rep c' ck msg' i2. NewCookieChecker example_wg (replicate 32 2) 0 = Ok c0
    \<and> Initiation example_wg (\<lambda>n. Some (replicate n 3)) (7, 8) (SetCookie (replicate 16 0) i) = (Ok msg, i1)
    \<and> CookieReply example_wg (\<lambda>n. Some (replicate n 9)) 5 msg (Addr4 1, 500) c0 = (Ok rep, c') \<and> ConsumeCookieReply example_wg rep i1 = Ok ck
    \<and> Initiation example_wg (\<lambda>n. Some (replicate n 4)) (9, 8) (SetCookie ck i) = (Ok msg', i2)"
proof -
  have l: "length (replicate 32 (2 :: byte)) = 32" "length (x25519_pub example_wg k) = 32" for k by (simp_all add: example_wg_def)
  obtain c0 where c0: "NewCookieChecker example_wg (replicate 32 2) 0 = Ok c0" using l(1) by (simp add: NewCookieChecker_def PublicKey_def)
  then have t: "cc_typeInitiation c0 = 0" by (auto simp: NewCookieChecker_def split: sum.splits)
  obtain i where i: "NewInitiator example_wg \<lparr>LocalStatic = replicate 32 2, RemoteStatic = x25519_pub example_wg (replicate 32 2), PresharedKey = [], TypeInitiation = 0, TypeResponse = 0\<rparr> = Ok i"
    using l by (simp add: NewInitiator_def)
  have r: "rand_ok (\<lambda>n. Some (replicate n 9))" by (simp add: rand_ok_def)
  have s: "Some x \<noteq> None" for x :: bytes by simp
  show ?thesis
    using wg_cookie_accepted [where rnd = "\<lambda>n. Some (replicate n 3)" and rnd' = "\<lambda>n. Some (replicate n 4)" and now = "(7, 8)" and old = "replicate 16 0" and t = 5
        and src = "(Addr4 1, 500)" and now' = "(9, 8)",
        OF example_wg_ok l(1) s s s s r s s c0 refl refl t i] c0
    by blast
qed

end
