(* ===== verification/Wg_Transport.thy ===== *)
theory Wg_Transport
  imports Wg_Noise Channel Inner_Packet
begin

text \<open>
  WireGuard's data path, \<^verbatim>\<open>internal/wireguard/transport/transport.go\<close>: a session seals inner packets under a counter and
  opens them behind the replay filter of the theory Replay.  The AEADs are their keys; a buffer that is appended to is
  a list.
\<close>

definition RejectAfterMessages :: u64 where
  "RejectAfterMessages = 2 ^ 64 - 2 ^ 13 - 1"

record Session =
  se_send :: bytes
  se_recv :: bytes
  se_local :: u32
  se_remote :: u32
  se_counter :: u64
  se_replay :: replayFilter

definition NewSession :: "bytes \<Rightarrow> bytes \<Rightarrow> u32 \<Rightarrow> u32 \<Rightarrow> wg_error + Session" where
  "NewSession sendKey recvKey local remote =
     (if length sendKey \<noteq> 32 then Err BadKeySize
      else if length recvKey \<noteq> 32 then Err BadKeySize
      else Ok \<lparr>se_send = sendKey, se_recv = recvKey, se_local = local, se_remote = remote, se_counter = 0, se_replay = replayFilter0\<rparr>)"

definition paddedLen :: "nat \<Rightarrow> int \<Rightarrow> nat" where
  "paddedLen n minInner =
     (if n = 0 then 0
      else let n = (if minInner > int n then let aligned = minInner - minInner mod 16 in if aligned > int n then nat aligned else n else n);
               rem = n mod 16
           in if rem = 0 then n else n + 16 - rem)"

definition appendSeal :: "wg_prims \<Rightarrow> bytes \<Rightarrow> bytes \<Rightarrow> int \<Rightarrow> Session \<Rightarrow> (wg_error + bytes) \<times> Session" where
  "appendSeal W dst inner minInner s =
     (let counter = se_counter s; s = s\<lparr>se_counter := se_counter s + 1\<rparr> in
      if counter \<ge> RejectAfterMessages then (Err ErrExhausted, s)
      else let padded = paddedLen (length inner) minInner in
           case PutTransportHeader 16 (se_remote s) counter of
             Err x \<Rightarrow> (Err x, s)
           | Ok hdr \<Rightarrow>
               let plaintext = inner @ replicate (padded - length inner) 0;
                   nonce = replicate 4 0 @ le64 counter
               in (Ok (dst @ hdr @ aead_seal (wg_aead W) ChaCha20Poly1305 (se_send s) nonce [] plaintext), s))"

definition AppendSeal :: "wg_prims \<Rightarrow> bytes \<Rightarrow> bytes \<Rightarrow> int \<Rightarrow> Session \<Rightarrow> (wg_error + bytes) \<times> Session" where
  "AppendSeal W dst inner minInner s = appendSeal W dst inner minInner s"

definition seal :: "wg_prims \<Rightarrow> bytes \<Rightarrow> int \<Rightarrow> Session \<Rightarrow> (wg_error + bytes) \<times> Session" where
  "seal W inner minInner s = appendSeal W [] inner minInner s"

definition wg_Seal :: "wg_prims \<Rightarrow> bytes \<Rightarrow> Session \<Rightarrow> (wg_error + bytes) \<times> Session" where
  "wg_Seal W inner s = seal W inner 0 s"

definition SealPadded :: "wg_prims \<Rightarrow> bytes \<Rightarrow> int \<Rightarrow> Session \<Rightarrow> (wg_error + bytes) \<times> Session" where
  "SealPadded W inner minInner s = seal W inner minInner s"

definition wg_Open :: "wg_prims \<Rightarrow> Session \<Rightarrow> bytes \<Rightarrow> (wg_error + bytes) \<times> Session" where
  "wg_Open W s pkt =
     (if length pkt < 32 then (Err TransportShort, s)
      else let counter = (case TransportCounter pkt of None \<Rightarrow> 0 | Some c \<Rightarrow> c) in
      if counter \<ge> RejectAfterMessages then (Err ErrReplay, s)
      else let nonce = replicate 4 0 @ slice 8 16 pkt in
      case aead_open (wg_aead W) ChaCha20Poly1305 (se_recv s) nonce [] (drop 16 pkt) of
        None \<Rightarrow> (Err ErrDecrypt, s)
      | Some plain \<Rightarrow>
          let (fresh, f) = validate (se_replay s) counter; s = s\<lparr>se_replay := f\<rparr> in
          if \<not> fresh then (Err ErrReplay, s) else (Ok (TrimToIP plain), s))"

section \<open>One packet\<close>

lemma paddedLen_ge: "n \<le> paddedLen n m"
proof (cases "n = 0")
  case False
  define k where "k = (if m > int n then let aligned = m - m mod 16 in if aligned > int n then nat aligned else n else n)"
  have "n \<le> k" by (auto simp: k_def Let_def)
  moreover have "paddedLen n m = (if k mod 16 = 0 then k else k + 16 - k mod 16)" using False by (simp add: paddedLen_def k_def Let_def)
  ultimately show ?thesis using mod_less_divisor [of 16 k] by (auto simp del: mod_less_divisor)
qed simp

definition wg_ctr :: "bytes \<Rightarrow> u64" where
  "wg_ctr w = getle64 8 w"

text \<open>A datagram that opens under this key to this packet, behind the padding.\<close>

definition wg_carries :: "wg_prims \<Rightarrow> bytes \<Rightarrow> bytes \<Rightarrow> bytes \<Rightarrow> bool" where
  "wg_carries W k w pkt \<longleftrightarrow> 32 \<le> length w \<and> wg_ctr w < RejectAfterMessages
     \<and> (\<exists>z. aead_open (wg_aead W) ChaCha20Poly1305 k (replicate 4 0 @ slice 8 16 w) [] (drop 16 w) = Some (pkt @ replicate z 0))"

definition wg_refused :: "wg_prims \<Rightarrow> bytes \<Rightarrow> bytes \<Rightarrow> bool" where
  "wg_refused W k w \<longleftrightarrow> aead_open (wg_aead W) ChaCha20Poly1305 k (replicate 4 0 @ slice 8 16 w) [] (drop 16 w) = None"

definition wg_holds :: "bytes \<Rightarrow> nat set \<Rightarrow> Session \<Rightarrow> bool" where
  "wg_holds k A s \<longleftrightarrow> se_recv s = k \<and> ring_rel A (se_replay s)"

interpretation wg_recv: datagram_receiver "replayWindowSize + 1" "\<lambda>_. True" wg_ctr "wg_Open W"
  "\<lambda>w pkt. wg_carries W k w pkt \<and> self_delimiting pkt" "wg_refused W k" "wg_holds k"
  for W k
proof
  fix A s w pkt r s'
  assume h: "wg_holds k A s" and c: "wg_carries W k w pkt \<and> self_delimiting pkt" and o: "wg_Open W s w = (r, s')"
  have tc: "TransportCounter w = Some (wg_ctr w)" using c by (simp add: TransportCounter_def wg_ctr_def wg_carries_def)
  obtain f where f: "validate (se_replay s) (wg_ctr w) = (fresh (replayWindowSize + 1) A (unat (wg_ctr w)), f)"
      "ring_rel (if fresh (replayWindowSize + 1) A (unat (wg_ctr w)) then insert (unat (wg_ctr w)) A else A) f"
    using wg.acc_step [of A "se_replay s" "wg_ctr w"] h by (auto simp: wg_holds_def)
  show "True \<and> (if fresh (replayWindowSize + 1) A (unat (wg_ctr w)) then r = Ok pkt \<and> wg_holds k (insert (unat (wg_ctr w)) A) s'
      else (\<exists>e. r = Err e) \<and> wg_holds k A s')"
    using o h c f TrimToIP_pad [of pkt] tc by (auto simp: wg_Open_def wg_holds_def wg_carries_def Let_def split: if_splits)
next
  fix A s w r s'
  assume "wg_holds k A s" "wg_refused W k w" "wg_Open W s w = (r, s')"
  then show "(\<exists>e. r = Err e) \<and> wg_holds k A s'"
    by (auto simp: wg_Open_def wg_holds_def wg_refused_def Let_def split: if_splits)
qed

section \<open>Sending\<close>

fun wg_send_all :: "wg_prims \<Rightarrow> (bytes \<times> int) list \<Rightarrow> Session \<Rightarrow> (bytes \<times> bytes) list" where
  "wg_send_all W [] s = []"
| "wg_send_all W ((pkt, m) # ops) s = (case SealPadded W pkt m s of
     (Err _, s') \<Rightarrow> wg_send_all W ops s'
   | (Ok w, s') \<Rightarrow> (w, pkt) # wg_send_all W ops s')"

lemma SealPadded_step:
  assumes "wg_ok W" "SealPadded W pkt m s = (r, s')"
  shows "se_counter s' = se_counter s + 1 \<and> se_send s' = se_send s \<and> se_remote s' = se_remote s
    \<and> (if se_counter s \<ge> RejectAfterMessages then r = Err ErrExhausted
       else \<exists>w. r = Ok w \<and> wg_carries W (se_send s) w pkt \<and> wg_ctr w = se_counter s \<and> Demux w = Some (se_remote s))"
proof (cases "se_counter s \<ge> RejectAfterMessages")
  case True
  then show ?thesis using assms(2) by (auto simp: SealPadded_def seal_def appendSeal_def Let_def)
next
  case False
  let ?c = "se_counter s"
  let ?pt = "pkt @ replicate (paddedLen (length pkt) m - length pkt) 0"
  let ?h = "[4, 0, 0, 0] @ le32 (se_remote s) @ le64 ?c"
  let ?x = "aead_seal (wg_aead W) ChaCha20Poly1305 (se_send s) (replicate 4 0 @ le64 ?c) [] ?pt"
  have rs: "r = Ok (?h @ ?x)" "s' = s\<lparr>se_counter := ?c + 1\<rparr>"
    using False assms(2) by (auto simp: SealPadded_def seal_def appendSeal_def PutTransportHeader_def Let_def)
  have n: "slice 8 16 (?h @ ?x) = le64 ?c" "drop 16 (?h @ ?x) = ?x" by (simp_all add: slice_def)
  have ct: "wg_ctr (?h @ ?x) = ?c" unfolding wg_ctr_def using getle64_le64 [of "[4, 0, 0, 0] @ le32 (se_remote s)" 8 ?c ?x] by simp
  have "getle32 4 (?h @ ?x) = se_remote s" using getle32_le32 [of "[4, 0, 0, 0]" 4 "se_remote s" "le64 ?c @ ?x"] by simp
  moreover have l: "32 \<le> length (?h @ ?x)" using length_wg_seal [OF assms(1)] by simp
  ultimately have "Demux (?h @ ?x) = Some (se_remote s)" by (simp add: Demux_def)
  moreover have "wg_carries W (se_send s) (?h @ ?x) pkt"
    unfolding wg_carries_def n ct using l False wg_open_seal [OF assms(1)] by auto
  ultimately show ?thesis using rs ct False by (intro conjI) auto
qed

text \<open>As long as the counter does not wrap, every packet has its own.\<close>

lemma wg_send_all_carries:
  assumes "wg_ok W" "unat (se_counter s) + length ops \<le> 2 ^ 64"
  shows "(\<forall>(w, pkt) \<in> set (wg_send_all W ops s). wg_carries W (se_send s) w pkt \<and> pkt \<in> fst ` set ops \<and> Demux w = Some (se_remote s)
      \<and> unat (se_counter s) \<le> unat (wg_ctr w)) \<and> distinct (map (\<lambda>x. wg_ctr (fst x)) (wg_send_all W ops s))"
  using assms(2)
proof (induction ops arbitrary: s)
  case (Cons op ops)
  obtain pkt m where op: "op = (pkt, m)" by (cases op)
  obtain r s' where rs: "SealPadded W pkt m s = (r, s')" by (cases "SealPadded W pkt m s")
  note st = SealPadded_step [OF assms(1) rs]
  show ?case
  proof (cases "ops = []")
    case True
    then show ?thesis using st rs op by (cases r) (auto split: if_splits)
  next
    case False
    then have "se_counter s \<noteq> - 1" using Cons.prems by (cases ops) (auto simp: unsigned_minus_1_eq_mask mask_eq_exp_minus_1)
    then have u: "unat (se_counter s') = unat (se_counter s) + 1" using st unat_inc [of "se_counter s"] by (simp add: word_order.not_eq_extremum)
    have IH: "(\<forall>(w, pkt) \<in> set (wg_send_all W ops s'). wg_carries W (se_send s) w pkt \<and> pkt \<in> fst ` set ops \<and> Demux w = Some (se_remote s)
        \<and> unat (se_counter s) + 1 \<le> unat (wg_ctr w)) \<and> distinct (map (\<lambda>x. wg_ctr (fst x)) (wg_send_all W ops s'))"
      using Cons.IH [of s'] Cons.prems st u by simp
    show ?thesis
    proof (cases "se_counter s \<ge> RejectAfterMessages")
      case True
      then show ?thesis using st rs op IH by fastforce
    next
      case False
      then obtain w where w: "r = Ok w" "wg_carries W (se_send s) w pkt" "wg_ctr w = se_counter s" "Demux w = Some (se_remote s)" using st by auto
      have e: "wg_send_all W (op # ops) s = (w, pkt) # wg_send_all W ops s'" using op rs w(1) by simp
      have "wg_ctr w \<notin> (\<lambda>x. wg_ctr (fst x)) ` set (wg_send_all W ops s')" using IH w(3) by fastforce
      then show ?thesis using IH w unfolding e by (fastforce simp: op)
    qed
  qed
qed simp

section \<open>Properties\<close>

text \<open>
  C7: a WireGuard session end to end.  The keys and indices are those two ends of a handshake hold.  One end seals IP packets, padded as asked, fewer than the
  counter space; no two are sealed under one nonce, and each is addressed to the index the other end demultiplexes on.  The network loses, repeats and reorders the
  datagrams and inserts others that do not authenticate.  The other end delivers the IP packets without their padding, octet for octet: exactly
  one for each counter that is new and within the window of the highest delivered, in order of arrival; if none arrives twice or too late, all.
\<close>

theorem wg_session_delivers:
  assumes "wg_ok W" and "\<forall>(pkt, m) \<in> set ops. self_delimiting pkt" and "length ops \<le> 2 ^ 64"
    and "kp_Send ki = kp_Recv kr" "kp_Remote ki = kp_Local kr"
    and "NewSession (kp_Send ki) (kp_Recv ki) (kp_Local ki) (kp_Remote ki) = Ok t"
    and "NewSession (kp_Send kr) (kp_Recv kr) (kp_Local kr) (kp_Remote kr) = Ok u"
    and "sent = wg_send_all W ops t" and "gen = filter (\<lambda>w. w \<in> fst ` set sent) ws"
    and "\<forall>w \<in> set ws. w \<in> set gen \<or> wg_refused W (kp_Recv kr) w"
  shows "distinct (map (\<lambda>x. wg_ctr (fst x)) sent) \<and> (\<forall>(w, pkt) \<in> set sent. Demux w = Some (kp_Local kr))
    \<and> receive_all (wg_Open W) ws u = map (packet_at wg_ctr sent) (spec_accepted (replayWindowSize + 1) (\<lambda>_. True) {} (map wg_ctr gen))
    \<and> (distinct (map wg_ctr gen) \<and> mildly_reordered (replayWindowSize + 1) (map wg_ctr gen) \<longrightarrow>
         receive_all (wg_Open W) ws u = map (packet_at wg_ctr sent) (map wg_ctr gen))"
proof -
  have t: "se_send t = kp_Recv kr" "se_counter t = 0" "se_remote t = kp_Local kr" and h: "wg_holds (kp_Recv kr) {} u"
    using assms(4-7) wg.rel_init by (auto simp: NewSession_def wg_holds_def split: if_splits)
  have s: "(\<forall>(w, pkt) \<in> set sent. wg_carries W (kp_Recv kr) w pkt \<and> pkt \<in> fst ` set ops \<and> Demux w = Some (kp_Local kr))"
    and d: "distinct (map (\<lambda>x. wg_ctr (fst x)) sent)"
    using wg_send_all_carries [OF assms(1), of t ops] assms(3) t by (auto simp: assms(8))
  have c: "\<forall>(w, pkt) \<in> set sent. wg_carries W (kp_Recv kr) w pkt \<and> self_delimiting pkt" using s assms(2) by fastforce
  have f: "\<forall>w \<in> set ws. w \<in> fst ` set sent \<or> wg_refused W (kp_Recv kr) w" using assms(9,10) by auto
  show ?thesis
    using wg_recv.receives [OF h c d f] wg_recv.receives_all [OF h c d f assms(9)] s d unfolding assms(9) by auto
qed

definition example_ip :: bytes where
  "example_ip = [69, 0, 0, 20] @ replicate 16 1"

definition example_keypair :: "byte \<Rightarrow> byte \<Rightarrow> u32 \<Rightarrow> u32 \<Rightarrow> Keypair" where
  "example_keypair a b l r = \<lparr>kp_Send = replicate 32 a, kp_Recv = replicate 32 b, kp_Local = l, kp_Remote = r\<rparr>"

lemma wg_session_delivers_witness:
  "\<exists>t u w. NewSession (replicate 32 1) (replicate 32 2) 7 8 = Ok t \<and> NewSession (replicate 32 2) (replicate 32 1) 8 7 = Ok u
     \<and> wg_send_all example_wg [(example_ip, 100)] t = [(w, example_ip)] \<and> receive_all (wg_Open example_wg) [w, w] u = [example_ip]"
proof -
  let ?ki = "example_keypair 1 2 7 8" and ?kr = "example_keypair 2 1 8 7"
  obtain t u where tu: "NewSession (replicate 32 1) (replicate 32 2) 7 8 = Ok t" "NewSession (replicate 32 2) (replicate 32 1) 8 7 = Ok u"
    by (simp add: NewSession_def)
  then have z: "se_counter t = 0" by (auto simp: NewSession_def)
  obtain r t' where rt: "SealPadded example_wg example_ip 100 t = (r, t')" by (cases "SealPadded example_wg example_ip 100 t")
  obtain w where w: "r = Ok w" using SealPadded_step [OF example_wg_ok rt] z by (auto simp: RejectAfterMessages_def)
  then have s: "wg_send_all example_wg [(example_ip, 100)] t = [(w, example_ip)]" using rt by simp
  have sd: "self_delimiting example_ip" by (simp add: self_delimiting_def version_def example_ip_def eval_simps)
  have "receive_all (wg_Open example_wg) [w, w] u = map (packet_at wg_ctr [(w, example_ip)]) (spec_accepted (replayWindowSize + 1) (\<lambda>_. True) {} (map wg_ctr [w, w]))"
    using wg_session_delivers [OF example_wg_ok, of "[(example_ip, 100)]" ?ki ?kr t u "[(w, example_ip)]" "[w, w]" "[w, w]"] tu s sd
    by (simp add: example_keypair_def del: wg_send_all.simps)
  then have "receive_all (wg_Open example_wg) [w, w] u = [example_ip]" by (simp add: fresh_def packet_at_def del: receive_all.simps)
  then show ?thesis using tu s by blast
qed

end
