(* ===== verification/Spec2Isabelle.thy ===== *)
theory Spec2Isabelle
  imports
    Prelude Netip Addr_Pool Route_Table Admission Checksum Inner_Packet Flow_Shaper Pump Gro Gro_Table Gro_Batch
    Replay Channel
    Crypto Esp Aggfrag Ike_Message Ike_Payload Ike_Sk Ike_Secure
    Ovpn_Wire Reliable Ovpn_Control Ovpn_Keys Ovpn_Data
    Wg_Wire Wg_Noise Wg_Transport
begin

text \<open>
  A verification development for veepin, a VPN in userspace: sixteen protocols in Go behind one data plane.

  \<^bold>\<open>The program.\<close>  A protocol package authenticates a peer and yields a tunnel, an object that encapsulates and decapsulates packets.
  The data plane (\<^verbatim>\<open>dataplane\<close>) owns the TUN device and the sockets: the pump takes an IP packet from the device, finds the tunnel of the
  longest matching prefix, and sends what the tunnel makes of it; a datagram from the network is demultiplexed by a key, opened by its tunnel, checked for
  its source address, and written to the device.  Servers take inner addresses from pools and admit handshakes through a gate.  Of the
  protocols, the development models three from the wire to the packet: IKEv2 with ESP, WireGuard, and OpenVPN.

  \<^bold>\<open>Conventions.\<close>  Octet slices are lists of 8-bit words, fixed-width integers are words of their width and wrap as the code's do, \<^verbatim>\<open>int\<close> is
  \<open>int\<close> or \<open>nat\<close>, structs are records, errors are values of a sum (\<open>Err\<close>, \<open>Ok\<close>) or \<open>None\<close>.  An operation
  on a mutable object returns the object's next state.  The clock and the source of random octets are arguments.  Cryptographic primitives are
  the functions of a record; the hypotheses \<open>prims_ok\<close>, \<open>wg_ok\<close> and \<open>kd_ok\<close> state that opening undoes sealing, the lengths of their
  results, and that Diffie-Hellman commutes.  Nothing is assumed about secrecy or unforgeability: a forged datagram is one that does not open.

  \<^bold>\<open>Data plane.\<close>
    \<^item> Prelude and Netip: octets, readers and writers of \<^verbatim>\<open>encoding/binary\<close>, generic lemmas; addresses and prefixes of \<^verbatim>\<open>net/netip\<close>.
    \<^item> Addr_Pool (\<^verbatim>\<open>pool.go\<close>, \<^verbatim>\<open>pool6.go\<close>): both pools implement the contract \<open>address_pool\<close>; no address is lent twice, exhaustion is reported
      exactly, and the IPv6 pool is stuck after the all-ones address.
    \<^item> Route_Table (\<^verbatim>\<open>routes.go\<close>): the persistent tries refine a map from prefixes (\<open>route_map\<close>); lookup is longest-prefix match.
    \<^item> Admission (\<^verbatim>\<open>admission.go\<close>): bounds on half-open handshakes and on a source's rate.
    \<^item> Checksum, Inner_Packet (\<^verbatim>\<open>icmp.go\<close>, \<^verbatim>\<open>icmp6.go\<close>, \<^verbatim>\<open>source.go\<close>, \<^verbatim>\<open>mtu.go\<close>): checksums verify, ICMP errors are well formed, padding is trimmed.
    \<^item> Flow_Shaper (\<^verbatim>\<open>shape.go\<close>): which packets are padded and to what length.
    \<^item> Pump (\<^verbatim>\<open>pump.go\<close>, \<^verbatim>\<open>counters.go\<close>): registration, both directions, roaming, drops and statistics over an abstract tunnel; reachable pumps are an
      inductive relation, over which sources, routes and counters are shown.
    \<^item> Gro, Gro_Table, Gro_Batch (\<^verbatim>\<open>offload_linux.go\<close>, \<^verbatim>\<open>gro_linux.go\<close>): segmentation, checksums that verify, coalescing groups, and the batch path of the
      pump.  For well-formed segments the batch delivers each flow as the single path does; a group that was flushed loses headers.

  \<^bold>\<open>Replay protection and channels.\<close>
    \<^item> Replay: the six windows of the repository implement \<open>replay_guard\<close>, against one specification of freshness; where \<^verbatim>\<open>replay.Window\<close> does not return.
    \<^item> Channel: the contract \<open>datagram_receiver\<close> of a receiver behind a window, and what a run over a network that loses, repeats, reorders and inserts
      datagrams delivers.  Esp, Wg_Transport and Ovpn_Data interpret it on their tunnels.

  \<^bold>\<open>IKEv2 and ESP.\<close>
    \<^item> Crypto (\<^verbatim>\<open>internal/cryptoutil\<close>, \<^verbatim>\<open>internal/ikev2/transform\<close>): ciphers, ESP crypters and PRF, with the contract \<open>packet_sealer\<close>; nonces never repeat.
    \<^item> Esp (\<^verbatim>\<open>internal/ikev2/esp\<close>, \<^verbatim>\<open>ike/datapath.go\<close>): the security association and its tunnels, from packet to packet.
    \<^item> Aggfrag (\<^verbatim>\<open>internal/ikev2/aggfrag\<close>, \<^verbatim>\<open>ike/aggfrag_pacer.go\<close>): constant-rate tunnels lose nothing, drain, and show a fixed pattern; a lost payload splices packets.
    \<^item> Ike_Message, Ike_Payload (\<^verbatim>\<open>internal/ikev2/payload\<close>): framing and bodies parse back; two walks of the payload chain agree.
    \<^item> Ike_Sk (\<^verbatim>\<open>suite.go\<close>, \<^verbatim>\<open>keymat.go\<close>, \<^verbatim>\<open>sk.go\<close>): negotiation, key derivation and the encrypted payload.
    \<^item> Ike_Secure (\<^verbatim>\<open>fragment.go\<close>, \<^verbatim>\<open>secured.go\<close>, \<^verbatim>\<open>session.go\<close>): fragmentation in both directions and the responder's entry point, which nothing unauthenticated passes.

  \<^bold>\<open>OpenVPN.\<close>
    \<^item> Ovpn_Wire, Reliable, Ovpn_Control (\<^verbatim>\<open>internal/openvpn/wire\<close>, \<^verbatim>\<open>reliable\<close>, \<^verbatim>\<open>control\<close>): packets, reliability, and the control channel as a step relation of
      two ends and a network; what is read is a prefix of what was written, and retransmission delivers it.
    \<^item> Ovpn_Keys, Ovpn_Data (\<^verbatim>\<open>internal/openvpn/keys\<close>, \<^verbatim>\<open>data\<close>, \<^verbatim>\<open>session.go\<close>): the key exchange, both data ciphers and the tunnel, composed into one theorem.

  \<^bold>\<open>WireGuard.\<close>
    \<^item> Wg_Wire, Wg_Noise, Wg_Transport (\<^verbatim>\<open>internal/wireguard/wire\<close>, \<^verbatim>\<open>noise\<close>, \<^verbatim>\<open>transport\<close>): an honest handshake agrees on keys, cookies are accepted, sessions deliver.

  \<^bold>\<open>Bounds and loops.\<close>  There is no fuel.  A loop whose end depends on its input is a partial function with result \<open>None\<close> for not returning (the
  scans of the pools, the slots of \<^verbatim>\<open>replay.Window\<close>, the blocks of both PRFs, the walk that rebuilds a trie); that it returns, or exactly when, is proved.
  Other loops are recursive functions with a measure.  A Go panic is \<open>None\<close> or an error of its own.  Bounds in the theorems are the code's: the OpenVPN and ESP
  counters stop at their last value, and the WireGuard theorem is limited to \<open>2 ^ 64\<close> calls because the counter wraps after that; batches of the coalescing theorem hold
  at most 256 packets because \<^verbatim>\<open>segmentTSO4\<close> cuts no more.

  \<^bold>\<open>Findings.\<close>  Five theorems state behaviour that contradicts a comment of the code: \<open>Accept_hangs_iff\<close> (\<^verbatim>\<open>replay.go\<close>), \<open>AddrPool6_never_reuses\<close>
  (\<^verbatim>\<open>pool6.go\<close>), \<open>Feed_splices\<close> (\<^verbatim>\<open>codec.go\<close>), \<open>empty_fragments_complete\<close> (\<^verbatim>\<open>fragment.go\<close>) and \<open>gro_flushed_group_loses_headers\<close> (\<^verbatim>\<open>gro_linux.go\<close>).

  \<^bold>\<open>Not modelled.\<close>  Goroutines, locks and the interleaving inside one object: an operation is one step, as it is under the lock of its object.  Device and
  socket calls, host routes, DNS and firewall commands, the management interface, command line, logging, the NetworkManager plugin and the tests have effects outside the program.  Of the
  protocols, AnyConnect, Fortinet, GlobalProtect, Pulse, Cisco and IKEv1, L2TP, L2TPv3, PPP, SSTP, MASQUE, Nebula, SoftEther, SSH and the toy protocol, the
  DTLS handshake, and of the three modelled ones the authentication of IKEv2, its initiator, CHILD SA exchanges and rekeying, the
  servers' loops, the wrapping of OpenVPN control packets and AmneziaWG's obfuscation hold logic that could be modelled in the same way; they are left out for
  the size of the development.  X.509, TLS, QUIC and SSH are libraries.  In the CBC mode of OpenVPN the four header octets are
  not authenticated; a datagram that differs from a sent one only there opens, and is outside the theorem.
\<close>

end
